(* ===== verification/Prelude.thy ===== *)
theory Prelude
  imports Main "HOL-Library.Word" "HOL-Library.Monad_Syntax"
begin

text \<open>
  What the components share: the names of the machine types, the errno values, the
  memory a C pointer ranges over, the C loop as one combinator with its proof rules, and
  the arithmetic of addresses.

  A pointer is a 64-bit word.  Memory is a partial function from addresses to bytes; an
  address outside its domain is not mapped, and touching it is a fault.  A function that
  reads or writes memory returns an option: \<open>None\<close> is a fault (or a loop that does not
  end), so every theorem of the form \<open>f \<dots> = Some \<dots>\<close> says that the code returns
  and touches mapped memory only.
\<close>

unbundle bit_operations_syntax

subsection \<open>Types and constants\<close>

type_synonym u8 = "8 word"
type_synonym u16 = "16 word"
type_synonym u32 = "32 word"
type_synonym u64 = "64 word"
type_synonym mem = "u64 \<Rightarrow> u8 option"

abbreviation lit :: "string \<Rightarrow> u8 list" where
  "lit cs \<equiv> map of_char cs"

datatype errno = EINVAL | ERANGE | EILSEQ | ENOMEM | ESRCH | EBADF | EOVERFLOW | ENOSPC | EIO

text \<open>A call that may end the process instead of returning (\<open>__chk_fail\<close>).\<close>

datatype 'a outcome = Ret 'a | Abort

text \<open>The collections the component proofs draw on.\<close>

named_theorems mem_simps \<open>equations of loads and stores\<close>
named_theorems ptr_arith \<open>arithmetic of addresses and sizes\<close>

lemma takeWhile_holds: "k < length (takeWhile P xs) \<Longrightarrow> P (xs ! k)"
  using nth_mem [of k "takeWhile P xs"] set_takeWhileD [of "takeWhile P xs ! k" P xs]
  by (simp add: takeWhile_nth)

subsection \<open>C's truncating division\<close>

definition cdiv :: "int \<Rightarrow> int \<Rightarrow> int" where
  "cdiv a b = sgn a * sgn b * (\<bar>a\<bar> div \<bar>b\<bar>)"

definition cmod :: "int \<Rightarrow> int \<Rightarrow> int" where
  "cmod a b = a - cdiv a b * b"

lemma cdiv_nonneg [simp]: "0 \<le> a \<Longrightarrow> 0 < b \<Longrightarrow> cdiv a b = a div b"
  by (cases "a = 0") (simp_all add: cdiv_def)

lemma cmod_nonneg [simp]: "0 \<le> a \<Longrightarrow> 0 < b \<Longrightarrow> cmod a b = a mod b"
  by (simp add: cmod_def minus_div_mult_eq_mod)

lemma cdiv_neg: "a < 0 \<Longrightarrow> 0 < b \<Longrightarrow> cdiv a b = - ((- a) div b)"
  by (simp add: cdiv_def)

lemma cmod_neg: "a < 0 \<Longrightarrow> 0 < b \<Longrightarrow> cmod a b = - ((- a) mod b)"
  by (simp add: cmod_def cdiv_neg minus_div_mult_eq_mod [symmetric])

subsection \<open>Loops\<close>

text \<open>
  \<open>loop c f s\<close> is \<^verbatim>\<open>while (c) f\<close> over the loop's variables \<open>s\<close>.  The guard and the body
  may read memory, so both return options.
\<close>

partial_function (option) loop ::
    "('s \<Rightarrow> bool option) \<Rightarrow> ('s \<Rightarrow> 's option) \<Rightarrow> 's \<Rightarrow> 's option" where
  "loop c f s = do { b \<leftarrow> c s; if b then do { s' \<leftarrow> f s; loop c f s' } else Some s }"

declare loop.simps [code]

lemma loop_step: "c s = Some True \<Longrightarrow> f s = Some s' \<Longrightarrow> loop c f s = loop c f s'"
  by (subst loop.simps) simp

lemma loop_done: "c s = Some False \<Longrightarrow> loop c f s = Some s"
  by (subst loop.simps) simp

text \<open>The states of the loop known in closed form.\<close>

lemma loop_iterate:
  assumes "\<And>i. i < n \<Longrightarrow> c (st i) = Some True"
    and "\<And>i. i < n \<Longrightarrow> f (st i) = Some (st (Suc i))"
    and "c (st n) = Some False"
  shows "loop c f (st 0) = Some (st n)"
proof -
  have "k \<le> n \<Longrightarrow> loop c f (st (n - k)) = Some (st n)" for k
  proof (induction k)
    case 0
    then show ?case using assms(3) by (simp add: loop_done)
  next
    case (Suc k)
    then have lt: "n - Suc k < n" and eq: "Suc (n - Suc k) = n - k" by simp_all
    from lt assms(1,2) have "loop c f (st (n - Suc k)) = loop c f (st (Suc (n - Suc k)))"
      by (blast intro: loop_step)
    with eq Suc show ?case by simp
  qed
  from this [of n] show ?thesis by simp
qed

text \<open>Total correctness with an invariant and a measure.\<close>

lemma loop_total:
  fixes \<mu> :: "'s \<Rightarrow> nat"
  assumes init: "I s"
    and guard: "\<And>s. I s \<Longrightarrow> \<exists>b. c s = Some b"
    and body: "\<And>s. I s \<Longrightarrow> c s = Some True \<Longrightarrow> \<exists>s'. f s = Some s' \<and> I s' \<and> \<mu> s' < \<mu> s"
    and stop: "\<And>s. I s \<Longrightarrow> c s = Some False \<Longrightarrow> Q s"
  shows "\<exists>s'. loop c f s = Some s' \<and> Q s'"
  using init
proof (induction "\<mu> s" arbitrary: s rule: less_induct)
  case less
  from guard [OF less.prems] obtain b where b: "c s = Some b" by blast
  show ?case
  proof (cases b)
    case True
    with b body [OF less.prems] obtain s' where "f s = Some s'" "I s'" "\<mu> s' < \<mu> s" by auto
    with less.hyps [of s'] b True show ?thesis by (auto simp: loop_step)
  next
    case False
    with b stop [OF less.prems] show ?thesis by (auto simp: loop_done)
  qed
qed

text \<open>
  A loop that moves in steps of \<open>d\<close> through the states \<open>st j\<close>, never past \<open>i\<close>: it stops at the
  first one where the guard \<open>t\<close> fails.
\<close>

lemma loop_scan:
  fixes i d j :: nat
  assumes guard: "\<And>j. j \<le> i \<Longrightarrow> R j \<Longrightarrow> c (st j) = Some (t j)"
    and step: "\<And>j. j \<le> i \<Longrightarrow> R j \<Longrightarrow> t j \<Longrightarrow> f (st j) = Some (st (j + d)) \<and> j + d \<le> i \<and> R (j + d)"
    and d: "0 < d" and start: "j \<le> i" "R j"
  shows "\<exists>k. j \<le> k \<and> k \<le> i \<and> R k \<and> \<not> t k \<and> loop c f (st j) = Some (st k)"
  using start
proof (induction "i - j" arbitrary: j rule: less_induct)
  case less
  show ?case
  proof (cases "t j")
    case True
    with step less.prems have st: "f (st j) = Some (st (j + d))" "j + d \<le> i" "R (j + d)" by auto
    then have "i - (j + d) < i - j" using d by simp
    from less.hyps [OF this st(2,3)] guard [OF less.prems] True st(1) show ?thesis
      by (auto simp: loop_step intro: add_leD1)
  next
    case False
    with guard [OF less.prems] less.prems show ?thesis by (auto simp: loop_done)
  qed
qed

subsection \<open>Memory\<close>

definition load :: "mem \<Rightarrow> u64 \<Rightarrow> u8 option" where
  "load m a = m a"

definition store :: "mem \<Rightarrow> u64 \<Rightarrow> u8 \<Rightarrow> mem option" where
  "store m a v = (case m a of None \<Rightarrow> None | Some _ \<Rightarrow> Some (m(a \<mapsto> v)))"

lemma store_mapped [mem_simps]: "m a = Some w \<Longrightarrow> store m a v = Some (m(a \<mapsto> v))"
  by (simp add: store_def)

lemma load_mapped [mem_simps]: "m a = Some w \<Longrightarrow> load m a = Some w"
  by (simp add: load_def)

text \<open>The \<open>n\<close> bytes at \<open>a\<close> are mapped; they hold the list \<open>bs\<close>.\<close>

definition mapped :: "mem \<Rightarrow> u64 \<Rightarrow> nat \<Rightarrow> bool" where
  "mapped m a n \<longleftrightarrow> (\<forall>i < n. m (a + of_nat i) \<noteq> None)"

definition bytes_at :: "mem \<Rightarrow> u64 \<Rightarrow> u8 list \<Rightarrow> bool" where
  "bytes_at m a bs \<longleftrightarrow> (\<forall>i < length bs. m (a + of_nat i) = Some (bs ! i))"

text \<open>A C string: its bytes, none of them NUL, and the terminator.\<close>

definition cstring :: "mem \<Rightarrow> u64 \<Rightarrow> u8 list \<Rightarrow> bool" where
  "cstring m a bs \<longleftrightarrow> 0 \<notin> set bs \<and> bytes_at m a (bs @ [0]) \<and> length bs < 2 ^ 64 - 1"

text \<open>
  Memory is mapped by the page, so the aligned 8-byte word around a mapped byte is
  mapped as well.
\<close>

definition word_granular :: "mem \<Rightarrow> bool" where
  "word_granular m \<longleftrightarrow>
     (\<forall>a. m a \<noteq> None \<longrightarrow> (\<forall>i < 8. m (a - a mod 8 + of_nat i) \<noteq> None))"

lemma bytes_atD: "bytes_at m a bs \<Longrightarrow> i < length bs \<Longrightarrow> m (a + of_nat i) = Some (bs ! i)"
  by (simp add: bytes_at_def)

lemma bytes_at_mapped: "bytes_at m a bs \<Longrightarrow> mapped m a (length bs)"
  by (simp add: bytes_at_def mapped_def)

lemma mappedD: "mapped m a n \<Longrightarrow> i < n \<Longrightarrow> \<exists>b. m (a + of_nat i) = Some b"
  by (auto simp: mapped_def)

lemma mapped_less: "mapped m a n \<Longrightarrow> k \<le> n \<Longrightarrow> mapped m a k"
  by (simp add: mapped_def)

lemma cstring_byte: "cstring m a bs \<Longrightarrow> i < length bs \<Longrightarrow> m (a + of_nat i) = Some (bs ! i)"
  by (drule cstring_def [THEN iffD1], drule conjunct2, drule conjunct1)
    (auto simp: bytes_at_def nth_append dest: spec [of _ i])

lemma cstring_nul: "cstring m a bs \<Longrightarrow> m (a + of_nat (length bs)) = Some 0"
  by (auto simp: cstring_def bytes_at_def nth_append)

lemma cstring_nonzero: "cstring m a bs \<Longrightarrow> i < length bs \<Longrightarrow> bs ! i \<noteq> 0"
  by (metis cstring_def nth_mem)

lemma cstring_len: "cstring m a bs \<Longrightarrow> length bs < 2 ^ 64 - 1"
  by (simp add: cstring_def)

subsection \<open>Addresses and sizes\<close>

lemma unat_of_nat_64 [ptr_arith]: "n < 2 ^ 64 \<Longrightarrow> unat (of_nat n :: u64) = n"
  by (simp add: unat_of_nat take_bit_nat_eq_self)

lemma of_nat_64_inj [ptr_arith]:
  "i < 2 ^ 64 \<Longrightarrow> j < 2 ^ 64 \<Longrightarrow> ((of_nat i :: u64) = of_nat j) = (i = j)"
  by (metis unat_of_nat_64)

lemma of_nat_64_less [ptr_arith]:
  "i < 2 ^ 64 \<Longrightarrow> j < 2 ^ 64 \<Longrightarrow> ((of_nat i :: u64) < of_nat j) = (i < j)"
  by (simp add: word_less_nat_alt unat_of_nat_64)

lemma of_nat_64_le [ptr_arith]:
  "i < 2 ^ 64 \<Longrightarrow> j < 2 ^ 64 \<Longrightarrow> ((of_nat i :: u64) \<le> of_nat j) = (i \<le> j)"
  by (simp add: word_le_nat_alt unat_of_nat_64)

lemma of_nat_unat_64 [simp]: "(of_nat (unat (n :: u64)) :: u64) = n"
  by simp

lemma unat_64_lt: "unat (n :: u64) < 2 ^ 64"
  by (rule order_less_le_trans [OF unsigned_less]) simp

lemma uint_64_lt: "uint (n :: u64) < 2 ^ 64"
  using unsigned_less [of n, where ?'a = int] by simp

lemma sint_word_of_int_64: "- (2 ^ 63) \<le> v \<Longrightarrow> v < 2 ^ 63 \<Longrightarrow> sint (word_of_int v :: u64) = v"
  by (simp add: signed_of_int signed_take_bit_int_eq_self)

lemma of_nat_64_zero [ptr_arith]: "i < 2 ^ 64 \<Longrightarrow> ((of_nat i :: u64) = 0) = (i = 0)"
  using of_nat_64_inj [of i 0] by simp

lemma add_of_nat_cancel: "i < 2 ^ 64 \<Longrightarrow> j < 2 ^ 64 \<Longrightarrow>
    ((a :: u64) + of_nat i = a + of_nat j) = (i = j)"
  by (simp add: of_nat_64_inj)

end
