(* ===== verification/Bytes.thy ===== *)
theory Bytes
  imports Prelude
begin

text \<open>
  A 64-bit word as its eight bytes, lowest first: the order in which x86 keeps it in
  memory.  The second part is the arithmetic behind the test \<^verbatim>\<open>(x - ONES) & ~x & HIGHS\<close>
  for a zero byte, on the digits of a number in base 256.
\<close>

subsection \<open>Bytes and words\<close>

definition le_word :: "u8 list \<Rightarrow> u64" where
  "le_word bs = foldr (\<lambda>b w. ucast b OR push_bit 8 w) bs 0"

definition le_bytes :: "u64 \<Rightarrow> u8 list" where
  "le_bytes w = map (\<lambda>i. ucast (drop_bit (8 * i) w)) [0..<8]"

lemma bit_le_word:
  "n < 64 \<Longrightarrow> bit (le_word bs) n \<longleftrightarrow> n div 8 < length bs \<and> bit (bs ! (n div 8)) (n mod 8)"
proof (induction bs arbitrary: n)
  case Nil
  then show ?case by (simp add: le_word_def)
next
  case (Cons b bs)
  have eq: "bit (le_word (b # bs)) n \<longleftrightarrow> bit b n \<or> 8 \<le> n \<and> bit (le_word bs) (n - 8)"
    using Cons.prems by (auto simp: le_word_def bit_simps)
  show ?case
  proof (cases "n < 8")
    case True
    with eq show ?thesis by simp
  next
    case False
    then have "\<not> bit b n" by (auto dest: bit_imp_le_length)
    with eq False Cons.IH [of "n - 8"] Cons.prems show ?thesis
      by (simp add: le_div_geq le_mod_geq)
  qed
qed

lemma le_word_8: "length bs = 8 \<Longrightarrow> le_bytes (le_word bs) = bs"
proof -
  assume len: "length bs = 8"
  have "ucast (drop_bit (8 * i) (le_word bs)) = bs ! i" if "i < 8" for i
    using that len by (intro bit_word_eqI) (auto simp: bit_simps bit_le_word)
  then show ?thesis
    by (intro nth_equalityI) (simp_all add: le_bytes_def len)
qed

subsection \<open>Finding a zero byte in a word\<close>

text \<open>The number whose digits in base 256, lowest first, are \<open>ds\<close>.\<close>

fun base256 :: "int list \<Rightarrow> int" where
  "base256 [] = 0"
| "base256 (d # ds) = d + 256 * base256 ds"

lemma bit_digit:
  assumes "0 \<le> d" "d < 256"
  shows "bit (d + 256 * (b :: int)) n \<longleftrightarrow> (if n < 8 then bit d n else bit b (n - 8))"
proof -
  have "take_bit 8 d = d" using assms by (simp add: take_bit_eq_mod)
  then have bd: "bit d k \<Longrightarrow> k < 8" for k by (metis bit_take_bit_iff)
  have "d AND push_bit 8 b = 0"
    by (rule bit_eqI) (auto simp: bit_and_iff bit_push_bit_iff dest: bd)
  then have "d + 256 * b = d OR push_bit 8 b"
    by (simp add: disjunctive_add_eq_or [symmetric] push_bit_eq_mult mult.commute)
  then show ?thesis using bd [of n] by (auto simp: bit_or_iff bit_push_bit_iff)
qed

lemma bit7_pred: "0 < d \<Longrightarrow> d < 256 \<Longrightarrow> bit (d - 1) 7 \<Longrightarrow> bit (d :: int) 7"
proof -
  assume d: "0 < d" "d < 256" and b: "bit (d - 1) 7"
  have "\<not> d \<le> 128"
  proof
    assume "d \<le> 128"
    with d have "(d - 1) div 128 = 0" by (intro div_pos_pos_trivial) simp_all
    with b show False by (simp add: bit_iff_odd)
  qed
  with d have "d div 128 = 1" by (intro int_div_pos_eq [of d 128 1 "d - 128"]) simp_all
  then show "bit d 7" by (simp add: bit_iff_odd)
qed

lemma haszero_digits:
  assumes "\<forall>d \<in> set ds. 0 \<le> d \<and> d < 256"
  shows "(\<exists>i < length ds. bit (base256 ds - base256 (replicate (length ds) 1)) (8 * i + 7) \<and>
      \<not> bit (base256 ds) (8 * i + 7)) \<longleftrightarrow> 0 \<in> set ds"
  using assms
proof (induction ds)
  case Nil
  then show ?case by simp
next
  case (Cons d ds)
  let ?b = "base256 ds" and ?o = "base256 (replicate (length ds) 1)"
  from Cons.prems have d: "0 \<le> d" "d < 256" by simp_all
  have diff: "base256 (d # ds) - base256 (replicate (length (d # ds)) 1) = (d - 1) + 256 * (?b - ?o)"
    by (simp add: algebra_simps)
  show ?case
  proof (cases "d = 0")
    case True
    have "(d - 1) + 256 * (?b - ?o) = 255 + 256 * (?b - ?o - 1)" using True by simp
    then have "bit ((d - 1) + 256 * (?b - ?o)) (8 * 0 + 7)"
      using bit_digit [of 255 "?b - ?o - 1" 7] by (simp add: bit_iff_odd)
    moreover have "\<not> bit (base256 (d # ds)) (8 * 0 + 7)"
      using bit_digit [OF d, of ?b 7] True by simp
    ultimately have "\<exists>i < length (d # ds). bit ((d - 1) + 256 * (?b - ?o)) (8 * i + 7) \<and>
        \<not> bit (base256 (d # ds)) (8 * i + 7)" by (intro exI [of _ 0]) simp
    then show ?thesis using True unfolding diff by simp
  next
    case False
    with d have d': "0 \<le> d - 1" "d - 1 < 256" "0 < d" by simp_all
    have at0: "bit ((d - 1) + 256 * (?b - ?o)) 7 \<Longrightarrow> bit (base256 (d # ds)) 7"
      using bit_digit [OF d'(1,2), of "?b - ?o" 7] bit_digit [OF d, of ?b 7] bit7_pred [OF d'(3) d(2)]
      by simp
    have up: "bit ((d - 1) + 256 * (?b - ?o)) (8 * Suc i + 7) \<longleftrightarrow> bit (?b - ?o) (8 * i + 7)"
      "bit (base256 (d # ds)) (8 * Suc i + 7) \<longleftrightarrow> bit ?b (8 * i + 7)" for i
      using bit_digit [OF d'(1,2), of "?b - ?o" "8 * Suc i + 7"] bit_digit [OF d, of ?b "8 * Suc i + 7"]
      by (simp_all add: add.commute)
    have "(\<exists>i < length (d # ds). bit ((d - 1) + 256 * (?b - ?o)) (8 * i + 7) \<and>
        \<not> bit (base256 (d # ds)) (8 * i + 7)) \<longleftrightarrow>
      (\<exists>i < length ds. bit (?b - ?o) (8 * i + 7) \<and> \<not> bit ?b (8 * i + 7))"
      (is "?L \<longleftrightarrow> ?R")
    proof
      assume ?L
      then obtain i where i: "i < length (d # ds)" "bit ((d - 1) + 256 * (?b - ?o)) (8 * i + 7)"
        "\<not> bit (base256 (d # ds)) (8 * i + 7)" by blast
      with at0 obtain j where "i = Suc j" by (cases i) auto
      with i up show ?R by auto
    next
      assume ?R
      then show ?L using up by (metis Suc_less_eq length_Cons)
    qed
    then show ?thesis using Cons.IH Cons.prems False unfolding diff by simp
  qed
qed

lemma uint_byte: "0 \<le> uint (b :: u8)" "uint (b :: u8) < 256"
  using unsigned_less [of b, where ?'a = int] by simp_all

lemma bit_base256:
  "bit (base256 (map uint (bs :: u8 list))) n \<longleftrightarrow>
     n div 8 < length bs \<and> bit (bs ! (n div 8)) (n mod 8)"
proof (induction bs arbitrary: n)
  case Nil
  then show ?case by simp
next
  case (Cons b bs)
  show ?case
  proof (cases "n < 8")
    case True
    with bit_digit [OF uint_byte, of b "base256 (map uint bs)" n] show ?thesis
      by (simp add: bit_uint_iff)
  next
    case False
    with bit_digit [OF uint_byte, of b "base256 (map uint bs)" n] Cons.IH [of "n - 8"]
    show ?thesis by (simp add: le_div_geq le_mod_geq)
  qed
qed

lemma uint_le_word: "length bs \<le> 8 \<Longrightarrow> uint (le_word bs) = base256 (map uint bs)"
proof (rule bit_eqI)
  fix n assume len: "length bs \<le> 8"
  show "bit (uint (le_word bs)) n \<longleftrightarrow> bit (base256 (map uint bs)) n"
  proof (cases "n < 64")
    case True
    then show ?thesis by (simp add: bit_uint_iff bit_le_word bit_base256)
  next
    case False
    then have "\<not> n div 8 < length bs" using len by simp
    with False show ?thesis by (simp add: bit_uint_iff bit_base256)
  qed
qed

lemma le_word_xor:
  assumes "length as = 8" "length bs = 8"
  shows "le_word as XOR le_word bs = le_word (map2 (XOR) as bs)"
  by (rule bit_word_eqI) (use assms in \<open>auto simp: bit_simps bit_le_word\<close>)

lemma le_word_replicate: "le_word (replicate 8 b) = 0x0101010101010101 * ucast b"
proof -
  have le: "0x0101010101010101 * uint b < 2 ^ 64"
    using uint_byte (2) [of b] by simp
  have "uint (ucast b :: u64) = uint b" by (simp add: uint_up_ucast is_up)
  then have "uint (0x0101010101010101 * ucast b :: u64) = 0x0101010101010101 * uint b"
    using le uint_byte (1) [of b] by (simp add: uint_word_ariths)
  moreover have "uint (le_word (replicate 8 b)) = 0x0101010101010101 * uint b"
    by (simp add: uint_le_word numeral_eq_Suc)
  ultimately show ?thesis by (metis word_uint_eqI)
qed

end
