(* ===== verification/Ctype.thy ===== *)
theory Ctype
  imports Prelude
begin

text \<open>
  \<^verbatim>\<open>src/ctype.c\<close>: character classification in the C locale.  The argument is a C int; the
  tests convert it to unsigned and compare after a wrapping subtraction, which is how a
  value below the range is rejected with one comparison.
\<close>

subsection \<open>The functions\<close>

definition uns :: "int \<Rightarrow> u32" where
  "uns c = word_of_int c"

definition isdigit :: "int \<Rightarrow> bool" where
  "isdigit c \<longleftrightarrow> uns c - 0x30 < 10"

definition isalpha :: "int \<Rightarrow> bool" where
  "isalpha c \<longleftrightarrow> (uns c OR 32) - 0x61 < 26"

definition isalnum :: "int \<Rightarrow> bool" where
  "isalnum c \<longleftrightarrow> isalpha c \<or> isdigit c"

definition isblank :: "int \<Rightarrow> bool" where
  "isblank c \<longleftrightarrow> c = 0x20 \<or> c = 9"

definition iscntrl :: "int \<Rightarrow> bool" where
  "iscntrl c \<longleftrightarrow> uns c < 0x20 \<or> c = 0x7f"

definition isgraph :: "int \<Rightarrow> bool" where
  "isgraph c \<longleftrightarrow> uns c - 0x21 < 0x5e"

definition islower :: "int \<Rightarrow> bool" where
  "islower c \<longleftrightarrow> uns c - 0x61 < 26"

definition isprint :: "int \<Rightarrow> bool" where
  "isprint c \<longleftrightarrow> uns c - 0x20 < 0x5f"

definition ispunct :: "int \<Rightarrow> bool" where
  "ispunct c \<longleftrightarrow> isgraph c \<and> \<not> isalnum c"

definition isspace :: "int \<Rightarrow> bool" where
  "isspace c \<longleftrightarrow> c = 0x20 \<or> uns c - 9 < 5"

definition isupper :: "int \<Rightarrow> bool" where
  "isupper c \<longleftrightarrow> uns c - 0x41 < 26"

definition isxdigit :: "int \<Rightarrow> bool" where
  "isxdigit c \<longleftrightarrow> isdigit c \<or> (uns c OR 32) - 0x61 < 6"

definition isascii :: "int \<Rightarrow> bool" where
  "isascii c \<longleftrightarrow> \<not> (c AND NOT 0x7f \<noteq> 0)"

definition toascii :: "int \<Rightarrow> int" where
  "toascii c = c AND 0x7f"

definition tolower :: "int \<Rightarrow> int" where
  "tolower c = (if isupper c then c OR 32 else c)"

definition toupper :: "int \<Rightarrow> int" where
  "toupper c = (if islower c then c AND 0x5f else c)"

subsection \<open>What the wrapping comparisons decide\<close>

text \<open>The values of a C int.\<close>

definition c_int :: "int \<Rightarrow> bool" where
  "c_int c \<longleftrightarrow> - (2 ^ 31) \<le> c \<and> c < 2 ^ 31"

lemma uns_range:
  assumes "c_int c" "0 \<le> lo" "0 < k" "lo + k \<le> 2 ^ 31"
  shows "uns c - word_of_int lo < word_of_int k \<longleftrightarrow> lo \<le> c \<and> c < lo + k"
proof -
  have "uint (uns c - word_of_int lo) = (c - lo) mod 2 ^ 32"
    by (simp add: uns_def uint_word_ariths uint_word_of_int mod_diff_eq take_bit_eq_mod)
  moreover have "uint (word_of_int k :: u32) = k"
    using assms by (simp add: uint_word_of_int)
  ultimately have eq: "uns c - word_of_int lo < word_of_int k \<longleftrightarrow> (c - lo) mod 2 ^ 32 < k"
    by (simp add: word_less_def)
  show ?thesis
  proof (cases "lo \<le> c")
    case True
    with assms have "(c - lo) mod 2 ^ 32 = c - lo"
      by (intro mod_pos_pos_trivial) (auto simp: c_int_def)
    with eq True show ?thesis by auto
  next
    case False
    have "(c - lo) mod 2 ^ 32 = (c - lo + 2 ^ 32) mod 2 ^ 32" by simp
    also have "\<dots> = c - lo + 2 ^ 32"
      using assms False by (intro mod_pos_pos_trivial) (auto simp: c_int_def)
    finally show ?thesis using eq False assms by (auto simp: c_int_def)
  qed
qed

lemma isdigit_iff: "c_int c \<Longrightarrow> isdigit c \<longleftrightarrow> 0x30 \<le> c \<and> c \<le> 0x39"
  using uns_range [of c "0x30" "10"] by (auto simp: isdigit_def)

lemma islower_iff: "c_int c \<Longrightarrow> islower c \<longleftrightarrow> 0x61 \<le> c \<and> c \<le> 0x7a"
  using uns_range [of c "0x61" "26"] by (auto simp: islower_def)

lemma isupper_iff: "c_int c \<Longrightarrow> isupper c \<longleftrightarrow> 0x41 \<le> c \<and> c \<le> 0x5a"
  using uns_range [of c "0x41" "26"] by (auto simp: isupper_def)

lemma isgraph_iff: "c_int c \<Longrightarrow> isgraph c \<longleftrightarrow> 0x21 \<le> c \<and> c \<le> 0x7e"
  using uns_range [of c "0x21" "0x5e"] by (auto simp: isgraph_def)

lemma isprint_iff: "c_int c \<Longrightarrow> isprint c \<longleftrightarrow> 0x20 \<le> c \<and> c \<le> 0x7e"
  using uns_range [of c "0x20" "0x5f"] by (auto simp: isprint_def)

lemma isspace_iff: "c_int c \<Longrightarrow> isspace c \<longleftrightarrow> c = 0x20 \<or> 9 \<le> c \<and> c \<le> 13"
  using uns_range [of c "9" "5"] by (auto simp: isspace_def)

lemma iscntrl_iff: "c_int c \<Longrightarrow> iscntrl c \<longleftrightarrow> 0 \<le> c \<and> c \<le> 0x1f \<or> c = 0x7f"
  using uns_range [of c "0" "0x20"] by (auto simp: iscntrl_def)

text \<open>Setting bit 5 folds the two cases of the alphabet together.\<close>

lemma or_32_eq: "(c :: int) OR 32 = (if bit c 5 then c else c + 32)"
proof -
  have "c OR 32 = set_bit 5 c" by (simp add: set_bit_eq_or push_bit_eq_mult)
  then show ?thesis by (simp add: set_bit_eq)
qed

lemma uns_or_32: "uns c OR 32 = uns (c OR 32)"
  by (simp add: uns_def of_int_or_eq)

lemma bit5_iff: "bit (c :: int) 5 \<longleftrightarrow> 32 \<le> c mod 64"
proof -
  have eq: "c mod 64 = 32 * (c div 32 mod 2) + c mod 32"
    using mod_mult2_eq' [of c 32 2] by simp
  have le: "c mod 32 < 32" "0 \<le> c mod 32" by simp_all
  have "bit c 5 \<longleftrightarrow> c div 32 mod 2 = 1" by (simp add: bit_iff_odd odd_iff_mod_2_eq_one)
  moreover have "c div 32 mod 2 = 0 \<or> c div 32 mod 2 = 1" by (rule mod2_eq_if [THEN ssubst]) simp
  ultimately show ?thesis using eq le by linarith
qed

lemma c_int_or_32: "c_int c \<Longrightarrow> c_int (c OR 32)"
proof -
  assume c: "c_int c"
  have "c + 32 < 2 ^ 31" if "\<not> bit c 5"
  proof -
    have "c mod 64 < 32" using that by (simp add: bit5_iff)
    moreover have "c div 64 < 33554432" using c by (simp add: c_int_def) presburger
    moreover have "c = 64 * (c div 64) + c mod 64" by simp
    ultimately have "c + 32 < 2147483648" by linarith
    then show ?thesis by simp
  qed
  with c show ?thesis by (auto simp: or_32_eq c_int_def)
qed

lemma or_32_range:
  assumes "c_int c" "0x61 \<le> lo" "lo < hi" "hi \<le> 0x7a"
  shows "(lo \<le> c OR 32 \<and> c OR 32 \<le> hi) \<longleftrightarrow> (lo \<le> c \<and> c \<le> hi) \<or> (lo \<le> c + 32 \<and> c + 32 \<le> hi)"
proof -
  have "0x60 \<le> c \<Longrightarrow> c \<le> 0x7f \<Longrightarrow> 32 \<le> c mod 64" and "0x40 \<le> c \<Longrightarrow> c \<le> 0x5f \<Longrightarrow> \<not> 32 \<le> c mod 64"
    by presburger+
  with assms show ?thesis by (auto simp: or_32_eq bit5_iff)
qed

lemma isalpha_iff: "c_int c \<Longrightarrow> isalpha c \<longleftrightarrow> 0x41 \<le> c \<and> c \<le> 0x5a \<or> 0x61 \<le> c \<and> c \<le> 0x7a"
  using uns_range [of "c OR 32" "0x61" 26] or_32_range [of c "0x61" "0x7a"]
  by (auto simp: isalpha_def uns_or_32 c_int_or_32)

lemma isxdigit_iff: "c_int c \<Longrightarrow> isxdigit c \<longleftrightarrow>
    0x30 \<le> c \<and> c \<le> 0x39 \<or> 0x41 \<le> c \<and> c \<le> 0x46 \<or> 0x61 \<le> c \<and> c \<le> 0x66"
  using uns_range [of "c OR 32" "0x61" 6] or_32_range [of c "0x61" "0x66"]
  by (auto simp: isxdigit_def isdigit_iff uns_or_32 c_int_or_32)

lemmas ctype_iffs = isdigit_iff islower_iff isupper_iff isgraph_iff isprint_iff isspace_iff
  iscntrl_iff isalpha_iff isxdigit_iff

subsection \<open>Case conversion\<close>

lemma tolower_eq: "c_int c \<Longrightarrow> tolower c = (if 0x41 \<le> c \<and> c \<le> 0x5a then c + 32 else c)"
proof -
  assume c: "c_int c"
  have "0x41 \<le> c \<Longrightarrow> c \<le> 0x5a \<Longrightarrow> \<not> 32 \<le> c mod 64" by presburger
  with c show ?thesis by (auto simp: tolower_def isupper_iff or_32_eq bit5_iff)
qed

lemma toupper_eq: "c_int c \<Longrightarrow> toupper c = (if 0x61 \<le> c \<and> c \<le> 0x7a then c - 32 else c)"
proof -
  assume c: "c_int c"
  have "c AND 0x5f = c - 32" if "0x61 \<le> c" "c \<le> 0x7a"
  proof -
    from that have "c \<in> set [0x61..0x7a]" by (simp only: set_upto atLeastAtMost_iff)
    moreover have "\<forall>c \<in> set [0x61..0x7a]. c AND 0x5f = c - (32 :: int)" by code_simp
    ultimately show ?thesis by blast
  qed
  with c show ?thesis by (auto simp: toupper_def islower_iff)
qed

lemma c_int_byte [simp]: "c_int (uint (b :: u8))"
proof -
  have "uint b < 256" using unsigned_less [of b, where ?'a = int] by simp
  moreover have "0 \<le> uint b" by simp
  ultimately have "- 2147483648 \<le> uint b" "uint b < 2147483648" by linarith+
  then show ?thesis by (simp add: c_int_def)
qed

end
