(* ===== verification/CString.thy ===== *)
theory CString
  imports Bytes Ctype
begin

text \<open>
  \<^verbatim>\<open>src/string.c\<close>: the string and memory functions, the constant-time comparisons and the
  \<open>_FORTIFY_SOURCE\<close> entry points, over the byte-addressed memory of the prelude.

  A function that writes returns the new memory beside its result.  The word-at-a-time
  loops keep the alignment test, the 8-byte little-endian access and the \<open>HASZERO\<close> test
  of the source.  \<^verbatim>\<open>rep movsb\<close> and \<^verbatim>\<open>rep stosb\<close> are byte loops upwards with a count.
\<close>

subsection \<open>Words in memory\<close>

definition load_word :: "mem \<Rightarrow> u64 \<Rightarrow> u64 option" where
  "load_word m a = do {
     b0 \<leftarrow> load m a; b1 \<leftarrow> load m (a + 1); b2 \<leftarrow> load m (a + 2); b3 \<leftarrow> load m (a + 3);
     b4 \<leftarrow> load m (a + 4); b5 \<leftarrow> load m (a + 5); b6 \<leftarrow> load m (a + 6); b7 \<leftarrow> load m (a + 7);
     Some (le_word [b0, b1, b2, b3, b4, b5, b6, b7]) }"

fun store_bytes :: "mem \<Rightarrow> u64 \<Rightarrow> u8 list \<Rightarrow> mem option" where
  "store_bytes m a [] = Some m"
| "store_bytes m a (b # bs) = do { m' \<leftarrow> store m a b; store_bytes m' (a + 1) bs }"

definition store_word :: "mem \<Rightarrow> u64 \<Rightarrow> u64 \<Rightarrow> mem option" where
  "store_word m a w = store_bytes m a (le_bytes w)"

definition ONES :: u64 where
  "ONES = - 1 div 255"

definition HIGHS :: u64 where
  "HIGHS = ONES * (255 div 2 + 1)"

definition HASZERO :: "u64 \<Rightarrow> bool" where
  "HASZERO x \<longleftrightarrow> (x - ONES) AND NOT x AND HIGHS \<noteq> 0"

subsection \<open>Memory blocks\<close>

definition memcpy :: "mem \<Rightarrow> u64 \<Rightarrow> u64 \<Rightarrow> u64 \<Rightarrow> (mem \<times> u64) option" where
  "memcpy m d s n = do {
     (m, _, _, _) \<leftarrow> loop (\<lambda>(m, d, s, n). Some (n \<noteq> 0))
       (\<lambda>(m, d, s, n). do { b \<leftarrow> load m s; m \<leftarrow> store m d b; Some (m, d + 1, s + 1, n - 1) })
       (m, d, s, n);
     Some (m, d) }"

definition memmove :: "mem \<Rightarrow> u64 \<Rightarrow> u64 \<Rightarrow> u64 \<Rightarrow> (mem \<times> u64) option" where
  "memmove m d s n =
     (if d - s \<ge> n then memcpy m d s n
      else do {
        let byte = (\<lambda>(m, dd, ss, n). do {
              b \<leftarrow> load m (ss - 1); m \<leftarrow> store m (dd - 1) b; Some (m, dd - 1, ss - 1, n - 1) });
        (m, dd, ss, n) \<leftarrow> loop (\<lambda>(m, dd, ss, n). Some (n \<ge> 8 \<and> dd mod 8 \<noteq> 0)) byte
          (m, d + n, s + n, n);
        (m, dd, ss, n) \<leftarrow> loop (\<lambda>(m, dd, ss, n). Some (n \<ge> 8))
          (\<lambda>(m, dd, ss, n). do {
             w \<leftarrow> load_word m (ss - 8); m \<leftarrow> store_word m (dd - 8) w;
             Some (m, dd - 8, ss - 8, n - 8) }) (m, dd, ss, n);
        (m, dd, ss, n) \<leftarrow> loop (\<lambda>(m, dd, ss, n). Some (n \<noteq> 0)) byte (m, dd, ss, n);
        Some (m, d) })"

definition memset :: "mem \<Rightarrow> u64 \<Rightarrow> int \<Rightarrow> u64 \<Rightarrow> (mem \<times> u64) option" where
  "memset m d c n = do {
     (m, _, _) \<leftarrow> loop (\<lambda>(m, d, n). Some (n \<noteq> 0))
       (\<lambda>(m, d, n). do { m \<leftarrow> store m d (word_of_int c); Some (m, d + 1, n - 1) }) (m, d, n);
     Some (m, d) }"

definition memcmp :: "mem \<Rightarrow> u64 \<Rightarrow> u64 \<Rightarrow> u64 \<Rightarrow> int option" where
  "memcmp m a b n = do {
     (l, r, n) \<leftarrow> loop
       (\<lambda>(l, r, n). if n = 0 then Some False else do { x \<leftarrow> load m l; y \<leftarrow> load m r; Some (x = y) })
       (\<lambda>(l, r, n). Some (l + 1, r + 1, n - 1)) (a, b, n);
     if n = 0 then Some 0 else do { x \<leftarrow> load m l; y \<leftarrow> load m r; Some (uint x - uint y) } }"

definition bcmp :: "mem \<Rightarrow> u64 \<Rightarrow> u64 \<Rightarrow> u64 \<Rightarrow> int option" where
  "bcmp m a b n = memcmp m a b n"

definition bcopy :: "mem \<Rightarrow> u64 \<Rightarrow> u64 \<Rightarrow> u64 \<Rightarrow> mem option" where
  "bcopy m s d n = map_option fst (memmove m d s n)"

definition bzero :: "mem \<Rightarrow> u64 \<Rightarrow> u64 \<Rightarrow> mem option" where
  "bzero m d n = map_option fst (memset m d 0 n)"

definition memchr :: "mem \<Rightarrow> u64 \<Rightarrow> int \<Rightarrow> u64 \<Rightarrow> u64 option" where
  "memchr m src c n = do {
     let c = (word_of_int c :: u8);
     (s, n) \<leftarrow> loop
       (\<lambda>(s, n). if s AND 7 \<noteq> 0 \<and> n \<noteq> 0 then do { b \<leftarrow> load m s; Some (b \<noteq> c) } else Some False)
       (\<lambda>(s, n). Some (s + 1, n - 1)) (src, n);
     go \<leftarrow> (if n \<noteq> 0 then do { b \<leftarrow> load m s; Some (b \<noteq> c) } else Some False);
     (s, n) \<leftarrow> (if go then do {
         let k = ONES * ucast c;
         loop (\<lambda>(w, n). if n \<ge> 8 then do { x \<leftarrow> load_word m w; Some (\<not> HASZERO (x XOR k)) }
                        else Some False)
           (\<lambda>(w, n). Some (w + 8, n - 8)) (s, n) }
       else Some (s, n));
     (s, n) \<leftarrow> loop (\<lambda>(s, n). if n \<noteq> 0 then do { b \<leftarrow> load m s; Some (b \<noteq> c) } else Some False)
       (\<lambda>(s, n). Some (s + 1, n - 1)) (s, n);
     Some (if n \<noteq> 0 then s else 0) }"

fun memrchr_loop :: "mem \<Rightarrow> u64 \<Rightarrow> u8 \<Rightarrow> nat \<Rightarrow> u64 option" where
  "memrchr_loop m s c 0 = Some 0"
| "memrchr_loop m s c (Suc n) = do {
     b \<leftarrow> load m (s + of_nat n);
     if b = c then Some (s + of_nat n) else memrchr_loop m s c n }"

definition memrchr :: "mem \<Rightarrow> u64 \<Rightarrow> int \<Rightarrow> u64 \<Rightarrow> u64 option" where
  "memrchr m s c n = memrchr_loop m s (word_of_int c) (unat n)"

definition mempcpy :: "mem \<Rightarrow> u64 \<Rightarrow> u64 \<Rightarrow> u64 \<Rightarrow> (mem \<times> u64) option" where
  "mempcpy m d s n = do { (m, r) \<leftarrow> memcpy m d s n; Some (m, r + n) }"

fun memccpy_loop :: "mem \<Rightarrow> u64 \<Rightarrow> u64 \<Rightarrow> u8 \<Rightarrow> nat \<Rightarrow> (mem \<times> u64) option" where
  "memccpy_loop m d s c 0 = Some (m, 0)"
| "memccpy_loop m d s c (Suc n) = do {
     b \<leftarrow> load m s; m \<leftarrow> store m d b;
     if b = c then Some (m, d + 1) else memccpy_loop m (d + 1) (s + 1) c n }"

definition memccpy :: "mem \<Rightarrow> u64 \<Rightarrow> u64 \<Rightarrow> int \<Rightarrow> u64 \<Rightarrow> (mem \<times> u64) option" where
  "memccpy m d s c n = memccpy_loop m d s (word_of_int c) (unat n)"

partial_function (option) memmem_loop :: "mem \<Rightarrow> u64 \<Rightarrow> u64 \<Rightarrow> u64 \<Rightarrow> u64 \<Rightarrow> u64 option" where
  "memmem_loop m h end n l =
     (if h < end then do {
        c \<leftarrow> load m n;
        h' \<leftarrow> memchr m h (uint c) (end - h);
        if h' = 0 then Some 0
        else do {
          r \<leftarrow> memcmp m h' n l;
          if r = 0 then Some h' else memmem_loop m (h' + 1) end n l } }
      else Some 0)"

declare memmem_loop.simps [code]

definition memmem :: "mem \<Rightarrow> u64 \<Rightarrow> u64 \<Rightarrow> u64 \<Rightarrow> u64 \<Rightarrow> u64 option" where
  "memmem m h k n l =
     (if l = 0 then Some h else if k < l then Some 0
      else memmem_loop m h (h + (k - l) + 1) n l)"

subsection \<open>Strings\<close>

definition strlen :: "mem \<Rightarrow> u64 \<Rightarrow> u64 option" where
  "strlen m a = do {
     s \<leftarrow> loop (\<lambda>s. if s mod 8 \<noteq> 0 then do { b \<leftarrow> load m s; Some (b \<noteq> 0) } else Some False)
       (\<lambda>s. Some (s + 1)) a;
     if s mod 8 \<noteq> 0 then Some (s - a)
     else do {
       w \<leftarrow> loop (\<lambda>w. do { x \<leftarrow> load_word m w; Some (\<not> HASZERO x) }) (\<lambda>w. Some (w + 8)) s;
       s \<leftarrow> loop (\<lambda>s. do { b \<leftarrow> load m s; Some (b \<noteq> 0) }) (\<lambda>s. Some (s + 1)) w;
       Some (s - a) } }"

definition strnlen :: "mem \<Rightarrow> u64 \<Rightarrow> u64 \<Rightarrow> u64 option" where
  "strnlen m s n = do { p \<leftarrow> memchr m s 0 n; Some (if p \<noteq> 0 then p - s else n) }"

definition stpcpy :: "mem \<Rightarrow> u64 \<Rightarrow> u64 \<Rightarrow> (mem \<times> u64) option" where
  "stpcpy m d s = do { n \<leftarrow> strlen m s; (m, _) \<leftarrow> memcpy m d s (n + 1); Some (m, d + n) }"

definition strcpy :: "mem \<Rightarrow> u64 \<Rightarrow> u64 \<Rightarrow> (mem \<times> u64) option" where
  "strcpy m d s = do { (m, _) \<leftarrow> stpcpy m d s; Some (m, d) }"

definition stpncpy :: "mem \<Rightarrow> u64 \<Rightarrow> u64 \<Rightarrow> u64 \<Rightarrow> (mem \<times> u64) option" where
  "stpncpy m d s n = do {
     l \<leftarrow> strnlen m s n;
     (m, _) \<leftarrow> memcpy m d s l;
     (m, _) \<leftarrow> memset m (d + l) 0 (n - l);
     Some (m, d + l) }"

definition strncpy :: "mem \<Rightarrow> u64 \<Rightarrow> u64 \<Rightarrow> u64 \<Rightarrow> (mem \<times> u64) option" where
  "strncpy m d s n = do { (m, _) \<leftarrow> stpncpy m d s n; Some (m, d) }"

definition strcat :: "mem \<Rightarrow> u64 \<Rightarrow> u64 \<Rightarrow> (mem \<times> u64) option" where
  "strcat m d s = do { l \<leftarrow> strlen m d; (m, _) \<leftarrow> strcpy m (d + l) s; Some (m, d) }"

definition strncat :: "mem \<Rightarrow> u64 \<Rightarrow> u64 \<Rightarrow> u64 \<Rightarrow> (mem \<times> u64) option" where
  "strncat m a s n = do {
     k \<leftarrow> strlen m a;
     let d = a + k;
     l \<leftarrow> strnlen m s n;
     (m, _) \<leftarrow> memcpy m d s l;
     m \<leftarrow> store m (d + l) 0;
     Some (m, a) }"

definition strlcpy :: "mem \<Rightarrow> u64 \<Rightarrow> u64 \<Rightarrow> u64 \<Rightarrow> (mem \<times> u64) option" where
  "strlcpy m d s n = do {
     l \<leftarrow> strlen m s;
     if n \<noteq> 0 then do {
       let c = (if l < n - 1 then l else n - 1);
       (m, _) \<leftarrow> memcpy m d s c;
       m \<leftarrow> store m (d + c) 0;
       Some (m, l) }
     else Some (m, l) }"

definition strlcat :: "mem \<Rightarrow> u64 \<Rightarrow> u64 \<Rightarrow> u64 \<Rightarrow> (mem \<times> u64) option" where
  "strlcat m d s n = do {
     l \<leftarrow> strnlen m d n;
     if l = n then do { k \<leftarrow> strlen m s; Some (m, l + k) }
     else do { (m, k) \<leftarrow> strlcpy m (d + l) s (n - l); Some (m, l + k) } }"

definition strcmp :: "mem \<Rightarrow> u64 \<Rightarrow> u64 \<Rightarrow> int option" where
  "strcmp m l r = do {
     (l, r) \<leftarrow> loop (\<lambda>(l, r). do { x \<leftarrow> load m l; y \<leftarrow> load m r; Some (x = y \<and> x \<noteq> 0) })
       (\<lambda>(l, r). Some (l + 1, r + 1)) (l, r);
     x \<leftarrow> load m l; y \<leftarrow> load m r; Some (uint x - uint y) }"

definition strncmp :: "mem \<Rightarrow> u64 \<Rightarrow> u64 \<Rightarrow> u64 \<Rightarrow> int option" where
  "strncmp m l r n =
     (if n = 0 then Some 0
      else do {
        (l, r, n) \<leftarrow> loop (\<lambda>(l, r, n). do {
              x \<leftarrow> load m l;
              if x = 0 then Some False
              else do { y \<leftarrow> load m r; Some (y \<noteq> 0 \<and> n \<noteq> 0 \<and> x = y) } })
          (\<lambda>(l, r, n). Some (l + 1, r + 1, n - 1)) (l, r, n - 1);
        x \<leftarrow> load m l; y \<leftarrow> load m r; Some (uint x - uint y) })"

definition strcasecmp :: "mem \<Rightarrow> u64 \<Rightarrow> u64 \<Rightarrow> int option" where
  "strcasecmp m l r = do {
     (a, b) \<leftarrow> loop (\<lambda>(a, b). do {
           x \<leftarrow> load m a;
           if x = 0 then Some False
           else do { y \<leftarrow> load m b;
             Some (y \<noteq> 0 \<and> (x = y \<or> tolower (uint x) = tolower (uint y))) } })
       (\<lambda>(a, b). Some (a + 1, b + 1)) (l, r);
     x \<leftarrow> load m a; y \<leftarrow> load m b; Some (tolower (uint x) - tolower (uint y)) }"

definition strncasecmp :: "mem \<Rightarrow> u64 \<Rightarrow> u64 \<Rightarrow> u64 \<Rightarrow> int option" where
  "strncasecmp m l r n =
     (if n = 0 then Some 0
      else do {
        (a, b, n) \<leftarrow> loop (\<lambda>(a, b, n). do {
              x \<leftarrow> load m a;
              if x = 0 then Some False
              else do { y \<leftarrow> load m b;
                Some (y \<noteq> 0 \<and> n \<noteq> 0 \<and> (x = y \<or> tolower (uint x) = tolower (uint y))) } })
          (\<lambda>(a, b, n). Some (a + 1, b + 1, n - 1)) (l, r, n - 1);
        x \<leftarrow> load m a; y \<leftarrow> load m b; Some (tolower (uint x) - tolower (uint y)) })"

definition strcoll :: "mem \<Rightarrow> u64 \<Rightarrow> u64 \<Rightarrow> int option" where
  "strcoll m l r = strcmp m l r"

definition strxfrm :: "mem \<Rightarrow> u64 \<Rightarrow> u64 \<Rightarrow> u64 \<Rightarrow> (mem \<times> u64) option" where
  "strxfrm m d s n = do {
     l \<leftarrow> strlen m s;
     if n > l then do { (m, _) \<leftarrow> strcpy m d s; Some (m, l) } else Some (m, l) }"

definition strchrnul :: "mem \<Rightarrow> u64 \<Rightarrow> int \<Rightarrow> u64 option" where
  "strchrnul m s c = do {
     let c = (word_of_int c :: u8);
     if c = 0 then do { n \<leftarrow> strlen m s; Some (s + n) }
     else do {
       s \<leftarrow> loop
         (\<lambda>s. if s mod 8 \<noteq> 0 then do { b \<leftarrow> load m s; Some (\<not> (b = 0 \<or> b = c)) } else Some False)
         (\<lambda>s. Some (s + 1)) s;
       if s mod 8 \<noteq> 0 then Some s
       else do {
         let k = ONES * ucast c;
         w \<leftarrow> loop (\<lambda>w. do { x \<leftarrow> load_word m w; Some (\<not> HASZERO x \<and> \<not> HASZERO (x XOR k)) })
           (\<lambda>w. Some (w + 8)) s;
         loop (\<lambda>s. do { b \<leftarrow> load m s; Some (b \<noteq> 0 \<and> b \<noteq> c) }) (\<lambda>s. Some (s + 1)) w } } }"

definition strchr :: "mem \<Rightarrow> u64 \<Rightarrow> int \<Rightarrow> u64 option" where
  "strchr m s c = do {
     r \<leftarrow> strchrnul m s c;
     b \<leftarrow> load m r;
     Some (if b = word_of_int c then r else 0) }"

definition index :: "mem \<Rightarrow> u64 \<Rightarrow> int \<Rightarrow> u64 option" where
  "index m s c = strchr m s c"

definition strrchr :: "mem \<Rightarrow> u64 \<Rightarrow> int \<Rightarrow> u64 option" where
  "strrchr m s c = do { l \<leftarrow> strlen m s; memrchr m s c (l + 1) }"

definition rindex :: "mem \<Rightarrow> u64 \<Rightarrow> int \<Rightarrow> u64 option" where
  "rindex m s c = strrchr m s c"

text \<open>The byte set of \<open>strspn\<close> and \<open>strcspn\<close>: 256 bits in four words.\<close>

definition byteset_add :: "u64 list \<Rightarrow> u8 \<Rightarrow> u64 list" where
  "byteset_add bs b = bs[unat b div 64 := bs ! (unat b div 64) OR push_bit (unat b mod 64) 1]"

definition byteset_has :: "u64 list \<Rightarrow> u8 \<Rightarrow> bool" where
  "byteset_has bs b \<longleftrightarrow> bs ! (unat b div 64) AND push_bit (unat b mod 64) 1 \<noteq> 0"

definition byteset_of :: "mem \<Rightarrow> u64 \<Rightarrow> u64 list option" where
  "byteset_of m c = do {
     (_, bs) \<leftarrow> loop (\<lambda>(c, bs). do { b \<leftarrow> load m c; Some (b \<noteq> 0) })
       (\<lambda>(c, bs). do { b \<leftarrow> load m c; Some (c + 1, byteset_add bs b) }) (c, [0, 0, 0, 0]);
     Some bs }"

definition strspn :: "mem \<Rightarrow> u64 \<Rightarrow> u64 \<Rightarrow> u64 option" where
  "strspn m a c = do {
     c0 \<leftarrow> load m c;
     if c0 = 0 then Some 0
     else do {
       c1 \<leftarrow> load m (c + 1);
       if c1 = 0 then do {
         s \<leftarrow> loop (\<lambda>s. do { b \<leftarrow> load m s; Some (b = c0) }) (\<lambda>s. Some (s + 1)) a;
         Some (s - a) }
       else do {
         bs \<leftarrow> byteset_of m c;
         s \<leftarrow> loop (\<lambda>s. do { b \<leftarrow> load m s; Some (b \<noteq> 0 \<and> byteset_has bs b) })
           (\<lambda>s. Some (s + 1)) a;
         Some (s - a) } } }"

definition strcspn :: "mem \<Rightarrow> u64 \<Rightarrow> u64 \<Rightarrow> u64 option" where
  "strcspn m a c = do {
     c0 \<leftarrow> load m c;
     single \<leftarrow> (if c0 = 0 then Some True else do { c1 \<leftarrow> load m (c + 1); Some (c1 = 0) });
     if single then do { e \<leftarrow> strchrnul m a (uint c0); Some (e - a) }
     else do {
       bs \<leftarrow> byteset_of m c;
       s \<leftarrow> loop (\<lambda>s. do { b \<leftarrow> load m s; Some (b \<noteq> 0 \<and> \<not> byteset_has bs b) })
         (\<lambda>s. Some (s + 1)) a;
       Some (s - a) } }"

definition strpbrk :: "mem \<Rightarrow> u64 \<Rightarrow> u64 \<Rightarrow> u64 option" where
  "strpbrk m s b = do {
     k \<leftarrow> strcspn m s b;
     x \<leftarrow> load m (s + k);
     Some (if x \<noteq> 0 then s + k else 0) }"

definition strstr :: "mem \<Rightarrow> u64 \<Rightarrow> u64 \<Rightarrow> u64 option" where
  "strstr m h n = do {
     l \<leftarrow> strlen m n;
     if l = 0 then Some h else do { k \<leftarrow> strlen m h; memmem m h k n l } }"

definition strcasestr :: "mem \<Rightarrow> u64 \<Rightarrow> u64 \<Rightarrow> u64 option" where
  "strcasestr m h n = do {
     l \<leftarrow> strlen m n;
     h \<leftarrow> loop (\<lambda>h. do {
           b \<leftarrow> load m h;
           if b = 0 then Some False else do { r \<leftarrow> strncasecmp m h n l; Some (r \<noteq> 0) } })
       (\<lambda>h. Some (h + 1)) h;
     b \<leftarrow> load m h;
     Some (if b \<noteq> 0 then h else if l \<noteq> 0 then 0 else h) }"

text \<open>The tokenisers: \<open>p\<close> is the saved position, in and out (\<open>strtok\<close> keeps it per thread).\<close>

definition strtok_r :: "mem \<Rightarrow> u64 \<Rightarrow> u64 \<Rightarrow> u64 \<Rightarrow> (mem \<times> u64 \<times> u64) option" where
  "strtok_r m s sep p = do {
     let s = (if s = 0 then p else s);
     if s = 0 then Some (m, 0, p)
     else do {
       k \<leftarrow> strspn m s sep;
       let s = s + k;
       b \<leftarrow> load m s;
       if b = 0 then Some (m, 0, 0)
       else do {
         k \<leftarrow> strcspn m s sep;
         let p = s + k;
         b \<leftarrow> load m p;
         if b \<noteq> 0 then do { m \<leftarrow> store m p 0; Some (m, s, p + 1) }
         else Some (m, s, 0) } } }"

definition strtok :: "mem \<Rightarrow> u64 \<Rightarrow> u64 \<Rightarrow> u64 \<Rightarrow> (mem \<times> u64 \<times> u64) option" where
  "strtok m s sep saved = strtok_r m s sep saved"

definition strsep :: "mem \<Rightarrow> u64 \<Rightarrow> u64 \<Rightarrow> (mem \<times> u64 \<times> u64) option" where
  "strsep m str sep =
     (if str = 0 then Some (m, 0, str)
      else do {
        k \<leftarrow> strcspn m str sep;
        let e = str + k;
        b \<leftarrow> load m e;
        if b \<noteq> 0 then do { m \<leftarrow> store m e 0; Some (m, str, e + 1) }
        else Some (m, str, 0) })"

text \<open>\<open>malloc\<close> is the allocator's entry point: memory and address, 0 when it fails.\<close>

definition strdup :: "(mem \<Rightarrow> u64 \<Rightarrow> mem \<times> u64) \<Rightarrow> mem \<Rightarrow> u64 \<Rightarrow> (mem \<times> u64) option" where
  "strdup malloc m s = do {
     l \<leftarrow> strlen m s;
     let (m, d) = malloc m (l + 1);
     if d \<noteq> 0 then memcpy m d s (l + 1) else Some (m, 0) }"

definition strndup :: "(mem \<Rightarrow> u64 \<Rightarrow> mem \<times> u64) \<Rightarrow> mem \<Rightarrow> u64 \<Rightarrow> u64 \<Rightarrow> (mem \<times> u64) option" where
  "strndup malloc m s n = do {
     l \<leftarrow> strnlen m s n;
     let (m, d) = malloc m (l + 1);
     if d = 0 then Some (m, 0)
     else do { (m, _) \<leftarrow> memcpy m d s l; m \<leftarrow> store m (d + l) 0; Some (m, d) } }"

definition strverscmp :: "mem \<Rightarrow> u64 \<Rightarrow> u64 \<Rightarrow> int option" where
  "strverscmp m l r = do {
     (i, dp, z) \<leftarrow> loop
       (\<lambda>(i, dp, z). do { x \<leftarrow> load m (l + i); y \<leftarrow> load m (r + i); Some (x = y \<and> x \<noteq> 0) })
       (\<lambda>(i, dp, z). do {
          c \<leftarrow> load m (l + i);
          Some (if \<not> isdigit (uint c) then (i + 1, i + 1, True)
                else if c \<noteq> 0x30 then (i + 1, dp, False) else (i + 1, dp, z)) })
       (0, 0, True);
     x \<leftarrow> load m (l + i); y \<leftarrow> load m (r + i);
     if x = y then Some 0
     else do {
       a \<leftarrow> load m (l + dp);
       b \<leftarrow> (if uns (uint a - 0x31) < 9 then load m (r + dp) else Some 0);
       if uns (uint a - 0x31) < 9 \<and> uns (uint b - 0x31) < 9 then do {
         j \<leftarrow> loop (\<lambda>j. do {
               c \<leftarrow> load m (l + j);
               if isdigit (uint c) then do { d \<leftarrow> load m (r + j); Some (isdigit (uint d)) }
               else Some False })
           (\<lambda>j. Some (j + 1)) i;
         c \<leftarrow> load m (l + j);
         if isdigit (uint c) then Some 1
         else do {
           d \<leftarrow> load m (r + j);
           Some (if isdigit (uint d) then - 1 else uint x - uint y) } }
       else Some (if z \<and> dp < i \<and> (isdigit (uint x) \<or> isdigit (uint y))
                  then uint (x - 0x30) - uint (y - 0x30) else uint x - uint y) } }"

subsection \<open>Clearing and constant-time comparison\<close>

definition explicit_bzero :: "mem \<Rightarrow> u64 \<Rightarrow> u64 \<Rightarrow> mem option" where
  "explicit_bzero m d n = map_option fst (memset m d 0 n)"

fun timingsafe_bcmp_loop :: "mem \<Rightarrow> u64 \<Rightarrow> u64 \<Rightarrow> u8 \<Rightarrow> nat \<Rightarrow> nat \<Rightarrow> u8 option" where
  "timingsafe_bcmp_loop m p q r i 0 = Some r"
| "timingsafe_bcmp_loop m p q r i (Suc k) = do {
     x \<leftarrow> load m (p + of_nat i); y \<leftarrow> load m (q + of_nat i);
     timingsafe_bcmp_loop m p q (r OR (x XOR y)) (Suc i) k }"

definition timingsafe_bcmp :: "mem \<Rightarrow> u64 \<Rightarrow> u64 \<Rightarrow> u64 \<Rightarrow> int option" where
  "timingsafe_bcmp m a b n = do {
     r \<leftarrow> timingsafe_bcmp_loop m a b 0 0 (unat n);
     Some (if r \<noteq> 0 then 1 else 0) }"

fun timingsafe_memcmp_loop ::
    "mem \<Rightarrow> u64 \<Rightarrow> u64 \<Rightarrow> int \<Rightarrow> int \<Rightarrow> nat \<Rightarrow> nat \<Rightarrow> int option" where
  "timingsafe_memcmp_loop m p q res dn i 0 = Some res"
| "timingsafe_memcmp_loop m p q res dn i (Suc k) = do {
     x \<leftarrow> load m (p + of_nat i); y \<leftarrow> load m (q + of_nat i);
     let lt = drop_bit 8 (uint x - uint y);
     let gt = drop_bit 8 (uint y - uint x);
     let cmp = lt - gt;
     timingsafe_memcmp_loop m p q (res OR (cmp AND NOT dn)) (dn OR (lt OR gt)) (Suc i) k }"

definition timingsafe_memcmp :: "mem \<Rightarrow> u64 \<Rightarrow> u64 \<Rightarrow> u64 \<Rightarrow> int option" where
  "timingsafe_memcmp m a b n = timingsafe_memcmp_loop m a b 0 0 0 (unat n)"

subsection \<open>The fortified entry points\<close>

text \<open>\<open>dl\<close> is the size the compiler knows for the destination; too small a one aborts.\<close>

definition chk :: "bool \<Rightarrow> 'a option \<Rightarrow> 'a outcome option" where
  "chk bad r = (if bad then Some Abort else map_option Ret r)"

definition memcpy_chk where
  "memcpy_chk m d s n dl = chk (n > dl) (memcpy m d s n)"

definition memmove_chk where
  "memmove_chk m d s n dl = chk (n > dl) (memmove m d s n)"

definition memset_chk where
  "memset_chk m d c n dl = chk (n > dl) (memset m d c n)"

definition mempcpy_chk where
  "mempcpy_chk m d s n dl = chk (n > dl) (mempcpy m d s n)"

definition strcpy_chk :: "mem \<Rightarrow> u64 \<Rightarrow> u64 \<Rightarrow> u64 \<Rightarrow> (mem \<times> u64) outcome option" where
  "strcpy_chk m d s dl = do {
     l \<leftarrow> strlen m s;
     let n = l + 1;
     chk (n > dl) (memcpy m d s n) }"

definition stpcpy_chk :: "mem \<Rightarrow> u64 \<Rightarrow> u64 \<Rightarrow> u64 \<Rightarrow> (mem \<times> u64) outcome option" where
  "stpcpy_chk m d s dl = do {
     n \<leftarrow> strlen m s;
     chk (n + 1 > dl) (do { (m, _) \<leftarrow> memcpy m d s (n + 1); Some (m, d + n) }) }"

definition strncpy_chk where
  "strncpy_chk m d s n dl = chk (n > dl) (strncpy m d s n)"

definition stpncpy_chk where
  "stpncpy_chk m d s n dl = chk (n > dl) (stpncpy m d s n)"

definition strcat_chk :: "mem \<Rightarrow> u64 \<Rightarrow> u64 \<Rightarrow> u64 \<Rightarrow> (mem \<times> u64) outcome option" where
  "strcat_chk m d s dl = do {
     a \<leftarrow> strnlen m d dl;
     b \<leftarrow> strlen m s;
     chk (a = dl \<or> a + b + 1 > dl)
       (do { (m, _) \<leftarrow> memcpy m (d + a) s (b + 1); Some (m, d) }) }"

definition strncat_chk :: "mem \<Rightarrow> u64 \<Rightarrow> u64 \<Rightarrow> u64 \<Rightarrow> u64 \<Rightarrow> (mem \<times> u64) outcome option" where
  "strncat_chk m d s n dl = do {
     a \<leftarrow> strnlen m d dl;
     b \<leftarrow> strnlen m s n;
     chk (a = dl \<or> a + b + 1 > dl)
       (do { (m, _) \<leftarrow> memcpy m (d + a) s b; m \<leftarrow> store m (d + (a + b)) 0; Some (m, d) }) }"

definition strlcpy_chk where
  "strlcpy_chk m d s n dl = chk (n > dl) (strlcpy m d s n)"

definition strlcat_chk where
  "strlcat_chk m d s n dl = chk (n > dl) (strlcat m d s n)"

subsection \<open>Copying\<close>

text \<open>
  The memory after bytes \<open>lo\<close> to \<open>hi\<close> of the block at \<open>s\<close> have been copied to \<open>d\<close>, all
  at once.
\<close>

definition copied :: "mem \<Rightarrow> u64 \<Rightarrow> u64 \<Rightarrow> nat \<Rightarrow> nat \<Rightarrow> mem" where
  "copied m d s lo hi =
     (\<lambda>a. if lo \<le> unat (a - d) \<and> unat (a - d) < hi then m (s + (a - d)) else m a)"

lemma copied_empty [simp]: "copied m d s k k = m"
  by (rule ext) (auto simp: copied_def)

lemma mapped_word: "mapped m a n \<Longrightarrow> unat k < n \<Longrightarrow> \<exists>b. m (a + k) = Some b"
  using mappedD [of m a n "unat k"] by simp

lemma copied_mapped:
  assumes "mapped m s hi" "m a \<noteq> None"
  shows "\<exists>b. copied m d s lo hi a = Some b"
  using assms mapped_word [OF assms(1), of "a - d"] by (auto simp: copied_def)

lemma offset_eq: "k < 2 ^ 64 \<Longrightarrow> unat (a - d) = k \<longleftrightarrow> (a :: u64) = d + of_nat k"
  by (metis add.commute diff_add_cancel of_nat_unat_64 unat_of_nat_64 add_diff_cancel_left')

lemma unat_offset_shift:
  assumes "k < 2 ^ 64"
  shows "unat ((s :: u64) + of_nat k - d) =
    (if unat (d - s) \<le> k then k - unat (d - s) else k + 2 ^ 64 - unat (d - s))"
proof -
  define x where "x = d - s"
  have "s + of_nat k - d = of_nat k - x" by (simp add: x_def)
  moreover have "unat (of_nat k - x) = (if unat x \<le> k then k - unat x else k + 2 ^ 64 - unat x)"
    using assms by (simp add: unat_sub_if' unat_of_nat_64)
  ultimately show ?thesis by (simp only: x_def [symmetric])
qed

text \<open>One byte more, upwards and downwards.\<close>

lemma copied_up_read:
  assumes "k < n" "n \<le> unat (d - s)"
  shows "copied m d s 0 k (s + of_nat k) = m (s + of_nat k)"
proof -
  have "unat (d - s) < 2 ^ 64" by (rule unat_64_lt)
  with assms have "k < 2 ^ 64" by simp
  from unat_offset_shift [OF this, of s d] assms \<open>unat (d - s) < 2 ^ 64\<close>
  have "\<not> unat (s + of_nat k - d) < k" by auto
  then show ?thesis by (simp add: copied_def)
qed

lemma copied_up_write:
  assumes "k < 2 ^ 64" "m (s + of_nat k) = Some b"
  shows "(copied m d s 0 k)(d + of_nat k \<mapsto> b) = copied m d s 0 (Suc k)"
proof
  fix a
  show "((copied m d s 0 k)(d + of_nat k \<mapsto> b)) a = copied m d s 0 (Suc k) a"
    using assms offset_eq [OF assms(1), of a d]
    by (cases "unat (a - d) = k") (auto simp: copied_def)
qed

lemma copied_down_read:
  assumes "k < lo" "lo \<le> n" "unat (d - s) < n" "n \<le> 2 ^ 63"
  shows "copied m d s lo n (s + of_nat k) = m (s + of_nat k)"
proof -
  from assms have "k < 2 ^ 64" by simp
  from unat_offset_shift [OF this, of s d] assms
  have "\<not> (lo \<le> unat (s + of_nat k - d) \<and> unat (s + of_nat k - d) < n)" by auto
  then show ?thesis by (auto simp: copied_def)
qed

lemma copied_down_write:
  assumes "k < n" "n \<le> 2 ^ 64" "m (s + of_nat k) = Some b"
  shows "(copied m d s (Suc k) n)(d + of_nat k \<mapsto> b) = copied m d s k n"
proof
  fix a
  have k: "k < 2 ^ 64" using assms by simp
  show "((copied m d s (Suc k) n)(d + of_nat k \<mapsto> b)) a = copied m d s k n a"
    using assms offset_eq [OF k, of a d]
    by (cases "unat (a - d) = k") (auto simp: copied_def)
qed

subsection \<open>memcpy and memmove\<close>

lemma memcpy_forward:
  assumes "mapped m s (unat n)" "mapped m d (unat n)" "n \<le> d - s \<or> n = 0"
  shows "memcpy m d s n = Some (copied m d s 0 (unat n), d)"
proof -
  define st where "st i = (copied m d s 0 i, d + of_nat i, s + of_nat i, n - of_nat i)" for i
  have lt: "i < 2 ^ 64" if "i < unat n" for i using that unat_64_lt [of n] by simp
  have le: "unat n \<le> unat (d - s)" if "i < unat n" for i
    using assms(3) that by (auto simp: word_le_nat_alt)
  have "loop (\<lambda>(m, d, s, n). Some (n \<noteq> 0))
      (\<lambda>(m, d, s, n). do { b \<leftarrow> load m s; m \<leftarrow> store m d b; Some (m, d + 1, s + 1, n - 1) })
      (st 0) = Some (st (unat n))"
  proof (rule loop_iterate)
    fix i assume i: "i < unat n"
    have "(of_nat i :: u64) \<noteq> n"
      using i lt [OF i] by (metis less_irrefl unat_of_nat_64)
    then show "(case st i of (m, d, s, n) \<Rightarrow> Some (n \<noteq> 0)) = Some True"
      by (auto simp: st_def)
    from mappedD [OF assms(1) i] obtain b where b: "m (s + of_nat i) = Some b" by blast
    from mappedD [OF assms(2) i] have "m (d + of_nat i) \<noteq> None" by auto
    from copied_mapped [OF mapped_less [OF assms(1), of i] this] i
    obtain b' where b': "copied m d s 0 i (d + of_nat i) = Some b'" by auto
    show "(case st i of (m, d, s, n) \<Rightarrow> do {
        b \<leftarrow> load m s; m \<leftarrow> store m d b; Some (m, d + 1, s + 1, n - 1) }) = Some (st (Suc i))"
      using b b' copied_up_read [OF i le [OF i], of m] copied_up_write [where m = m, OF lt [OF i] b, of d]
      by (simp add: st_def mem_simps algebra_simps)
  next
    show "(case st (unat n) of (m, d, s, n) \<Rightarrow> Some (n \<noteq> 0)) = Some False"
      by (simp add: st_def)
  qed
  then show ?thesis by (simp add: memcpy_def st_def)
qed

lemma load_word_bytes:
  assumes "length bs = 8" "\<And>i. i < 8 \<Longrightarrow> m (a + of_nat i) = Some (bs ! i)"
  shows "load_word m a = Some (le_word bs)"
proof -
  from assms(1) obtain b0 b1 b2 b3 b4 b5 b6 b7 where bs: "bs = [b0, b1, b2, b3, b4, b5, b6, b7]"
    by (auto simp: length_Suc_conv numeral_eq_Suc)
  have "m a = Some b0" "m (a + 1) = Some b1" "m (a + 2) = Some b2" "m (a + 3) = Some b3"
    "m (a + 4) = Some b4" "m (a + 5) = Some b5" "m (a + 6) = Some b6" "m (a + 7) = Some b7"
    using assms(2) [of 0] assms(2) [of 1] assms(2) [of 2] assms(2) [of 3] assms(2) [of 4]
      assms(2) [of 5] assms(2) [of 6] assms(2) [of 7] by (simp_all add: bs)
  then show ?thesis by (simp add: load_word_def load_def bs)
qed

lemma unat_sub_of_nat:
  "i < 2 ^ 64 \<Longrightarrow> unat ((x :: u64) - of_nat i) =
     (if i \<le> unat x then unat x - i else unat x + 2 ^ 64 - i)"
  by (simp add: unat_sub_if' unat_of_nat_64)

lemma offset_sub:
  "i < 2 ^ 64 \<Longrightarrow> unat (a - (d + of_nat i :: u64)) =
     (if i \<le> unat (a - d) then unat (a - d) - i else unat (a - d) + 2 ^ 64 - i)"
  using unat_sub_of_nat [of i "a - d"] by (simp only: diff_diff_eq)

lemma offset_word_lt:
  assumes "i < 2 ^ 64" "n \<le> 2 ^ 64 - i"
  shows "unat (a - (d + of_nat i :: u64)) < n \<longleftrightarrow> i \<le> unat (a - d) \<and> unat (a - d) < i + n"
  unfolding offset_sub [OF assms(1)] using assms by auto

lemma store_bytes_eq:
  assumes "mapped m a (length bs)" "length bs \<le> 2 ^ 64"
  shows "store_bytes m a bs =
    Some (\<lambda>x. if unat (x - a) < length bs then Some (bs ! unat (x - a)) else m x)"
  using assms
proof (induction bs arbitrary: m a)
  case Nil
  then show ?case by simp
next
  case (Cons b bs)
  let ?m = "m(a \<mapsto> b)"
  from mappedD [OF Cons.prems(1), of 0] have "store m a b = Some ?m" by (auto simp: mem_simps)
  moreover have "mapped ?m (a + 1) (length bs)"
  proof (unfold mapped_def, intro allI impI)
    fix i assume "i < length bs"
    with mappedD [OF Cons.prems(1), of "Suc i"] show "?m (a + 1 + of_nat i) \<noteq> None"
      by (auto simp: algebra_simps)
  qed
  moreover have "length bs \<le> 2 ^ 64" using Cons.prems by simp
  ultimately have "store_bytes m a (b # bs) =
      Some (\<lambda>x. if unat (x - (a + 1)) < length bs then Some (bs ! unat (x - (a + 1))) else ?m x)"
    using Cons.IH by simp
  moreover have "(if unat (x - (a + 1)) < length bs then Some (bs ! unat (x - (a + 1))) else ?m x) =
      (if unat (x - a) < length (b # bs) then Some ((b # bs) ! unat (x - a)) else m x)" for x
  proof (cases "x = a")
    case True
    have "unat (- 1 :: u64) = 2 ^ 64 - 1" using unat_sub_of_nat [of 1 0] by simp
    with True Cons.prems(2) show ?thesis by simp
  next
    case False
    then have "unat (x - a) \<noteq> 0" by (simp add: unat_eq_0)
    moreover have "unat (x - (a + 1)) = unat (x - a) - 1"
      using False calculation by (metis diff_diff_eq unat_minus_one unat_0)
    moreover from calculation have "unat (x - (a + 1)) < length bs \<longleftrightarrow> unat (x - a) < length (b # bs)"
      by auto
    ultimately show ?thesis using False by (simp add: nth_Cons')
  qed
  ultimately show ?case by simp
qed

text \<open>The loops of the downward copy keep one invariant: \<open>k\<close> bytes are left.\<close>

definition down_inv :: "mem \<Rightarrow> u64 \<Rightarrow> u64 \<Rightarrow> nat \<Rightarrow> mem \<times> u64 \<times> u64 \<times> u64 \<Rightarrow> bool" where
  "down_inv m d s n = (\<lambda>(m', dd, ss, r). \<exists>k \<le> n.
     m' = copied m d s k n \<and> dd = d + of_nat k \<and> ss = s + of_nat k \<and> r = of_nat k)"

lemma down_byte:
  assumes inv: "down_inv m d s n (m', dd, ss, r)" and r: "r \<noteq> 0"
    and n: "unat (d - s) < n" "n \<le> 2 ^ 63" and mp: "mapped m s n" "mapped m d n"
  shows "\<exists>st'. do { b \<leftarrow> load m' (ss - 1); m \<leftarrow> store m' (dd - 1) b;
        Some (m, dd - 1, ss - 1, r - 1) } = Some st' \<and>
    down_inv m d s n st' \<and> unat (snd (snd (snd st'))) < unat r"
proof -
  from inv obtain k' where k': "k' \<le> n" "m' = copied m d s k' n" "dd = d + of_nat k'"
      "ss = s + of_nat k'" "r = of_nat k'"
    by (auto simp: down_inv_def)
  with r obtain k where "k' = Suc k" by (cases k') auto
  with k' have k: "k < n" and st: "m' = copied m d s (Suc k) n" "dd = d + of_nat k + 1"
      "ss = s + of_nat k + 1" "r = of_nat k + 1" by (simp_all add: algebra_simps)
  from mappedD [OF mp(1) k] obtain b where b: "m (s + of_nat k) = Some b" by blast
  from mappedD [OF mp(2) k] have "m (d + of_nat k) \<noteq> None" by auto
  from copied_mapped [OF mp(1) this] obtain b' where
    b': "copied m d s (Suc k) n (d + of_nat k) = Some b'" by blast
  have rd: "copied m d s (Suc k) n (s + of_nat k) = Some b"
    using copied_down_read [of k "Suc k" n d s m] k n b by simp
  have wr: "(copied m d s (Suc k) n)(d + of_nat k \<mapsto> b) = copied m d s k n"
    using copied_down_write [where m = m and s = s and d = d and b = b, OF k _ b] n(2) by simp
  have lt: "unat (of_nat k :: u64) < unat (of_nat k + 1 :: u64)"
    using k n(2) unat_of_nat_64 [of k] unat_of_nat_64 [of "Suc k"] by (simp add: add.commute)
  have "down_inv m d s n (copied m d s k n, d + of_nat k, s + of_nat k, of_nat k)"
    using k by (auto simp: down_inv_def intro!: exI [of _ k])
  then show ?thesis using rd b' wr lt by (simp add: st mem_simps)
qed

lemma down_word:
  assumes inv: "down_inv m d s n (m', dd, ss, r)" and r: "r \<ge> 8"
    and n: "unat (d - s) < n" "n \<le> 2 ^ 63" and mp: "mapped m s n" "mapped m d n"
  shows "\<exists>st'. do { w \<leftarrow> load_word m' (ss - 8); m \<leftarrow> store_word m' (dd - 8) w;
        Some (m, dd - 8, ss - 8, r - 8) } = Some st' \<and>
    down_inv m d s n st' \<and> unat (snd (snd (snd st'))) < unat r"
proof -
  from inv obtain k where k: "k \<le> n" and st: "m' = copied m d s k n" "dd = d + of_nat k"
      "ss = s + of_nat k" "r = of_nat k"
    by (auto simp: down_inv_def)
  with r n(2) have "8 \<le> k" by (simp add: word_le_nat_alt unat_of_nat_64)
  then obtain j where j: "k = j + 8" by (metis le_add_diff_inverse2)
  define bs where "bs = map (\<lambda>i. the (m (s + of_nat (j + i)))) [0..<8]"
  have len: "length bs = 8" by (simp add: bs_def)
  have src: "m (s + of_nat (j + i)) = Some (bs ! i)" if "i < 8" for i
    using mappedD [OF mp(1), of "j + i"] that j k by (auto simp: bs_def)
  let ?c = "copied m d s k n"
  have ld: "load_word ?c (s + of_nat j) = Some (le_word bs)"
  proof (rule load_word_bytes [OF len])
    fix i :: nat assume i: "i < 8"
    then show "?c (s + of_nat j + of_nat i) = Some (bs ! i)"
      using copied_down_read [of "j + i" k n d s m] src [OF i] j k n by (simp add: add.assoc)
  qed
  have "mapped ?c (d + of_nat j) 8"
  proof (unfold mapped_def, intro allI impI)
    fix i :: nat assume "i < 8"
    with mappedD [OF mp(2), of "j + i"] j k have "m (d + of_nat j + of_nat i) \<noteq> None"
      by (auto simp: add.assoc)
    then show "?c (d + of_nat j + of_nat i) \<noteq> None" using copied_mapped [OF mp(1)] by auto
  qed
  then have "store_word ?c (d + of_nat j) (le_word bs) = Some (\<lambda>x.
      if unat (x - (d + of_nat j)) < 8 then Some (bs ! unat (x - (d + of_nat j))) else ?c x)"
    using store_bytes_eq [of ?c "d + of_nat j" bs] len by (simp add: store_word_def le_word_8)
  moreover have "(if unat (x - (d + of_nat j)) < 8 then Some (bs ! unat (x - (d + of_nat j)))
      else ?c x) = copied m d s j n x" for x
  proof -
    have jl: "j < 2 ^ 64" "8 \<le> 2 ^ 64 - j" using j k n by simp_all
    note off = offset_sub [OF jl(1), of x d] offset_word_lt [OF jl, of x d]
    show ?thesis
    proof (cases "j \<le> unat (x - d) \<and> unat (x - d) < j + 8")
      case True
      then obtain i where i: "unat (x - d) = j + i" "i < 8" by (metis le_Suc_ex nat_add_left_cancel_less)
      then have "x - d = of_nat (j + i)" by (metis of_nat_unat_64)
      with i off src [of i] k j show ?thesis by (simp add: copied_def)
    next
      case False
      with off k j show ?thesis by (auto simp: copied_def)
    qed
  qed
  ultimately have wr: "store_word ?c (d + of_nat j) (le_word bs) = Some (copied m d s j n)"
    by presburger
  have lt: "unat (of_nat j :: u64) < unat (of_nat k :: u64)"
    using j k n(2) unat_of_nat_64 [of j] unat_of_nat_64 [of k] by simp
  have "down_inv m d s n (copied m d s j n, d + of_nat j, s + of_nat j, of_nat j)"
    using k j by (auto simp: down_inv_def intro!: exI [of _ j])
  moreover have "dd - 8 = d + of_nat j" "ss - 8 = s + of_nat j" "r - 8 = of_nat j"
    by (simp_all add: st j)
  ultimately show ?thesis using ld wr lt st(1,4)
    by (simp del: split_paired_Ex)
qed

lemma memmove_backward:
  assumes n: "d - s < n" "n \<le> 2 ^ 63" and mp: "mapped m s (unat n)" "mapped m d (unat n)"
  shows "memmove m d s n = Some (copied m d s 0 (unat n), d)"
proof -
  let ?byte = "\<lambda>(m, dd, ss, n). do {
      b \<leftarrow> load m (ss - 1); m \<leftarrow> store m (dd - 1) b; Some (m, dd - 1, ss - 1, n - (1 :: u64)) }"
  let ?word = "\<lambda>(m, dd, ss, n). do {
      w \<leftarrow> load_word m (ss - 8); m \<leftarrow> store_word m (dd - 8) w; Some (m, dd - 8, ss - 8, n - (8 :: u64)) }"
  let ?I = "down_inv m d s (unat n)"
  let ?\<mu> = "\<lambda>st :: mem \<times> u64 \<times> u64 \<times> u64. unat (snd (snd (snd st)))"
  have lt: "unat (d - s) < unat n" "unat n \<le> 2 ^ 63"
    using n by (simp_all add: word_less_nat_alt word_le_nat_alt)
  have I0: "?I (m, d + n, s + n, n)"
    by (auto simp: down_inv_def intro!: exI [of _ "unat n"])
  have "\<exists>st. loop (\<lambda>(m, dd, ss, n). Some (n \<ge> 8 \<and> dd mod 8 \<noteq> 0)) ?byte (m, d + n, s + n, n) =
      Some st \<and> ?I st"
    by (rule loop_total [where I = ?I and \<mu> = ?\<mu>, OF I0])
      (auto simp del: split_paired_Ex intro!: down_byte [OF _ _ lt mp])
  then obtain st1 where st1: "loop (\<lambda>(m, dd, ss, n). Some (n \<ge> 8 \<and> dd mod 8 \<noteq> 0)) ?byte
      (m, d + n, s + n, n) = Some st1" "?I st1" by blast
  have "\<exists>st. loop (\<lambda>(m, dd, ss, n). Some (n \<ge> 8)) ?word st1 = Some st \<and> ?I st"
    by (rule loop_total [where I = ?I and \<mu> = ?\<mu>, OF st1(2)])
      (auto simp del: split_paired_Ex intro!: down_word [OF _ _ lt mp])
  then obtain st2 where st2: "loop (\<lambda>(m, dd, ss, n). Some (n \<ge> 8)) ?word st1 = Some st2" "?I st2"
    by blast
  have "\<exists>st. loop (\<lambda>(m, dd, ss, n). Some (n \<noteq> 0)) ?byte st2 = Some st \<and>
      (?I st \<and> snd (snd (snd st)) = 0)"
    by (rule loop_total [where I = ?I and \<mu> = ?\<mu>, OF st2(2)])
      (auto simp del: split_paired_Ex intro!: down_byte [OF _ _ lt mp])
  then obtain st3 where st3: "loop (\<lambda>(m, dd, ss, n). Some (n \<noteq> 0)) ?byte st2 = Some st3" "?I st3"
    "snd (snd (snd st3)) = 0" by blast
  have "fst st3 = copied m d s 0 (unat n)"
    using st3(2,3) lt(2) by (cases st3) (auto simp: down_inv_def of_nat_64_zero)
  moreover have "\<not> n \<le> d - s" using n(1) by simp
  ultimately show ?thesis using st1 st2 st3
    by (cases st1, cases st2, cases st3) (simp add: memmove_def)
qed

text \<open>The contract of \<open>memmove\<close>, whichever way it copies.\<close>

lemma memmove_eq:
  assumes "n \<le> 2 ^ 63" "mapped m s (unat n)" "mapped m d (unat n)"
  shows "memmove m d s n = Some (copied m d s 0 (unat n), d)"
proof (cases "n \<le> d - s")
  case True
  then have "memmove m d s n = memcpy m d s n" by (simp add: memmove_def)
  with True assms show ?thesis by (simp add: memcpy_forward)
next
  case False
  then show ?thesis using assms by (simp add: memmove_backward)
qed

subsection \<open>Property\<close>

lemma bytes_at_copied:
  assumes "bytes_at m s bs" "length bs \<le> 2 ^ 64"
  shows "bytes_at (copied m d s 0 (length bs)) d bs"
  using assms by (auto simp: bytes_at_def copied_def unat_of_nat_64)

text \<open>
  C1. \<open>memmove\<close> of a block that both ends may access (and of at most half the address space)
  returns the destination and leaves there the bytes the source had before the call, however
  the two blocks overlap and are aligned; no byte outside the destination changes.
\<close>

theorem memmove_correct:
  assumes "n \<le> 2 ^ 63" and "length bs = unat n" and "bytes_at m s bs" and "mapped m d (unat n)"
  shows "\<exists>m'. memmove m d s n = Some (m', d) \<and> bytes_at m' d bs \<and>
    (\<forall>a. unat n \<le> unat (a - d) \<longrightarrow> m' a = m a)"
proof -
  have "mapped m s (unat n)" using bytes_at_mapped [OF assms(3)] assms(2) by simp
  from memmove_eq [OF assms(1) this assms(4)]
  have "memmove m d s n = Some (copied m d s 0 (unat n), d)" .
  moreover have "bytes_at (copied m d s 0 (unat n)) d bs"
    using bytes_at_copied [OF assms(3), of d] assms(2) unat_64_lt [of n] by simp
  ultimately show ?thesis by (auto simp: copied_def)
qed

theorem memmove_correct_witness:
  "\<exists>m'. memmove (\<lambda>a. if 0x1000 \<le> a \<and> a < 0x1020 then Some (ucast a) else None) 0x1003 0x1000 10 =
      Some (m', 0x1003) \<and> bytes_at m' 0x1003 [0, 1, 2, 3, 4, 5, 6, 7, 8, 9] \<and>
    (\<forall>a. 10 \<le> unat (a - 0x1003) \<longrightarrow>
       m' a = (if 0x1000 \<le> a \<and> a < 0x1020 then Some (ucast a) else None))"
proof -
  let ?m = "\<lambda>a :: u64. if 0x1000 \<le> a \<and> a < 0x1020 then Some (ucast a :: u8) else None"
  let ?bs = "[0, 1, 2, 3, 4, 5, 6, 7, 8, 9] :: u8 list"
  have "(10 :: u64) \<le> 2 ^ 63" "length ?bs = unat (10 :: u64)" "bytes_at ?m 0x1000 ?bs"
    "mapped ?m 0x1003 (unat (10 :: u64))" by code_simp+
  from memmove_correct [OF this] show ?thesis by simp
qed

end
