(* ===== verification/CStringScan.thy ===== *)
theory CStringScan
  imports CString
begin

text \<open>
  The scanning functions of \<^verbatim>\<open>src/string.c\<close>: the word-at-a-time loops of \<open>strlen\<close>,
  \<open>strchrnul\<close> and \<open>memchr\<close> against the plain byte-by-byte reading of the same string.
  The \<open>HASZERO\<close> test is exact on a little-endian word, and a word read starts at a multiple of
  eight, so it stays inside a mapped page even where it runs past the terminator.
\<close>

subsection \<open>The zero-byte test\<close>

lemma ONES_eq: "ONES = 0x0101010101010101"
  by (simp add: ONES_def)

lemma HIGHS_eq: "HIGHS = 0x8080808080808080"
  by (simp add: HIGHS_def ONES_eq)

lemma bit_HIGHS: "n < 64 \<Longrightarrow> bit HIGHS n \<longleftrightarrow> n mod 8 = 7"
proof -
  assume "n < 64"
  then have "n \<in> set [0..<64]" by simp
  moreover have "\<forall>n \<in> set [0..<64]. bit HIGHS n \<longleftrightarrow> n mod 8 = 7" unfolding HIGHS_eq by code_simp
  ultimately show ?thesis by blast
qed

lemma word_neq_0_bit: "(x :: u64) \<noteq> 0 \<longleftrightarrow> (\<exists>n < 64. bit x n)"
proof
  assume "x \<noteq> 0"
  then obtain n where "bit x n" by (auto simp: bit_eq_iff)
  with bit_imp_le_length [OF this] show "\<exists>n < 64. bit x n" by (intro exI [of _ n]) simp
next
  assume "\<exists>n < 64. bit x n"
  then show "x \<noteq> 0" by auto
qed

lemma xor_eq_0: "(x XOR c = 0) \<longleftrightarrow> (x = (c :: u8))"
proof
  assume "x XOR c = 0"
  moreover have "x = (x XOR c) XOR c" by (simp add: xor.assoc)
  ultimately show "x = c" by simp
qed simp

lemma HASZERO_le_word:
  assumes "length bs = 8"
  shows "HASZERO (le_word bs) \<longleftrightarrow> 0 \<in> set bs"
proof -
  let ?x = "le_word bs" and ?ds = "map uint bs"
  have ones: "uint ONES = base256 (replicate (length ?ds) 1)"
  proof -
    have "base256 (replicate 8 1) = 0x0101010101010101" by code_simp
    then show ?thesis using assms by (simp add: ONES_eq)
  qed
  have sub: "bit (?x - ONES) n \<longleftrightarrow> bit (base256 ?ds - base256 (replicate (length ?ds) 1)) n" if "n < 64" for n
  proof -
    have "bit (?x - ONES) n \<longleftrightarrow> bit (word_of_int (uint ?x - uint ONES) :: u64) n"
      by (simp only: word_sub_wi)
    also have "\<dots> \<longleftrightarrow> bit (uint ?x - uint ONES) n" using that
      by (simp only: bit_word_of_int_iff) simp
    finally show ?thesis using ones assms by (simp add: uint_le_word)
  qed
  have pos: "bit ?x n \<longleftrightarrow> bit (base256 ?ds) n" if "n < 64" for n
    using that by (simp add: bit_le_word bit_base256)
  have "HASZERO ?x \<longleftrightarrow> (\<exists>n < 64. bit (?x - ONES) n \<and> \<not> bit ?x n \<and> n mod 8 = 7)"
    unfolding HASZERO_def word_neq_0_bit
    by (simp add: bit_and_iff bit_not_iff bit_HIGHS conj_ac cong: conj_cong)
  also have "\<dots> \<longleftrightarrow> (\<exists>i < 8. bit (?x - ONES) (8 * i + 7) \<and> \<not> bit ?x (8 * i + 7))"
  proof (intro iffI; elim exE conjE)
    fix n :: nat assume n: "n < 64" "n mod 8 = 7" and b: "bit (?x - ONES) n" "\<not> bit ?x n"
    define i where "i = n div 8"
    have "n = 8 * i + 7" using mult_div_mod_eq [of 8 n] n(2) by (simp add: i_def)
    moreover have "i < 8" using n(1) by (simp add: i_def)
    ultimately show "\<exists>i < 8. bit (?x - ONES) (8 * i + 7) \<and> \<not> bit ?x (8 * i + 7)"
      using b by (intro exI [of _ i]) simp
  next
    fix i :: nat assume i: "i < 8" and b: "bit (?x - ONES) (8 * i + 7)" "\<not> bit ?x (8 * i + 7)"
    then show "\<exists>n < 64. bit (?x - ONES) n \<and> \<not> bit ?x n \<and> n mod 8 = 7"
      by (intro exI [of _ "8 * i + 7"]) simp
  qed
  also have "\<dots> \<longleftrightarrow> (\<exists>i < length ?ds. bit (base256 ?ds - base256 (replicate (length ?ds) 1)) (8 * i + 7) \<and>
      \<not> bit (base256 ?ds) (8 * i + 7))"
    using assms by (simp add: sub pos cong: conj_cong)
  also have "\<dots> \<longleftrightarrow> 0 \<in> set ?ds"
    by (rule haszero_digits) (auto simp: uint_byte)
  also have "\<dots> \<longleftrightarrow> 0 \<in> set bs" by (auto simp: image_iff uint_0_iff intro!: bexI [of _ 0])
  finally show ?thesis .
qed

lemma HASZERO_xor:
  assumes "length bs = 8"
  shows "HASZERO (le_word bs XOR ONES * ucast c) \<longleftrightarrow> c \<in> set bs"
proof -
  have "le_word bs XOR ONES * ucast c = le_word (map2 (XOR) bs (replicate 8 c))"
    using le_word_xor [OF assms, of "replicate 8 c"] by (simp add: le_word_replicate ONES_eq)
  also have "map2 (XOR) bs (replicate 8 c) = map (\<lambda>b. b XOR c) bs"
    using assms by (intro nth_equalityI) simp_all
  finally show ?thesis using HASZERO_le_word [of "map (\<lambda>b. b XOR c) bs"] assms
    by (auto simp: image_iff xor_eq_0)
qed

lemma add8_mod: "((w :: u64) + 8) mod 8 = w mod 8"
proof -
  have "unat ((w + 8) mod 8) = (unat w + 8) mod 2 ^ 64 mod 8"
    by (simp add: unat_mod unat_word_ariths)
  also have "\<dots> = (unat w + 8) mod 8" by (rule mod_mod_cancel) simp
  finally have "unat ((w + 8) mod 8) = unat (w mod 8)" by (simp add: unat_mod)
  then show ?thesis by (rule unsigned_word_eqI)
qed

lemma and_7_eq_mod: "(x :: u64) AND 7 = x mod 8"
  using take_bit_eq_mask [of 3 x] take_bit_eq_mod [of 3 x] by (simp add: mask_eq_exp_minus_1)

subsection \<open>Scanning for a byte\<close>

text \<open>
  \<open>first_at m a P n i\<close>: reading from \<open>a\<close>, at most \<open>n\<close> bytes, the first byte with \<open>P\<close> is at
  offset \<open>i\<close>, or there is none and \<open>i = n\<close>.  Nothing past that byte has to be mapped.
\<close>

definition first_at :: "mem \<Rightarrow> u64 \<Rightarrow> (u8 \<Rightarrow> bool) \<Rightarrow> nat \<Rightarrow> nat \<Rightarrow> bool" where
  "first_at m a P n i \<longleftrightarrow> i \<le> n \<and> n \<le> 2 ^ 64 \<and>
     (\<forall>j < i. \<exists>b. m (a + of_nat j) = Some b \<and> \<not> P b) \<and>
     (i < n \<longrightarrow> (\<exists>b. m (a + of_nat i) = Some b \<and> P b))"

lemma first_at_before: "first_at m a P n i \<Longrightarrow> j < i \<Longrightarrow> \<exists>b. m (a + of_nat j) = Some b \<and> \<not> P b"
  by (simp add: first_at_def)

lemma first_at_hit: "first_at m a P n i \<Longrightarrow> i < n \<Longrightarrow> \<exists>b. m (a + of_nat i) = Some b \<and> P b"
  by (simp add: first_at_def)

lemma first_at_mapped: "first_at m a P n i \<Longrightarrow> j \<le> i \<Longrightarrow> j < n \<Longrightarrow> m (a + of_nat j) \<noteq> None"
  using first_at_before [of m a P n i j] first_at_hit [of m a P n i] by (cases "j = i") auto

lemma first_at_iff: "first_at m a P n i \<Longrightarrow> j \<le> i \<Longrightarrow> j < n \<Longrightarrow>
    \<exists>b. m (a + of_nat j) = Some b \<and> (P b \<longleftrightarrow> j = i)"
  using first_at_before [of m a P n i j] first_at_hit [of m a P n i] by (cases "j = i") auto

lemma first_at_le: "first_at m a P n i \<Longrightarrow> i \<le> n" and first_at_64: "first_at m a P n i \<Longrightarrow> n \<le> 2 ^ 64"
  by (simp_all add: first_at_def)

lemma aligned_word:
  assumes "word_granular m" "m w \<noteq> None" "w mod 8 = 0"
  shows "\<exists>bs. length bs = 8 \<and> (\<forall>i < 8. m (w + of_nat i) = Some (bs ! i)) \<and>
    load_word m w = Some (le_word bs)"
proof -
  define bs where "bs = map (\<lambda>i. the (m (w + of_nat i))) [0..<8]"
  have "m (w + of_nat i) \<noteq> None" if "i < 8" for i
  proof -
    from assms(1,2) that have "m (w - w mod 8 + of_nat i) \<noteq> None"
      unfolding word_granular_def by blast
    with assms(3) show ?thesis by simp
  qed
  then have "\<forall>i < 8. m (w + of_nat i) = Some (bs ! i)" by (auto simp: bs_def)
  moreover have "length bs = 8" by (simp add: bs_def)
  ultimately show ?thesis using load_word_bytes by blast
qed

text \<open>A word without the byte lies wholly before it.\<close>

lemma word_before:
  assumes f: "first_at m a P n i" and k: "k \<le> i" "i < n \<or> k + 8 \<le> n"
    and bs: "length bs = 8" "\<forall>j < 8. m (a + of_nat k + of_nat j) = Some (bs ! j)"
    and no: "\<not> (\<exists>b \<in> set bs. P b)"
  shows "k + 8 \<le> i"
proof (rule ccontr)
  assume "\<not> k + 8 \<le> i"
  then have "i - k < 8" "i < n" and i: "i = k + (i - k)" using k by auto
  from first_at_hit [OF f \<open>i < n\<close>] obtain b where "m (a + of_nat i) = Some b" "P b" by blast
  moreover have "m (a + of_nat i) = Some (bs ! (i - k))"
    using bs(2) \<open>i - k < 8\<close> i by (metis add.assoc of_nat_add)
  ultimately have "P (bs ! (i - k))" by simp
  moreover have "bs ! (i - k) \<in> set bs" using bs(1) \<open>i - k < 8\<close> by simp
  ultimately show False using no by blast
qed

text \<open>The three loops of an unbounded scan.\<close>

lemma scan_head:
  assumes f: "first_at m a P n i" and i: "i < n"
  shows "\<exists>j. j \<le> i \<and> ((a + of_nat j) mod 8 \<noteq> 0 \<longrightarrow> j = i) \<and>
    loop (\<lambda>s. if s mod 8 \<noteq> 0 then do { b \<leftarrow> load m s; Some (\<not> P b) } else Some False)
      (\<lambda>s. Some (s + 1)) a = Some (a + of_nat j)"
proof -
  let ?g = "\<lambda>s. if s mod 8 \<noteq> 0 then do { b \<leftarrow> load m s; Some (\<not> P b) } else Some False"
  have "\<exists>k. 0 \<le> k \<and> k \<le> i \<and> True \<and> \<not> ((a + of_nat k) mod 8 \<noteq> 0 \<and> k \<noteq> i) \<and>
      loop ?g (\<lambda>s. Some (s + 1)) (a + of_nat 0) = Some (a + of_nat k)"
  proof (rule loop_scan [where d = 1])
    fix j assume "j \<le> i"
    with first_at_iff [OF f this] i
    show "?g (a + of_nat j) = Some ((a + of_nat j) mod 8 \<noteq> 0 \<and> j \<noteq> i)" by (auto simp: load_def)
  qed (auto simp: algebra_simps)
  then obtain k where k: "k \<le> i" "\<not> ((a + of_nat k) mod 8 \<noteq> 0 \<and> k \<noteq> i)"
    "loop ?g (\<lambda>s. Some (s + 1)) (a + of_nat 0) = Some (a + of_nat k)" by (elim exE conjE) (rule that)
  have "(a + of_nat k) mod 8 \<noteq> 0 \<longrightarrow> k = i" using k(2) by blast
  then show ?thesis using k(1,3) by (intro exI [of _ k] conjI) simp_all
qed

lemma scan_words:
  assumes f: "first_at m a P n i" and i: "i < n" and g: "word_granular m"
    and T: "\<forall>bs. length bs = 8 \<longrightarrow> (T (le_word bs) \<longleftrightarrow> (\<exists>b \<in> set bs. P b))"
    and j: "j \<le> i" "(a + of_nat j) mod 8 = 0"
  shows "\<exists>k. j \<le> k \<and> k \<le> i \<and>
    loop (\<lambda>w. do { x \<leftarrow> load_word m w; Some (\<not> T x) }) (\<lambda>w. Some (w + 8)) (a + of_nat j) =
      Some (a + of_nat k)"
proof -
  let ?g = "\<lambda>w. do { x \<leftarrow> load_word m w; Some (\<not> T x) }"
  let ?t = "\<lambda>k. ?g (a + of_nat k) = Some True"
  have word: "\<exists>bs. length bs = 8 \<and> (\<forall>j < 8. m (a + of_nat k + of_nat j) = Some (bs ! j)) \<and>
      ?g (a + of_nat k) = Some (\<not> (\<exists>b \<in> set bs. P b))" if "k \<le> i" "(a + of_nat k) mod 8 = 0" for k
    using aligned_word [OF g first_at_mapped [OF f that(1)] that(2)] that i by (auto simp: T)
  have "\<exists>k. j \<le> k \<and> k \<le> i \<and> (a + of_nat k) mod 8 = 0 \<and> \<not> ?t k \<and>
      loop ?g (\<lambda>w. Some (w + 8)) (a + of_nat j) = Some (a + of_nat k)"
  proof (rule loop_scan [where d = 8 and R = "\<lambda>k. (a + of_nat k) mod 8 = 0" and st = "\<lambda>k. a + of_nat k"])
    fix k assume k: "k \<le> i" "(a + of_nat k) mod 8 = 0"
    from word [OF k] show "?g (a + of_nat k) = Some (?t k)" by auto
    assume t: "?t k"
    from word [OF k] t obtain bs where bs: "length bs = 8"
      "\<forall>j < 8. m (a + of_nat k + of_nat j) = Some (bs ! j)" "\<not> (\<exists>b \<in> set bs. P b)" by auto
    have "k + 8 \<le> i" using word_before [OF f k(1) _ bs] i by blast
    moreover have "(a + of_nat (k + 8)) mod 8 = 0"
      using add8_mod [of "a + of_nat k"] k(2) by (simp add: algebra_simps)
    ultimately show "Some (a + of_nat k + 8) = Some (a + of_nat (k + 8)) \<and> k + 8 \<le> i \<and>
        (a + of_nat (k + 8)) mod 8 = 0" by (simp add: algebra_simps)
  qed (use j in simp_all)
  then obtain k where "j \<le> k" "k \<le> i"
    "loop ?g (\<lambda>w. Some (w + 8)) (a + of_nat j) = Some (a + of_nat k)" by (elim exE conjE) (rule that)
  then show ?thesis by (intro exI [of _ k] conjI) simp_all
qed

lemma scan_tail:
  assumes f: "first_at m a P n i" and i: "i < n" and k: "k \<le> i"
  shows "loop (\<lambda>s. do { b \<leftarrow> load m s; Some (\<not> P b) }) (\<lambda>s. Some (s + 1)) (a + of_nat k) =
    Some (a + of_nat i)"
proof -
  let ?g = "\<lambda>s. do { b \<leftarrow> load m s; Some (\<not> P b) }"
  have "\<exists>j. k \<le> j \<and> j \<le> i \<and> True \<and> \<not> j \<noteq> i \<and>
      loop ?g (\<lambda>s. Some (s + 1)) (a + of_nat k) = Some (a + of_nat j)"
  proof (rule loop_scan [where d = 1 and st = "\<lambda>j. a + of_nat j"])
    fix j assume "j \<le> i"
    with first_at_iff [OF f this] i show "?g (a + of_nat j) = Some (j \<noteq> i)"
      by (auto simp: load_def)
  qed (use k in \<open>auto simp: algebra_simps\<close>)
  then obtain j where "\<not> j \<noteq> i" "loop ?g (\<lambda>s. Some (s + 1)) (a + of_nat k) = Some (a + of_nat j)"
    by (elim exE conjE) (rule that)
  then show ?thesis by simp
qed

lemma cstring_first_at:
  "cstring m a bs \<Longrightarrow> first_at m a (\<lambda>b. b = 0) (2 ^ 64) (length bs)"
  using cstring_byte cstring_nul cstring_nonzero cstring_len
  by (fastforce simp: first_at_def)

lemma strlen_eq:
  assumes "cstring m a bs" "word_granular m"
  shows "strlen m a = Some (of_nat (length bs))"
proof -
  note f = cstring_first_at [OF assms(1)]
  have i: "length bs < 2 ^ 64" using cstring_len [OF assms(1)] by simp
  from scan_head [OF f i] obtain j where j: "j \<le> length bs"
    "(a + of_nat j) mod 8 \<noteq> 0 \<longrightarrow> j = length bs"
    "loop (\<lambda>s. if s mod 8 \<noteq> 0 then do { b \<leftarrow> load m s; Some (\<not> b = 0) } else Some False)
      (\<lambda>s. Some (s + 1)) a = Some (a + of_nat j)" by (elim exE conjE) (rule that)
  show ?thesis
  proof (cases "(a + of_nat j) mod 8 = 0")
    case False
    with j show ?thesis by (simp add: strlen_def)
  next
    case True
    have T: "\<forall>bs. length bs = 8 \<longrightarrow> (HASZERO (le_word bs) \<longleftrightarrow> (\<exists>b \<in> set bs. b = 0))"
      using HASZERO_le_word by auto
    from scan_words [where T = HASZERO, OF f i assms(2) T j(1) True] obtain k where "k \<le> length bs"
      "loop (\<lambda>w. do { x \<leftarrow> load_word m w; Some (\<not> HASZERO x) }) (\<lambda>w. Some (w + 8)) (a + of_nat j) =
        Some (a + of_nat k)" by (elim exE conjE) (rule that)
    with True j(3) scan_tail [OF f i this(1)] show ?thesis by (simp add: strlen_def)
  qed
qed

lemma strchrnul_eq:
  assumes s: "cstring m a bs" and g: "word_granular m" and c: "(word_of_int c :: u8) = cc"
  shows "strchrnul m a c = Some (a + of_nat (length (takeWhile (\<lambda>b. b \<noteq> cc) bs)))"
proof (cases "cc = 0")
  case True
  have "takeWhile (\<lambda>b. b \<noteq> cc) bs = bs"
    using s True by (intro takeWhile_eq_all_conv [THEN iffD2]) (auto simp: cstring_def)
  then have "length (takeWhile (\<lambda>b. b \<noteq> cc) bs) = length bs" by (rule arg_cong)
  with True c show ?thesis using strlen_eq [OF s g] by (simp add: strchrnul_def)
next
  case False
  define i where "i = length (takeWhile (\<lambda>b. b \<noteq> cc) bs)"
  let ?P = "\<lambda>b. b = 0 \<or> b = cc"
  have il: "i \<le> length bs" by (simp add: i_def length_takeWhile_le)
  have i: "i < 2 ^ 64" using il cstring_len [OF s] by simp
  have f: "first_at m a ?P (2 ^ 64) i"
    unfolding first_at_def
  proof (intro conjI allI impI)
    fix j assume "j < i"
    then show "\<exists>b. m (a + of_nat j) = Some b \<and> \<not> ?P b"
      using cstring_byte [OF s, of j] cstring_nonzero [OF s, of j] il
        set_takeWhileD [of "bs ! j" "\<lambda>b. b \<noteq> cc" bs] nth_mem [of j "takeWhile (\<lambda>b. b \<noteq> cc) bs"]
      by (auto simp: i_def takeWhile_nth)
  next
    show "\<exists>b. m (a + of_nat i) = Some b \<and> ?P b"
    proof (cases "i = length bs")
      case True
      then show ?thesis using cstring_nul [OF s] by simp
    next
      case False
      then have "i < length bs" using il by simp
      then show ?thesis using cstring_byte [OF s] nth_length_takeWhile [of "\<lambda>b. b \<noteq> cc" bs]
        by (auto simp: i_def)
    qed
  qed (use i in simp_all)
  from scan_head [OF f i] obtain j where j: "j \<le> i" "(a + of_nat j) mod 8 \<noteq> 0 \<longrightarrow> j = i"
    "loop (\<lambda>s. if s mod 8 \<noteq> 0 then do { b \<leftarrow> load m s; Some (\<not> ?P b) } else Some False)
      (\<lambda>s. Some (s + 1)) a = Some (a + of_nat j)" by (elim exE conjE) (rule that)
  show ?thesis
  proof (cases "(a + of_nat j) mod 8 = 0")
    case False
    with j \<open>cc \<noteq> 0\<close> c show ?thesis by (simp add: strchrnul_def i_def [symmetric])
  next
    case True
    let ?T = "\<lambda>x. HASZERO x \<or> HASZERO (x XOR ONES * ucast cc)"
    have T: "\<forall>bs. length bs = 8 \<longrightarrow> (?T (le_word bs) \<longleftrightarrow> (\<exists>b \<in> set bs. ?P b))"
      using HASZERO_le_word HASZERO_xor by auto
    from scan_words [where T = ?T, OF f i g T j(1) True] obtain k where "k \<le> i"
      "loop (\<lambda>w. do { x \<leftarrow> load_word m w; Some (\<not> ?T x) }) (\<lambda>w. Some (w + 8)) (a + of_nat j) =
        Some (a + of_nat k)" by (elim exE conjE) (rule that)
    with True j(3) scan_tail [OF f i this(1)] \<open>cc \<noteq> 0\<close> c show ?thesis
      by (simp add: strchrnul_def i_def [symmetric])
  qed
qed

text \<open>The same with a count: \<open>memchr\<close>.\<close>

lemma memchr_first_at:
  assumes f: "first_at m a (\<lambda>b. b = word_of_int c) (unat n) i" and g: "word_granular m"
  shows "memchr m a c n = Some (if i < unat n then a + of_nat i else 0)"
proof -
  define cc :: u8 where "cc = word_of_int c"
  define N where "N = unat n"
  let ?P = "\<lambda>b. b = cc"
  let ?st = "\<lambda>j. (a + of_nat j, n - of_nat j)"
  note f' = f [folded cc_def N_def]
  have n: "n = of_nat N" and N: "N < 2 ^ 64" using unat_64_lt [of n] by (simp_all add: N_def)
  have iN: "i \<le> N" using first_at_le [OF f'] .
  have left: "n - of_nat j = 0 \<longleftrightarrow> j = N" "8 \<le> n - of_nat j \<longleftrightarrow> j + 8 \<le> N" if "j \<le> i" for j
  proof -
    have "n - of_nat j = of_nat (N - j)" using that iN n by (simp add: of_nat_diff)
    then show "n - of_nat j = 0 \<longleftrightarrow> j = N" "8 \<le> n - of_nat j \<longleftrightarrow> j + 8 \<le> N"
      using that iN N of_nat_64_zero [of "N - j"] of_nat_64_le [of 8 "N - j"] by auto
  qed
  have byte: "\<exists>b. m (a + of_nat j) = Some b \<and> (b = cc \<longleftrightarrow> j = i)" if "j \<le> i" "j \<noteq> N" for j
    using first_at_iff [OF f' that(1)] that iN by simp
  let ?g1 = "\<lambda>(s, n). if s AND 7 \<noteq> 0 \<and> n \<noteq> 0 then do { b \<leftarrow> load m s; Some (b \<noteq> cc) } else Some False"
  let ?g2 = "\<lambda>(w, n). if n \<ge> 8 then do { x \<leftarrow> load_word m w; Some (\<not> HASZERO (x XOR ONES * ucast cc)) }
      else Some False"
  let ?g3 = "\<lambda>(s, n). if n \<noteq> 0 then do { b \<leftarrow> load m s; Some (b \<noteq> cc) } else Some False"
  let ?inc = "\<lambda>(s, n). Some (s + 1, n - (1 :: u64))"
  let ?inc8 = "\<lambda>(s, n). Some (s + 8, n - (8 :: u64))"
  have "\<exists>k. 0 \<le> k \<and> k \<le> i \<and> True \<and> \<not> ((a + of_nat k) AND 7 \<noteq> 0 \<and> k \<noteq> i) \<and>
      loop ?g1 ?inc (?st 0) = Some (?st k)"
  proof (rule loop_scan [where d = 1 and st = ?st])
    fix j assume j: "j \<le> i"
    show "?g1 (?st j) = Some ((a + of_nat j) AND 7 \<noteq> 0 \<and> j \<noteq> i)"
      using byte [OF j] left [OF j] j iN by (auto simp: load_def)
  qed (auto simp: algebra_simps)
  then obtain j where j: "j \<le> i" "\<not> ((a + of_nat j) AND 7 \<noteq> 0 \<and> j \<noteq> i)"
    "loop ?g1 ?inc (?st 0) = Some (?st j)" by (elim exE conjE) (rule that)
  have go: "?g3 (?st j) = Some (j \<noteq> i)"
    using byte [OF j(1)] left [OF j(1)] j(1) iN by (auto simp: load_def)
  have "\<exists>k. k \<le> i \<and> (if j \<noteq> i then loop ?g2 ?inc8 (?st j) else Some (?st j)) = Some (?st k)"
  proof (cases "j = i")
    case True
    then show ?thesis by (intro exI [of _ i]) simp
  next
    case False
    with j(2) have "(a + of_nat j) AND 7 = 0" by blast
    then have al: "(a + of_nat j) mod 8 = 0" by (simp only: and_7_eq_mod)
    have "\<exists>k. j \<le> k \<and> k \<le> i \<and> (a + of_nat k) mod 8 = 0 \<and> \<not> ?g2 (?st k) = Some True \<and>
        loop ?g2 ?inc8 (?st j) = Some (?st k)"
    proof (rule loop_scan [where d = 8 and st = ?st and R = "\<lambda>k. (a + of_nat k) mod 8 = 0"])
      fix k assume k: "k \<le> i" "(a + of_nat k) mod 8 = 0"
      have word: "\<exists>bs. length bs = 8 \<and> (\<forall>j < 8. m (a + of_nat k + of_nat j) = Some (bs ! j)) \<and>
          ?g2 (?st k) = Some (\<not> (\<exists>b \<in> set bs. ?P b))" if "k + 8 \<le> N"
        using aligned_word [OF g first_at_mapped [OF f' k(1)] k(2)] that left(2) [OF k(1)]
        by (auto simp: HASZERO_xor)
      have small: "?g2 (?st k) = Some False" if "\<not> k + 8 \<le> N"
        using that left(2) [OF k(1)] by simp
      show "?g2 (?st k) = Some (?g2 (?st k) = Some True)"
        using word small by (cases "k + 8 \<le> N") auto
      assume t: "?g2 (?st k) = Some True"
      with small have le: "k + 8 \<le> N" by auto
      from word [OF le] t obtain bs where bs: "length bs = 8"
        "\<forall>j < 8. m (a + of_nat k + of_nat j) = Some (bs ! j)" "\<not> (\<exists>b \<in> set bs. ?P b)" by auto
      have "k + 8 \<le> i" using word_before [OF f' k(1) _ bs] le by blast
      moreover have "(a + of_nat (k + 8)) mod 8 = 0"
        using add8_mod [of "a + of_nat k"] k(2) by (simp add: algebra_simps)
      ultimately show "?inc8 (?st k) = Some (?st (k + 8)) \<and> k + 8 \<le> i \<and> (a + of_nat (k + 8)) mod 8 = 0"
        by (simp add: algebra_simps)
    qed (use j al in simp_all)
    then obtain k where "k \<le> i" "loop ?g2 ?inc8 (?st j) = Some (?st k)" by (elim exE conjE) (rule that)
    with False show ?thesis by (intro exI [of _ k]) simp
  qed
  then obtain k where k: "k \<le> i" "(if j \<noteq> i then loop ?g2 ?inc8 (?st j) else Some (?st j)) = Some (?st k)"
    by (elim exE conjE) (rule that)
  have "\<exists>l. k \<le> l \<and> l \<le> i \<and> True \<and> \<not> l \<noteq> i \<and> loop ?g3 ?inc (?st k) = Some (?st l)"
  proof (rule loop_scan [where d = 1 and st = ?st])
    fix j assume j: "j \<le> i"
    show "?g3 (?st j) = Some (j \<noteq> i)"
      using byte [OF j] left [OF j] j iN by (auto simp: load_def)
  qed (use k(1) in \<open>auto simp: algebra_simps\<close>)
  then have l: "loop ?g3 ?inc (?st k) = Some (?st i)" by (elim exE conjE) simp
  have j3: "loop ?g1 ?inc (a, n) = Some (?st j)" using j(3) by simp
  have fin: "(if n - of_nat i \<noteq> 0 then a + of_nat i else 0) = (if i < N then a + of_nat i else 0)"
    using left(1) [of i] iN by simp
  show ?thesis
    unfolding memchr_def Let_def cc_def [symmetric] N_def [symmetric]
    by (simp only: j3 Option.bind.simps prod.case go [unfolded prod.case] k(2) l fin)
qed

subsection \<open>Properties\<close>

text \<open>
  C2. \<open>strlen\<close> returns the length of the string and faults on no page it may touch: it ends,
  at any alignment, although its word loop reads beyond the terminator, as long as memory is
  mapped in whole aligned words.
\<close>

theorem strlen_correct:
  assumes "cstring m a bs" and "word_granular m"
  shows "strlen m a = Some (of_nat (length bs))"
  using assms by (rule strlen_eq)

lemma block_bounds:
  fixes L H A :: nat
  assumes "L mod 8 = 0" "H mod 8 = 0" "L \<le> A" "A < H"
  shows "L \<le> A - A mod 8" and "A - A mod 8 + 8 \<le> H"
proof -
  have L: "L = 8 * (L div 8)" and H: "H = 8 * (H div 8)" using assms(1,2) by auto
  have A: "A - A mod 8 = 8 * (A div 8)" by (simp add: minus_mod_eq_mult_div)
  have "L div 8 \<le> A div 8" using assms(3) by (rule div_le_mono)
  then show "L \<le> A - A mod 8" unfolding A by (subst L) simp
  have "A div 8 < H div 8" using assms(4) H by (simp add: less_mult_imp_div_less mult.commute)
  then show "A - A mod 8 + 8 \<le> H" unfolding A by (subst H) simp
qed

lemma word_granular_block:
  assumes "lo mod 8 = 0" "hi mod 8 = 0"
  shows "word_granular (\<lambda>a. if lo \<le> a \<and> a < hi then Some (f a) else None)"
proof -
  have "lo \<le> a - a mod 8 + of_nat i \<and> a - a mod 8 + of_nat i < hi"
    if a: "lo \<le> a" "a < hi" and i: "i < 8" for a :: u64 and i :: nat
  proof -
    have m8: "unat (a mod 8) = unat a mod 8" by (simp add: unat_mod)
    have al: "unat lo mod 8 = 0" "unat hi mod 8 = 0"
      using assms [THEN arg_cong [where f = unat]] by (simp_all add: unat_mod)
    have lt: "unat lo \<le> unat a" "unat a < unat hi" using a by (simp_all add: word_le_nat_alt word_less_nat_alt)
    have le: "unat lo \<le> unat a - unat a mod 8" "unat a - unat a mod 8 + i < unat hi"
      using block_bounds [OF al lt] i by simp_all
    have "a mod 8 \<le> a" using m8 by (simp add: word_le_nat_alt)
    then have s: "unat (a - a mod 8) = unat a - unat a mod 8" using m8 by (simp add: unat_sub)
    have "unat (of_nat i :: u64) = i" using i by (simp add: unat_of_nat_64)
    then have "unat (a - a mod 8 + of_nat i) = unat a - unat a mod 8 + i"
      using le(2) s unat_64_lt [of hi] by (simp add: unat_add_lem [THEN iffD1])
    with le show ?thesis by (simp add: word_le_nat_alt word_less_nat_alt)
  qed
  then show ?thesis by (auto simp: word_granular_def)
qed

theorem strlen_correct_witness:
  "strlen (\<lambda>a. if 0x1000 \<le> a \<and> a < 0x1010 then Some (if a < 0x100D then 65 else 0) else None) 0x1003 =
     Some 10"
proof -
  let ?m = "\<lambda>a :: u64. if 0x1000 \<le> a \<and> a < 0x1010 then Some (if a < 0x100D then 65 else 0 :: u8) else None"
  have "bytes_at ?m 0x1003 (replicate 10 65 @ [0])" by code_simp
  then have "cstring ?m 0x1003 (replicate 10 65)" by (simp add: cstring_def)
  moreover have "word_granular ?m" by (rule word_granular_block) simp_all
  ultimately have "strlen ?m 0x1003 = Some (of_nat (length (replicate 10 (65 :: u8))))"
    by (rule strlen_correct)
  then show ?thesis by simp
qed

end
