(* ===== verification/Comparator.thy ===== *)
theory Comparator
  imports Prelude
begin

text \<open>
  The contract of the comparison functions passed to \<open>qsort\<close>, \<open>bsearch\<close> and \<open>tsearch\<close>: the sign of
  the result orders the elements, and elements that compare as 0 are equivalent.
\<close>

locale comparator =
  fixes cmp :: "'a \<Rightarrow> 'a \<Rightarrow> int"
  assumes cmp_flip: "0 < cmp x y \<longleftrightarrow> cmp y x < 0"
    and cmp_trans: "cmp x y \<le> 0 \<Longrightarrow> cmp y z \<le> 0 \<Longrightarrow> cmp x z \<le> 0"
begin

lemma cmp_refl [simp]: "cmp x x = 0"
  using cmp_flip [of x x] by linarith

lemma cmp_zero_sym: "cmp x y = 0 \<longleftrightarrow> cmp y x = 0"
  using cmp_flip [of x y] cmp_flip [of y x] by linarith

lemma cmp_less_trans: "cmp x y < 0 \<Longrightarrow> cmp y z \<le> 0 \<Longrightarrow> cmp x z < 0"
  using cmp_trans [of y z x] cmp_flip [of x y] cmp_flip [of z x] cmp_flip [of x z] cmp_flip [of y x]
  by linarith

lemma cmp_le_less_trans: "cmp x y \<le> 0 \<Longrightarrow> cmp y z < 0 \<Longrightarrow> cmp x z < 0"
  using cmp_trans [of z x y] cmp_flip [of x z] cmp_flip [of z x] cmp_flip [of z y] cmp_flip [of y z]
  by linarith

lemma cmp_nonpos: "cmp x y \<le> 0 \<longleftrightarrow> 0 \<le> cmp y x"
  using cmp_flip [of x y] cmp_flip [of y x] by linarith

lemma cmp_zero_left: "cmp x y = 0 \<Longrightarrow> cmp x z < 0 \<longleftrightarrow> cmp y z < 0"
  using cmp_le_less_trans [of x y z] cmp_le_less_trans [of y x z] cmp_zero_sym [of x y] by auto

lemma cmp_zero_right: "cmp y z = 0 \<Longrightarrow> cmp x y < 0 \<longleftrightarrow> cmp x z < 0"
  using cmp_less_trans [of x y z] cmp_less_trans [of x z y] cmp_zero_sym [of y z] by auto

end

lemma int_comparator: "comparator (\<lambda>x y :: int. x - y)"
  by unfold_locales auto

text \<open>What the library sorts into.\<close>

definition sorted_by :: "('a \<Rightarrow> 'a \<Rightarrow> int) \<Rightarrow> 'a list \<Rightarrow> bool" where
  "sorted_by cmp xs \<longleftrightarrow> sorted_wrt (\<lambda>x y. cmp x y \<le> 0) xs"

definition strictly_sorted_by :: "('a \<Rightarrow> 'a \<Rightarrow> int) \<Rightarrow> 'a list \<Rightarrow> bool" where
  "strictly_sorted_by cmp xs \<longleftrightarrow> sorted_wrt (\<lambda>x y. cmp x y < 0) xs"

end
