(* ===== verification/CStringOps.thy ===== *)
theory CStringOps
  imports CStringScan Comparator
begin

text \<open>
  Comparison, bounded copying and substring search of \<^verbatim>\<open>src/string.c\<close>: the functions over memory
  against functions on the lists of bytes the memory holds.
\<close>

subsection \<open>Comparison\<close>

text \<open>\<open>strcmp\<close> on the bytes of two strings.\<close>

fun list_cmp :: "u8 list \<Rightarrow> u8 list \<Rightarrow> int" where
  "list_cmp [] [] = 0"
| "list_cmp [] (y # ys) = - uint y"
| "list_cmp (x # xs) [] = uint x"
| "list_cmp (x # xs) (y # ys) = (if x = y then list_cmp xs ys else uint x - uint y)"

lemma uint_pos: "(x :: u8) \<noteq> 0 \<longleftrightarrow> 0 < uint x"
  by (simp add: word_neq_0_conv word_less_def)

lemma list_cmp_flip:
  "0 \<notin> set xs \<Longrightarrow> 0 \<notin> set ys \<Longrightarrow> 0 < list_cmp xs ys \<longleftrightarrow> list_cmp ys xs < 0"
  by (induction xs ys rule: list_cmp.induct) (auto simp: uint_pos)

lemma list_cmp_trans:
  "0 \<notin> set xs \<Longrightarrow> 0 \<notin> set ys \<Longrightarrow> 0 \<notin> set zs \<Longrightarrow>
     list_cmp xs ys \<le> 0 \<Longrightarrow> list_cmp ys zs \<le> 0 \<Longrightarrow> list_cmp xs zs \<le> 0"
proof (induction xs ys arbitrary: zs rule: list_cmp.induct)
  case (1 zs)
  then show ?case by simp
next
  case (2 y ys zs)
  then show ?case by (cases zs) auto
next
  case (3 x xs zs)
  then show ?case by (auto simp: uint_pos)
next
  case (4 x xs y ys zs)
  show ?case
  proof (cases zs)
    case Nil
    with 4 show ?thesis by (auto simp: uint_pos split: if_splits)
  next
    case (Cons z zs')
    have ne: "uint a = uint b \<longleftrightarrow> a = b" for a b :: u8 by (simp add: word_uint_eq_iff)
    show ?thesis
    proof (cases "x = y \<and> y = z")
      case True
      with 4 Cons show ?thesis by auto
    next
      case False
      with 4 Cons ne [of x y] ne [of y z] ne [of x z] show ?thesis by (auto split: if_splits)
    qed
  qed
qed

text \<open>A string ends at its first NUL.\<close>

definition str_cmp :: "u8 list \<Rightarrow> u8 list \<Rightarrow> int" where
  "str_cmp xs ys = list_cmp (takeWhile (\<lambda>b. b \<noteq> 0) xs) (takeWhile (\<lambda>b. b \<noteq> 0) ys)"

lemma no_nul: "0 \<notin> set (takeWhile (\<lambda>b. b \<noteq> 0) (xs :: u8 list))"
  by (auto dest: set_takeWhileD)

lemma str_cmp_strings: "0 \<notin> set xs \<Longrightarrow> 0 \<notin> set ys \<Longrightarrow> str_cmp xs ys = list_cmp xs ys"
proof -
  assume "0 \<notin> set xs" "0 \<notin> set ys"
  then have "takeWhile (\<lambda>b. b \<noteq> 0) xs = xs" "takeWhile (\<lambda>b. b \<noteq> 0) ys = ys"
    by (auto simp: takeWhile_eq_all_conv)
  then show ?thesis by (simp only: str_cmp_def)
qed

interpretation strings: comparator str_cmp
proof
  show "0 < str_cmp x y \<longleftrightarrow> str_cmp y x < 0" for x y
    unfolding str_cmp_def by (rule list_cmp_flip [OF no_nul no_nul])
  show "str_cmp x y \<le> 0 \<Longrightarrow> str_cmp y z \<le> 0 \<Longrightarrow> str_cmp x z \<le> 0" for x y z
    unfolding str_cmp_def by (rule list_cmp_trans [OF no_nul no_nul no_nul])
qed

text \<open>The length of the common prefix, where \<open>strcmp\<close> stops.\<close>

fun common :: "u8 list \<Rightarrow> u8 list \<Rightarrow> nat" where
  "common (x # xs) (y # ys) = (if x = y then Suc (common xs ys) else 0)"
| "common _ _ = 0"

lemma common_le: "common xs ys \<le> length xs \<and> common xs ys \<le> length ys"
  by (induction xs ys rule: common.induct) auto

lemma common_nth: "i < common xs ys \<Longrightarrow> xs ! i = ys ! i"
  by (induction xs ys arbitrary: i rule: common.induct) (auto simp: nth_Cons split: if_splits nat.splits)

lemma list_cmp_common:
  "list_cmp xs ys = uint ((xs @ [0]) ! common xs ys) - uint ((ys @ [0]) ! common xs ys)"
  by (induction xs ys rule: list_cmp.induct) (auto simp: nth_append)

lemma common_stop:
  "0 \<notin> set xs \<Longrightarrow> 0 \<notin> set ys \<Longrightarrow> (xs @ [0]) ! common xs ys = (ys @ [0]) ! common xs ys \<Longrightarrow>
     (xs @ [0]) ! common xs ys = 0"
  by (induction xs ys rule: list_cmp.induct) (auto split: if_splits)

lemma cstring_bytes: "cstring m a bs \<Longrightarrow> i \<le> length bs \<Longrightarrow> m (a + of_nat i) = Some ((bs @ [0]) ! i)"
  using cstring_byte [of m a bs i] cstring_nul [of m a bs] by (cases "i = length bs") (auto simp: nth_append)

lemma strcmp_eq:
  assumes a: "cstring m l xs" and b: "cstring m r ys"
  shows "strcmp m l r = Some (str_cmp xs ys)"
proof -
  have nz: "0 \<notin> set xs" "0 \<notin> set ys" using a b by (auto simp: cstring_def)
  let ?n = "common xs ys" and ?st = "\<lambda>i. (l + of_nat i, r + of_nat i) :: u64 \<times> u64"
  let ?c = "\<lambda>(l, r). do { x \<leftarrow> load m l; y \<leftarrow> load m r; Some (x = y \<and> x \<noteq> 0) }"
  let ?f = "\<lambda>(l, r). Some (l + 1, r + 1) :: (u64 \<times> u64) option"
  have ld: "load m (l + of_nat i) = Some ((xs @ [0]) ! i)" "load m (r + of_nat i) = Some ((ys @ [0]) ! i)" if "i \<le> ?n" for i
    using that common_le [of xs ys] cstring_bytes [OF a, of i] cstring_bytes [OF b, of i] by (auto simp: load_def)
  have "loop ?c ?f (?st 0) = Some (?st ?n)"
  proof (rule loop_iterate)
    fix i
    assume i: "i < ?n"
    have "i < length xs" "i < length ys" using i common_le [of xs ys] by auto
    then have "(xs @ [0]) ! i = (ys @ [0]) ! i" "(xs @ [0]) ! i \<noteq> 0"
      using common_nth [OF i] cstring_nonzero [OF a, of i] by (auto simp: nth_append)
    then show "?c (?st i) = Some True" using ld [of i] i by simp
  next
    show "?c (?st ?n) = Some False" using ld [of ?n] common_stop [OF nz] by auto
  qed (simp add: algebra_simps)
  then have "strcmp m l r = Some (uint ((xs @ [0]) ! ?n) - uint ((ys @ [0]) ! ?n))"
    using ld [of ?n] by (simp add: strcmp_def)
  then show ?thesis using list_cmp_common nz by (simp add: str_cmp_strings)
qed

text \<open>\<open>memcmp\<close> and its constant-time relative on two blocks of the same length.\<close>

fun block_cmp :: "u8 list \<Rightarrow> u8 list \<Rightarrow> int" where
  "block_cmp (x # xs) (y # ys) = (if x = y then block_cmp xs ys else uint x - uint y)"
| "block_cmp _ _ = 0"

lemma block_cmp_common:
  "length xs = length ys \<Longrightarrow> block_cmp xs ys =
     (if common xs ys = length xs then 0 else uint (xs ! common xs ys) - uint (ys ! common xs ys))"
  by (induction xs ys rule: block_cmp.induct) auto

lemma common_differs:
  "length xs = length ys \<Longrightarrow> common xs ys < length xs \<Longrightarrow> xs ! common xs ys \<noteq> ys ! common xs ys"
  by (induction xs ys rule: block_cmp.induct) (auto split: if_splits)

lemma memcmp_eq:
  assumes "bytes_at m a xs" "bytes_at m b ys" "length xs = unat n" "length ys = unat n"
  shows "memcmp m a b n = Some (block_cmp xs ys)"
proof -
  let ?k = "common xs ys" and ?st = "\<lambda>i. (a + of_nat i, b + of_nat i, n - of_nat i) :: u64 \<times> u64 \<times> u64"
  let ?c = "\<lambda>(l, r, n :: u64). if n = 0 then Some False else do { x \<leftarrow> load m l; y \<leftarrow> load m r; Some (x = y) }"
  let ?f = "\<lambda>(l, r, n). Some (l + 1, r + 1, n - 1) :: (u64 \<times> u64 \<times> u64) option"
  have left: "n - of_nat i = 0 \<longleftrightarrow> i = length xs" if "i \<le> length xs" for i
  proof -
    have "n - of_nat i = 0 \<longleftrightarrow> unat n = i"
      using that assms(3) unat_64_lt [of n] by (metis eq_iff_diff_eq_0 le_less_trans of_nat_unat_64 unat_of_nat_64)
    with assms(3) show ?thesis by auto
  qed
  have k: "?k \<le> length xs" "?k \<le> length ys" using common_le [of xs ys] by auto
  have ld: "load m (a + of_nat i) = Some (xs ! i)" "load m (b + of_nat i) = Some (ys ! i)" if "i < length xs" for i
    using that assms by (auto simp: load_def bytes_at_def)
  have "loop ?c ?f (?st 0) = Some (?st ?k)"
  proof (rule loop_iterate)
    fix i
    assume i: "i < ?k"
    then have "i < length xs" using k by simp
    then show "?c (?st i) = Some True" using ld [of i] left [of i] common_nth [OF i] by simp
  next
    show "?c (?st ?k) = Some False"
      using ld [of ?k] left [of ?k] k common_differs [of xs ys] assms(3,4) by (cases "?k = length xs") auto
  qed (simp add: algebra_simps)
  then show ?thesis
    using ld [of ?k] left [of ?k] k assms(3,4) by (cases "?k = length xs") (auto simp: memcmp_def block_cmp_common)
qed

lemma uint8_diff: "\<bar>uint (x :: u8) - uint (y :: u8)\<bar> < 256"
proof -
  have "uint x < 256" "uint y < 256"
    using unsigned_less [of x, where ?'a = int] unsigned_less [of y, where ?'a = int] by simp_all
  moreover have "0 \<le> uint x" "0 \<le> uint y" by simp_all
  ultimately show ?thesis by linarith
qed

lemma drop_bit_sign:
  assumes "\<bar>d\<bar> < 256"
  shows "drop_bit 8 d = (if d < 0 then - 1 else (0 :: int))"
  using assms by (auto simp: drop_bit_eq_div)

text \<open>Once a difference was seen, \<open>dn\<close> is all ones and the result stays.\<close>

lemma timingsafe_done:
  assumes "bytes_at m p xs" "bytes_at m q ys" "length xs = i + k" "length ys = i + k"
  shows "timingsafe_memcmp_loop m p q res (- 1) i k = Some res"
  using assms
proof (induction k arbitrary: i)
  case (Suc k)
  then have "m (p + of_nat i) = Some (xs ! i)" "m (q + of_nat i) = Some (ys ! i)"
    by (auto simp: bytes_at_def)
  with Suc show ?case by (simp add: load_def Let_def)
qed simp

lemma timingsafe_loop:
  assumes "bytes_at m p xs" "bytes_at m q ys" "length xs = i + k" "length ys = i + k"
  shows "timingsafe_memcmp_loop m p q 0 0 i k = Some (sgn (block_cmp (drop i xs) (drop i ys)))"
  using assms
proof (induction k arbitrary: i)
  case (Suc k)
  then have ld: "load m (p + of_nat i) = Some (xs ! i)" "load m (q + of_nat i) = Some (ys ! i)"
    and d: "drop i xs = xs ! i # drop (Suc i) xs" "drop i ys = ys ! i # drop (Suc i) ys"
    by (auto simp: bytes_at_def load_def Cons_nth_drop_Suc)
  have b: "\<bar>uint (xs ! i) - uint (ys ! i)\<bar> < 256" "\<bar>uint (ys ! i) - uint (xs ! i)\<bar> < 256"
    by (rule uint8_diff)+
  consider "uint (xs ! i) < uint (ys ! i)" | "uint (ys ! i) < uint (xs ! i)" | "xs ! i = ys ! i"
    by (metis linorder_neqE_linordered_idom word_uint_eq_iff)
  then show ?case
  proof cases
    case 1
    then have "timingsafe_memcmp_loop m p q 0 0 i (Suc k) = timingsafe_memcmp_loop m p q (- 1) (- 1) (Suc i) k"
      using ld b by (simp add: Let_def drop_bit_sign)
    with 1 timingsafe_done [OF Suc.prems(1,2), of "Suc i" k] Suc.prems(3,4) d show ?thesis by auto
  next
    case 2
    then have "timingsafe_memcmp_loop m p q 0 0 i (Suc k) = timingsafe_memcmp_loop m p q 1 (- 1) (Suc i) k"
      using ld b by (simp add: Let_def drop_bit_sign)
    with 2 timingsafe_done [OF Suc.prems(1,2), of "Suc i" k] Suc.prems(3,4) d show ?thesis by auto
  next
    case 3
    then show ?thesis using ld Suc.IH [of "Suc i"] Suc.prems d by (simp add: Let_def)
  qed
qed simp

subsection \<open>Bounded copying\<close>






subsection \<open>Substring search\<close>






subsection \<open>Properties\<close>

lemma list_cmp_lex:
  "0 \<notin> set xs \<Longrightarrow> 0 \<notin> set ys \<Longrightarrow> (list_cmp xs ys = 0 \<longleftrightarrow> xs = ys) \<and>
     (list_cmp xs ys < 0 \<longleftrightarrow> (xs, ys) \<in> lexord {(x, y). x < y})"
  by (induction xs ys rule: list_cmp.induct) (auto simp: uint_pos word_less_def word_uint_eq_iff [symmetric])

text \<open>
  C13. \<open>strcmp\<close> of two strings ends inside them; its result is zero exactly for equal strings and
  negative exactly when the first comes before the second in the dictionary order of unsigned
  bytes.
\<close>

theorem strcmp_correct:
  assumes "cstring m l xs" "cstring m r ys"
  shows "\<exists>c. strcmp m l r = Some c \<and> (c = 0 \<longleftrightarrow> xs = ys) \<and> (c < 0 \<longleftrightarrow> (xs, ys) \<in> lexord {(x, y). x < y})"
proof -
  have "0 \<notin> set xs" "0 \<notin> set ys" using assms by (auto simp: cstring_def)
  then show ?thesis using strcmp_eq [OF assms] list_cmp_lex str_cmp_strings by simp
qed

theorem strcmp_correct_witness:
  "\<exists>c. strcmp [0 \<mapsto> 65, 1 \<mapsto> 200, 2 \<mapsto> 0, 3 \<mapsto> 65, 4 \<mapsto> 0] 0 3 = Some c \<and> \<not> c < 0"
proof -
  let ?m = "[0 \<mapsto> 65, 1 \<mapsto> 200, 2 \<mapsto> 0, 3 \<mapsto> 65, 4 \<mapsto> 0] :: mem"
  have "bytes_at ?m 0 ([65, 200] @ [0])" "bytes_at ?m 3 ([65] @ [0])" by code_simp+
  then have "cstring ?m 0 [65, 200]" "cstring ?m 3 [65]" by (simp_all add: cstring_def)
  from strcmp_correct [OF this] show ?thesis by auto
qed

text \<open>
  C14. \<open>timingsafe_memcmp\<close> returns the sign of what \<open>memcmp\<close> returns for the same blocks.
\<close>

theorem timingsafe_memcmp_agrees:
  assumes "bytes_at m a xs" "bytes_at m b ys" "length xs = unat n" "length ys = unat n"
  shows "\<exists>c. memcmp m a b n = Some c \<and> timingsafe_memcmp m a b n = Some (sgn c)"
  using memcmp_eq [OF assms] timingsafe_loop [OF assms(1,2), of 0 "unat n"] assms(3,4)
  by (simp add: timingsafe_memcmp_def)

theorem timingsafe_memcmp_agrees_witness:
  "\<exists>c. memcmp [0 \<mapsto> 7, 1 \<mapsto> 1, 2 \<mapsto> 7, 3 \<mapsto> 255] 0 2 2 = Some c \<and>
     timingsafe_memcmp [0 \<mapsto> 7, 1 \<mapsto> 1, 2 \<mapsto> 7, 3 \<mapsto> 255] 0 2 2 = Some (sgn c)"
proof -
  let ?m = "[0 \<mapsto> 7, 1 \<mapsto> 1, 2 \<mapsto> 7, 3 \<mapsto> 255] :: mem"
  have "bytes_at ?m 0 [7, 1]" "bytes_at ?m 2 [7, 255]" by code_simp+
  then show ?thesis by (rule timingsafe_memcmp_agrees) simp_all
qed





end
