(* ===== verification/CText.thy ===== *)
theory CText
  imports Ctype
begin

text \<open>
  Reading a NUL-terminated string that is not written to: the string is the list of its
  bytes before the NUL, a position is an index, and reading past the NUL is a fault
  (\<open>None\<close>).  The lemmas give the closed form of the loops every parser here is made of.
\<close>

definition byte_at :: "u8 list \<Rightarrow> nat \<Rightarrow> u8 option" where
  "byte_at s i = (if i < length s then Some (s ! i) else if i = length s then Some 0 else None)"

lemma byte_at_nth [simp]: "i < length s \<Longrightarrow> byte_at s i = Some (s ! i)"
  by (simp add: byte_at_def)

lemma byte_at_end [simp]: "byte_at s (length s) = Some 0"
  by (simp add: byte_at_def)

lemma byte_at_drop: "i \<le> length s \<Longrightarrow> byte_at s i = Some (case drop i s of [] \<Rightarrow> 0 | c # _ \<Rightarrow> c)"
  by (auto simp: byte_at_def Cons_nth_drop_Suc [symmetric])

lemma byte_at_none: "length s < i \<Longrightarrow> byte_at s i = None"
  by (simp add: byte_at_def)

lemma drop_takeWhile_Cons:
  assumes "takeWhile P (drop i s) = c # cs"
  shows "i < length s \<and> s ! i = c \<and> P c \<and> takeWhile P (drop (Suc i) s) = cs"
proof -
  have "i < length s" using assms by (cases "i < length s") auto
  then have "drop i s = s ! i # drop (Suc i) s" by (simp add: Cons_nth_drop_Suc)
  with assms \<open>i < length s\<close> show ?thesis by (auto split: if_splits)
qed

lemma drop_takeWhile_Nil:
  assumes "takeWhile P (drop i s) = []" "i \<le> length s" "\<not> P 0"
  shows "\<exists>c. byte_at s i = Some c \<and> \<not> P c"
proof (cases "i < length s")
  case True
  then have "drop i s = s ! i # drop (Suc i) s" by (simp add: Cons_nth_drop_Suc)
  with assms True show ?thesis by (auto split: if_splits)
next
  case False
  with assms show ?thesis by (auto simp: byte_at_def)
qed

text \<open>A loop over the bytes with \<open>P\<close>, accumulating with \<open>f\<close>.\<close>

lemma loop_bytes:
  assumes "i \<le> length s" "\<not> P 0"
    and c: "\<And>i x. c (i, x) = do { b \<leftarrow> byte_at s i; Some (P b) }"
    and g: "\<And>i x. g (i, x) = do { b \<leftarrow> byte_at s i; Some (Suc i, f x b) }"
  shows "loop c g (i, x) =
    Some (i + length (takeWhile P (drop i s)), foldl f x (takeWhile P (drop i s)))"
  using assms(1)
proof (induction "takeWhile P (drop i s)" arbitrary: i x)
  case Nil
  from drop_takeWhile_Nil [OF Nil(1) [symmetric] Nil(2) assms(2)] Nil(1) [symmetric]
  show ?case by (auto intro: loop_done simp: c)
next
  case (Cons b bs)
  note d = drop_takeWhile_Cons [OF Cons(2) [symmetric]]
  have "loop c g (i, x) = loop c g (Suc i, f x b)"
    using d by (intro loop_step) (auto simp: c g)
  with Cons(1) [of "Suc i" "f x b"] Cons(2) [symmetric] d show ?case by simp
qed

lemma loop_skip:
  assumes "i \<le> length s" "\<not> P 0"
    and c: "\<And>i. c i = do { b \<leftarrow> byte_at s i; Some (P b) }" and g: "\<And>i. g i = Some (Suc i)"
  shows "loop c g i = Some (i + length (takeWhile P (drop i s)))"
  using assms(1)
proof (induction "takeWhile P (drop i s)" arbitrary: i)
  case Nil
  from drop_takeWhile_Nil [OF Nil(1) [symmetric] Nil(2) assms(2)] Nil(1) [symmetric]
  show ?case by (auto intro: loop_done simp: c)
next
  case (Cons b bs)
  note d = drop_takeWhile_Cons [OF Cons(2) [symmetric]]
  have "loop c g i = loop c g (Suc i)" using d by (intro loop_step) (auto simp: c g)
  with Cons(1) [of "Suc i"] Cons(2) [symmetric] d show ?case by simp
qed

lemma length_takeWhile_drop_le: "i \<le> length s \<Longrightarrow> i + length (takeWhile P (drop i s)) \<le> length s"
  using length_takeWhile_le [of P "drop i s"] by simp

lemma drop_add_takeWhile: "drop (i + length (takeWhile P (drop i s))) s = dropWhile P (drop i s)"
  by (metis add.commute drop_drop dropWhile_eq_drop)

text \<open>A position given by the bytes that are left.\<close>

definition suffix_at :: "u8 list \<Rightarrow> nat \<Rightarrow> u8 list \<Rightarrow> bool" where
  "suffix_at s i t \<longleftrightarrow> i \<le> length s \<and> drop i s = t"

lemma suffix_atD: "suffix_at s i t \<Longrightarrow> i \<le> length s" "suffix_at s i t \<Longrightarrow> drop i s = t"
  "suffix_at s i t \<Longrightarrow> length t = length s - i"
  by (auto simp: suffix_at_def)

lemma suffix_at_pos: "suffix_at s i t \<Longrightarrow> i = length s - length t"
  by (auto simp: suffix_at_def)

lemma suffix_at_drop: "suffix_at s i t \<Longrightarrow> k \<le> length t \<Longrightarrow> suffix_at s (i + k) (drop k t)"
  by (auto simp: suffix_at_def add.commute)

lemma suffix_at_Cons: "suffix_at s i (c # t) \<Longrightarrow> suffix_at s (Suc i) t"
  using suffix_at_drop [of s i "c # t" 1] by simp

lemma byte_at_suffix: "suffix_at s i t \<Longrightarrow> k \<le> length t \<Longrightarrow>
    byte_at s (i + k) = Some (if k < length t then t ! k else 0)"
  by (auto simp: suffix_at_def byte_at_def)

lemma byte_at_suffix_0: "suffix_at s i t \<Longrightarrow> byte_at s i = Some (case t of [] \<Rightarrow> 0 | c # _ \<Rightarrow> c)"
  using byte_at_suffix [of s i t 0] by (cases t) auto

end
