(* ===== verification/Strtol.thy ===== *)
theory Strtol
  imports CText
begin

text \<open>
  \<^verbatim>\<open>src/strtol.c\<close>: integer parsing.  A conversion returns the value, the offset the end pointer
  is set to and the errno value it sets, if any.  The accumulator is a 64-bit word with the
  overflow flag of \<open>__builtin_mul_overflow\<close> and \<open>__builtin_add_overflow\<close>.
\<close>

subsection \<open>The functions\<close>

definition digit_val :: "int \<Rightarrow> int" where
  "digit_val c =
     (if uns c - 0x30 < 10 then c - 0x30
      else let c = c OR 32 in if uns c - 0x61 < 26 then c - 0x61 + 10 else 99)"

definition mul_overflow :: "u64 \<Rightarrow> u64 \<Rightarrow> u64 \<times> bool" where
  "mul_overflow a b = (a * b, uint a * uint b \<ge> 2 ^ 64)"

definition add_overflow :: "u64 \<Rightarrow> u64 \<Rightarrow> u64 \<times> bool" where
  "add_overflow a b = (a + b, uint a + uint b \<ge> 2 ^ 64)"

definition acc_digit :: "int \<Rightarrow> u64 \<times> bool \<Rightarrow> u8 \<Rightarrow> u64 \<times> bool" where
  "acc_digit base = (\<lambda>(acc, ovf) c.
     let (acc, o1) = mul_overflow acc (word_of_int base) in
     if o1 then (acc, True)
     else let (acc, o2) = add_overflow acc (word_of_int (digit_val (uint c))) in (acc, ovf \<or> o2))"

definition strtox :: "u8 list \<Rightarrow> int \<Rightarrow> bool \<Rightarrow> u64 \<Rightarrow> (u64 \<times> nat \<times> errno option) option" where
  "strtox s0 base is_signed vmax =
     (if base < 0 \<or> base = 1 \<or> base > 36 then Some (0, 0, Some EINVAL)
      else do {
        s \<leftarrow> loop (\<lambda>s. do { c \<leftarrow> byte_at s0 s; Some (isspace (uint c)) }) (\<lambda>s. Some (Suc s)) 0;
        c \<leftarrow> byte_at s0 s;
        let (neg, s) = (if c = 0x2b \<or> c = 0x2d then (c = 0x2d, s + 1) else (False, s));
        hex \<leftarrow> (if base = 0 \<or> base = 16 then do {
            c0 \<leftarrow> byte_at s0 s;
            if c0 = 0x30 then do {
              c1 \<leftarrow> byte_at s0 (s + 1);
              if c1 OR 32 = 0x78 then do {
                c2 \<leftarrow> byte_at s0 (s + 2); Some (digit_val (uint c2) < 16) }
              else Some False }
            else Some False }
          else Some False);
        (s, base) \<leftarrow> (if hex then Some (s + 2, 16)
          else if base = 0 then do { c \<leftarrow> byte_at s0 s; Some (s, if c = 0x30 then 8 else 10) }
          else Some (s, base));
        let start = s;
        (s, acc, ovf) \<leftarrow> loop
          (\<lambda>(s, a). do { c \<leftarrow> byte_at s0 s; Some (digit_val (uint c) < base) })
          (\<lambda>(s, a). do { c \<leftarrow> byte_at s0 s; Some (Suc s, acc_digit base a c) }) (s, 0, False);
        let end = (if s = start then 0 else s);
        Some (if s = start then (0, end, None)
          else if is_signed then
            let lim = (if neg then vmax + 1 else vmax) in
            if ovf \<or> acc > lim then (if neg then - vmax - 1 else vmax, end, Some ERANGE)
            else (if neg then - acc else acc, end, None)
          else if ovf \<or> acc > vmax then (vmax, end, Some ERANGE)
          else (if neg then - acc else acc, end, None)) })"

abbreviation LONG_MAX :: u64 where
  "LONG_MAX \<equiv> 0x7fffffffffffffff"

abbreviation ULONG_MAX :: u64 where
  "ULONG_MAX \<equiv> 0xffffffffffffffff"

definition strtol :: "u8 list \<Rightarrow> int \<Rightarrow> (int \<times> nat \<times> errno option) option" where
  "strtol s base = map_option (\<lambda>(v, e). (sint v, e)) (strtox s base True LONG_MAX)"

definition strtoul :: "u8 list \<Rightarrow> int \<Rightarrow> (u64 \<times> nat \<times> errno option) option" where
  "strtoul s base = strtox s base False ULONG_MAX"

definition strtoll :: "u8 list \<Rightarrow> int \<Rightarrow> (int \<times> nat \<times> errno option) option" where
  "strtoll s base = map_option (\<lambda>(v, e). (sint v, e)) (strtox s base True LONG_MAX)"

definition strtoull :: "u8 list \<Rightarrow> int \<Rightarrow> (u64 \<times> nat \<times> errno option) option" where
  "strtoull s base = strtox s base False ULONG_MAX"

definition strtoimax :: "u8 list \<Rightarrow> int \<Rightarrow> (int \<times> nat \<times> errno option) option" where
  "strtoimax s base = map_option (\<lambda>(v, e). (sint v, e)) (strtox s base True LONG_MAX)"

definition strtoumax :: "u8 list \<Rightarrow> int \<Rightarrow> (u64 \<times> nat \<times> errno option) option" where
  "strtoumax s base = strtox s base False ULONG_MAX"

definition atoi :: "u8 list \<Rightarrow> int option" where
  "atoi s = do {
     (v, _) \<leftarrow> strtol s 10;
     Some (if v > 2 ^ 31 - 1 then 2 ^ 31 - 1 else if v < - (2 ^ 31) then - (2 ^ 31) else v) }"

definition atol :: "u8 list \<Rightarrow> int option" where
  "atol s = map_option fst (strtol s 10)"

definition atoll :: "u8 list \<Rightarrow> int option" where
  "atoll s = map_option fst (strtoll s 10)"

text \<open>
  \<open>e\<close> is errno on entry, \<open>None\<close> for 0; the result is the value, the error string and errno.
\<close>

definition strtonum ::
    "u8 list \<Rightarrow> int \<Rightarrow> int \<Rightarrow> errno option \<Rightarrow> (int \<times> string option \<times> errno option) option" where
  "strtonum s minval maxval e =
     (if minval > maxval then Some (0, Some ''invalid'', Some EINVAL)
      else do {
        (v, end, err) \<leftarrow> strtoll s 10;
        bad \<leftarrow> (if end = 0 then Some True else do { c \<leftarrow> byte_at s end; Some (c \<noteq> 0) });
        Some (if bad then (0, Some ''invalid'', Some EINVAL)
          else if v = - (2 ^ 63) \<and> err = Some ERANGE \<or> v < minval
            then (0, Some ''too small'', Some ERANGE)
          else if v = 2 ^ 63 - 1 \<and> err = Some ERANGE \<or> v > maxval
            then (0, Some ''too large'', Some ERANGE)
          else (v, None, e)) })"

text \<open>The absolute value of a \<open>w\<close>-bit value; that of the least one overflows.\<close>

definition abs_w :: "nat \<Rightarrow> int \<Rightarrow> int option" where
  "abs_w w a = (if a < 0 then if a = - (2 ^ (w - 1)) then None else Some (- a) else Some a)"

text \<open>
  The divisions of \<open>w\<close>-bit values: by zero, and of the least value by \<open>- 1\<close>, the instruction
  traps.
\<close>

definition div_w :: "nat \<Rightarrow> int \<Rightarrow> int \<Rightarrow> (int \<times> int) option" where
  "div_w w n d = (if d = 0 \<or> n = - (2 ^ (w - 1)) \<and> d = - 1 then None else Some (cdiv n d, cmod n d))"

subsection \<open>What a numeral denotes\<close>

text \<open>
  The digits of the radix 36: \<open>0\<close> to \<open>9\<close>, then the letters in either case from 10 on; 36 for a byte
  that is no digit.  White space is blank, tab, newline, vertical tab, form feed and carriage return.
\<close>

definition digit_value :: "u8 \<Rightarrow> int" where
  "digit_value c =
     (if 0x30 \<le> uint c \<and> uint c \<le> 0x39 then uint c - 0x30
      else if 0x41 \<le> uint c \<and> uint c \<le> 0x5a then 10 + (uint c - 0x41)
      else if 0x61 \<le> uint c \<and> uint c \<le> 0x7a then 10 + (uint c - 0x61)
      else 36)"

definition white :: "u8 \<Rightarrow> bool" where
  "white c \<longleftrightarrow> c \<in> {0x20, 0x09, 0x0a, 0x0b, 0x0c, 0x0d}"

definition skip_space :: "u8 list \<Rightarrow> u8 list" where
  "skip_space = dropWhile white"

definition sign_of :: "u8 list \<Rightarrow> bool \<times> u8 list" where
  "sign_of t = (case t of [] \<Rightarrow> (False, t)
     | c # r \<Rightarrow> if c = 0x2b then (False, r) else if c = 0x2d then (True, r) else (False, t))"

definition has_hex_prefix :: "u8 list \<Rightarrow> bool" where
  "has_hex_prefix t = (case t of a # b # c # _ \<Rightarrow> a = 0x30 \<and> (b = 0x78 \<or> b = 0x58) \<and> digit_value c < 16
     | _ \<Rightarrow> False)"

definition radix_of :: "int \<Rightarrow> u8 list \<Rightarrow> int \<times> u8 list" where
  "radix_of base t =
     (if (base = 0 \<or> base = 16) \<and> has_hex_prefix t then (16, drop 2 t)
      else if base = 0 then (case t of c # _ \<Rightarrow> if c = 0x30 then 8 else 10 | [] \<Rightarrow> 10, t)
      else (base, t))"

abbreviation digit_in :: "int \<Rightarrow> u8 \<Rightarrow> bool" where
  "digit_in b c \<equiv> digit_value c < b"

definition num_val :: "int \<Rightarrow> u8 list \<Rightarrow> int" where
  "num_val b ds = foldl (\<lambda>v c. v * b + digit_value c) 0 ds"

text \<open>The sign, the radix, the digits and the unread rest of a string.\<close>

definition numeral_of :: "int \<Rightarrow> u8 list \<Rightarrow> bool \<times> int \<times> u8 list \<times> u8 list" where
  "numeral_of base s =
     (let (neg, t) = sign_of (skip_space s); (b, t) = radix_of base t
      in (neg, b, takeWhile (digit_in b) t, dropWhile (digit_in b) t))"

subsection \<open>The accumulator\<close>

lemma digit_val_value: "digit_value c = min 36 (digit_val (uint c))"
proof -
  let ?c = "uint c"
  have b: "bit ?c 5 \<longleftrightarrow> 32 \<le> ?c mod 64" by (rule bit5_iff)
  have up: "0x41 \<le> ?c \<Longrightarrow> ?c \<le> 0x5a \<Longrightarrow> \<not> 32 \<le> ?c mod 64" and low: "0x61 \<le> ?c \<Longrightarrow> ?c \<le> 0x7a \<Longrightarrow> 32 \<le> ?c mod 64"
    by presburger+
  have d: "uns ?c - 0x30 < 10 \<longleftrightarrow> 0x30 \<le> ?c \<and> ?c \<le> 0x39" using uns_range [of ?c "0x30" 10] by auto
  have l: "uns (?c OR 32) - 0x61 < 26 \<longleftrightarrow> 0x41 \<le> ?c \<and> ?c \<le> 0x5a \<or> 0x61 \<le> ?c \<and> ?c \<le> 0x7a"
    using uns_range [of "?c OR 32" "0x61" 26] or_32_range [of ?c "0x61" "0x7a"] by (auto simp: c_int_or_32)
  have "digit_val ?c = (if 0x30 \<le> ?c \<and> ?c \<le> 0x39 then ?c - 0x30
      else if 0x41 \<le> ?c \<and> ?c \<le> 0x5a \<or> 0x61 \<le> ?c \<and> ?c \<le> 0x7a then (?c OR 32) - 0x61 + 10 else 99)"
    by (simp only: digit_val_def Let_def d l)
  then show ?thesis
    using up low by (simp add: digit_value_def or_32_eq b)
qed

lemma isspace_white: "isspace (uint c) \<longleftrightarrow> white c"
proof -
  have "uint c = 0x20 \<or> 9 \<le> uint c \<and> uint c \<le> 13 \<longleftrightarrow> uint c \<in> {0x20, 9, 10, 11, 12, 13}" by auto
  then show ?thesis by (auto simp: isspace_iff white_def word_uint_eq_iff)
qed

lemma hex_mark: "c OR 32 = 0x78 \<longleftrightarrow> c = 0x78 \<or> c = (0x58 :: u8)"
proof -
  have "uint (c OR 32) = uint c OR 32" by (simp add: unsigned_or_eq)
  then have "c OR 32 = 0x78 \<longleftrightarrow> uint c OR 32 = 0x78" by (simp add: word_uint_eq_iff)
  also have "\<dots> \<longleftrightarrow> uint c = 0x78 \<or> uint c = 0x58" by (auto simp: or_32_eq bit5_iff)
  finally show ?thesis by (simp add: word_uint_eq_iff)
qed

lemma digit_value_nonneg: "0 \<le> digit_value c"
  by (simp add: digit_value_def)

lemma digit_value_0 [simp]: "digit_value 0 = 36"
  by (simp add: digit_value_def)

lemma digit_val_in: "b \<le> 36 \<Longrightarrow> digit_val (uint c) < b \<longleftrightarrow> digit_in b c"
  by (auto simp: digit_val_value)

lemma digit_val_digit: "b \<le> 36 \<Longrightarrow> digit_in b c \<Longrightarrow> digit_val (uint c) = digit_value c"
  by (auto simp: digit_val_value)

lemma digit_val_0 [simp]: "digit_val 0 = 99"
  by (simp add: digit_val_def uns_def)

lemma isspace_0 [simp]: "\<not> isspace 0"
  by (simp add: isspace_def uns_def)

lemma num_val_snoc: "num_val b (ds @ [c]) = num_val b ds * b + digit_value c"
  by (simp add: num_val_def)

lemma num_val_nonneg: "0 \<le> b \<Longrightarrow> 0 \<le> num_val b ds"
  by (induction ds rule: rev_induct) (simp_all add: num_val_snoc digit_value_nonneg, simp add: num_val_def)

lemma acc_digit_sound:
  assumes b: "2 \<le> b" "b \<le> 36" and ds: "\<forall>c \<in> set ds. digit_in b c"
  shows "(snd (foldl (acc_digit b) (0, False) ds) \<longleftrightarrow> 2 ^ 64 \<le> num_val b ds) \<and>
    (num_val b ds < 2 ^ 64 \<longrightarrow> uint (fst (foldl (acc_digit b) (0, False) ds)) = num_val b ds)"
  using ds
proof (induction ds rule: rev_induct)
  case Nil
  show ?case by (simp add: num_val_def)
next
  case (snoc c ds)
  let ?v = "num_val b ds" and ?d = "digit_value c"
  obtain acc ovf where a: "foldl (acc_digit b) (0, False) ds = (acc, ovf)" by fastforce
  have d: "0 \<le> ?d" "?d < 36" using digit_value_nonneg [of c] snoc.prems b by auto
  have dv: "digit_val (uint c) = ?d" using digit_val_digit [of b c] snoc.prems b by simp
  have v: "0 \<le> ?v" using b by (simp add: num_val_nonneg)
  have ub: "uint (word_of_int b :: u64) = b" "uint (word_of_int ?d :: u64) = ?d"
    using b d by (simp_all add: uint_word_of_int)
  from snoc a have IH: "ovf \<longleftrightarrow> 2 ^ 64 \<le> ?v" "?v < 2 ^ 64 \<Longrightarrow> uint acc = ?v" by auto
  have step: "foldl (acc_digit b) (0, False) (ds @ [c]) = acc_digit b (acc, ovf) c" using a by simp
  have grow: "?v \<le> ?v * b" using v b mult_left_mono [of 1 b ?v] by simp
  show ?case
  proof (cases "2 ^ 64 \<le> ?v")
    case True
    with IH have "ovf" by simp
    then have "snd (acc_digit b (acc, ovf) c)"
      by (simp add: acc_digit_def mul_overflow_def add_overflow_def dv)
    moreover have "2 ^ 64 \<le> ?v * b + ?d" using True grow d by linarith
    ultimately show ?thesis unfolding step num_val_snoc by simp
  next
    case False
    with IH have acc: "uint acc = ?v" "\<not> ovf" by simp_all
    show ?thesis
    proof (cases "2 ^ 64 \<le> ?v * b")
      case True
      with acc ub have "snd (acc_digit b (acc, ovf) c)" by (simp add: acc_digit_def mul_overflow_def)
      with True d show ?thesis unfolding step num_val_snoc by simp
    next
      case False
      then have m: "uint (acc * word_of_int b) = ?v * b"
        using acc ub v b by (simp add: uint_word_ariths)
      have "uint (acc * word_of_int b + word_of_int ?d) = (?v * b + ?d) mod 2 ^ 64"
        using m ub by (simp add: uint_word_ariths)
      moreover have "0 \<le> ?v * b" using v b by simp
      ultimately show ?thesis
        unfolding step num_val_snoc using False acc ub m d
        by (simp add: acc_digit_def mul_overflow_def add_overflow_def dv)
    qed
  qed
qed

subsection \<open>The parser\<close>

lemma skip_space_loop:
  "loop (\<lambda>s. do { c \<leftarrow> byte_at s0 s; Some (isspace (uint c)) }) (\<lambda>s. Some (Suc s)) 0 =
     Some (length s0 - length (skip_space s0))"
proof -
  let ?w = "takeWhile white s0"
  have "length s0 = length ?w + length (skip_space s0)"
    unfolding skip_space_def by (metis length_append takeWhile_dropWhile_id)
  then show ?thesis by (subst loop_skip [where P = white and s = s0]) (simp_all add: isspace_white white_def)
qed

lemma suffix_at_skip: "suffix_at s (length s - length (skip_space s)) (skip_space s)"
proof -
  have "skip_space s = drop (length s - length (skip_space s)) s"
    unfolding skip_space_def by (metis dropWhile_eq_drop length_takeWhile_le length_drop diff_diff_cancel)
  then show ?thesis by (simp add: suffix_at_def)
qed

lemma hex_prefix_read:
  assumes "suffix_at s i t"
  shows "do { c0 \<leftarrow> byte_at s i;
      if c0 = 0x30 then do {
        c1 \<leftarrow> byte_at s (i + 1);
        if c1 OR 32 = 0x78 then do { c2 \<leftarrow> byte_at s (i + 2); Some (digit_val (uint c2) < 16) }
        else Some False }
      else Some False } = Some (has_hex_prefix t)"
  using byte_at_suffix [OF assms, of 0] byte_at_suffix [OF assms, of 1] byte_at_suffix [OF assms, of 2]
  by (cases t; cases "tl t"; cases "tl (tl t)") (auto simp: has_hex_prefix_def hex_mark digit_val_in digit_val_value)

definition strtox_result ::
    "bool \<Rightarrow> u64 \<Rightarrow> nat \<Rightarrow> bool \<times> int \<times> u8 list \<times> u8 list \<Rightarrow> u64 \<times> nat \<times> errno option" where
  "strtox_result sg vmax n = (\<lambda>(neg, b, ds, r).
     let v = num_val b ds; lim = (if sg \<and> neg then uint (vmax + 1) else uint vmax) in
     if ds = [] then (0, 0, None)
     else if v > lim then (if sg \<and> neg then - vmax - 1 else vmax, n - length r, Some ERANGE)
     else (word_of_int (if neg then - v else v), n - length r, None))"

lemma radix_of_range: "radix_of base t = (b, t') \<Longrightarrow> base = 0 \<or> 2 \<le> base \<and> base \<le> 36 \<Longrightarrow> 2 \<le> b \<and> b \<le> 36"
  by (auto simp: radix_of_def split: if_splits list.splits)

lemma digits_loop:
  assumes "suffix_at s i t" "b \<le> 36"
  shows "loop (\<lambda>(i, a). do { c \<leftarrow> byte_at s i; Some (digit_val (uint c) < b) })
      (\<lambda>(i, a). do { c \<leftarrow> byte_at s i; Some (Suc i, acc_digit b a c) }) (i, 0, False) =
    Some (i + length (takeWhile (digit_in b) t), foldl (acc_digit b) (0, False) (takeWhile (digit_in b) t))"
  by (subst loop_bytes [where P = "digit_in b" and s = s and f = "acc_digit b"])
    (use assms in \<open>simp_all add: suffix_atD digit_val_in\<close>)

lemma strtox_tail:
  assumes b: "2 \<le> b" "b \<le> 36" and t: "suffix_at s i t"
    and ds: "ds = takeWhile (digit_in b) t" and r: "r = dropWhile (digit_in b) t"
    and a: "foldl (acc_digit b) (0, False) ds = (acc, ovf)"
  shows "(let end = (if i + length ds = i then 0 else i + length ds) in
      if i + length ds = i then (0, end, None)
      else if sg then
        let lim = (if neg then vmax + 1 else vmax) in
        if ovf \<or> acc > lim then (if neg then - vmax - 1 else vmax, end, Some ERANGE)
        else (if neg then - acc else acc, end, None)
      else if ovf \<or> acc > vmax then (vmax, end, Some ERANGE)
      else (if neg then - acc else acc, end, None)) = strtox_result sg vmax (length s) (neg, b, ds, r)"
proof -
  have "\<forall>c \<in> set ds. digit_in b c" unfolding ds by (meson set_takeWhileD)
  from acc_digit_sound [OF b this] a
  have v: "ovf \<longleftrightarrow> 2 ^ 64 \<le> num_val b ds" "num_val b ds < 2 ^ 64 \<Longrightarrow> uint acc = num_val b ds" by auto
  have ovf: "ovf \<or> acc > lim \<longleftrightarrow> num_val b ds > uint lim" for lim
  proof (cases "2 ^ 64 \<le> num_val b ds")
    case True
    then show ?thesis using v uint_64_lt [of lim] by auto
  next
    case False
    then show ?thesis using v by (simp add: word_less_def)
  qed
  have val: "num_val b ds \<le> uint lim \<Longrightarrow> acc = word_of_int (num_val b ds)" for lim :: u64
  proof -
    assume "num_val b ds \<le> uint lim"
    with uint_64_lt [of lim] v(2) have "uint acc = num_val b ds" by linarith
    then show ?thesis by (metis word_of_int_uint)
  qed
  have len: "length t = length ds + length r" unfolding ds r by (metis length_append takeWhile_dropWhile_id)
  then have "i + length ds = length s - length r" using suffix_atD [OF t] by simp
  then show ?thesis
    by (auto simp: strtox_result_def Let_def ovf not_less dest: val)
qed

lemma strtox_eq:
  assumes base: "base = 0 \<or> 2 \<le> base \<and> base \<le> 36"
  shows "strtox s base sg vmax = Some (strtox_result sg vmax (length s) (numeral_of base s))"
proof -
  let ?i = "length s - length (skip_space s)"
  obtain neg t where sg: "sign_of (skip_space s) = (neg, t)" by fastforce
  obtain b t' where rad: "radix_of base t = (b, t')" by fastforce
  define c :: u8 where "c = (case skip_space s of [] \<Rightarrow> 0 | c # _ \<Rightarrow> c)"
  define i1 where "i1 = (if c = 0x2b \<or> c = 0x2d then ?i + 1 else ?i)"
  have c: "byte_at s ?i = Some c" unfolding c_def by (rule byte_at_suffix_0) (rule suffix_at_skip)
  have neg: "neg = (c = 0x2d)" using sg by (auto simp: c_def sign_of_def split: list.splits if_splits)
  have i1: "suffix_at s i1 t"
    using sg suffix_at_skip [of s] suffix_at_Cons [of s ?i]
    by (auto simp: i1_def c_def sign_of_def split: list.splits if_splits)
  define i2 where "i2 = (if (base = 0 \<or> base = 16) \<and> has_hex_prefix t then i1 + 2 else i1)"
  have "has_hex_prefix t \<Longrightarrow> 2 \<le> length t" by (auto simp: has_hex_prefix_def split: list.splits)
  then have i2: "suffix_at s i2 t'"
    using rad i1 suffix_at_drop [of s i1 t 2] by (auto simp: radix_of_def i2_def split: if_splits)
  have b: "2 \<le> b" "b \<le> 36" using radix_of_range [OF rad base] by auto
  let ?ds = "takeWhile (digit_in b) t'"
  obtain acc ovf where a: "foldl (acc_digit b) (0, False) ?ds = (acc, ovf)" by fastforce
  have hex: "(if base = 0 \<or> base = 16 then do { c0 \<leftarrow> byte_at s i1;
      if c0 = 0x30 then do {
        c1 \<leftarrow> byte_at s (i1 + 1);
        if c1 OR 32 = 0x78 then do { c2 \<leftarrow> byte_at s (i1 + 2); Some (digit_val (uint c2) < 16) }
        else Some False }
      else Some False } else Some False) = Some ((base = 0 \<or> base = 16) \<and> has_hex_prefix t)"
    by (simp add: hex_prefix_read [OF i1])
  have radix: "(if (base = 0 \<or> base = 16) \<and> has_hex_prefix t then Some (i1 + 2, 16)
      else if base = 0 then do { c \<leftarrow> byte_at s i1; Some (i1, if c = 0x30 then 8 else 10) }
      else Some (i1, base)) = Some (i2, b)"
    using rad by (auto simp: i2_def radix_of_def byte_at_suffix_0 [OF i1] split: list.splits)
  have sign: "(if c = 0x2b \<or> c = 0x2d then (c = 0x2d, ?i + 1) else (False, ?i)) = (neg, i1)"
    by (simp add: neg i1_def)
  have num: "numeral_of base s = (neg, b, ?ds, dropWhile (digit_in b) t')"
    by (simp add: numeral_of_def sg rad)
  show ?thesis
    using base strtox_tail [OF b i2 refl refl a, of sg neg vmax]
    by (simp only: strtox_def skip_space_loop c sign hex radix digits_loop [OF i2 b(2)] a num
        Option.bind.simps prod.case Let_def if_False) auto
qed

text \<open>The signed conversions: the value is clamped to the range of the type.\<close>

lemma strtol_result:
  assumes "0 \<le> num_val b ds"
  shows "(case strtox_result True LONG_MAX n (neg, b, ds, r) of (v, e) \<Rightarrow> (sint v, e)) =
    (let v = (if neg then - num_val b ds else num_val b ds) in
     if ds = [] then (0, 0, None)
     else (max (- (2 ^ 63)) (min (2 ^ 63 - 1) v), n - length r,
           if - (2 ^ 63) \<le> v \<and> v < 2 ^ 63 then None else Some ERANGE))"
  using assms sint_word_of_int_64 [of "num_val b ds"] sint_word_of_int_64 [of "- num_val b ds"]
  by (simp add: strtox_result_def Let_def)

lemma num_val_numeral_of:
  assumes "numeral_of base s = (neg, b, ds, r)" "base = 0 \<or> 2 \<le> base \<and> base \<le> 36"
  shows "0 \<le> num_val b ds"
proof -
  obtain neg' t where "sign_of (skip_space s) = (neg', t)" by fastforce
  moreover obtain b' t' where "radix_of base t = (b', t')" by fastforce
  ultimately have "2 \<le> b" using assms radix_of_range [of base t b' t'] by (auto simp: numeral_of_def)
  then show ?thesis by (simp add: num_val_nonneg)
qed

lemma strtoll_eq:
  assumes "base = 0 \<or> 2 \<le> base \<and> base \<le> 36" and "numeral_of base s = (neg, b, ds, r)"
    and "v = (if neg then - num_val b ds else num_val b ds)"
  shows "strtoll s base = Some (if ds = [] then (0, 0, None)
     else (max (- (2 ^ 63)) (min (2 ^ 63 - 1) v), length s - length r,
           if - (2 ^ 63) \<le> v \<and> v < 2 ^ 63 then None else Some ERANGE))"
  using strtol_result [OF num_val_numeral_of [OF assms(2,1)], of "length s" neg r] assms
  by (simp add: strtoll_def strtox_eq Let_def)

lemma strtoll_strtol: "strtol s base = strtoll s base"
  by (simp add: strtol_def strtoll_def)

lemma sign_of_split: "sign_of t0 = (neg, t) \<Longrightarrow> \<exists>p. t0 = p @ t"
  by (auto simp: sign_of_def split: list.splits if_splits)

lemma radix_of_split: "radix_of base t = (b, t') \<Longrightarrow> \<exists>p. t = p @ t'"
  by (auto simp: radix_of_def intro: exI [of _ "take 2 t"] split: if_splits)

lemma numeral_of_split:
  assumes "numeral_of base s = (neg, b, ds, r)"
  shows "\<exists>p. s = p @ ds @ r"
proof -
  obtain neg' t where sg: "sign_of (skip_space s) = (neg', t)" by fastforce
  obtain b' t' where rad: "radix_of base t = (b', t')" by fastforce
  have t': "t' = ds @ r" using assms sg rad by (auto simp: numeral_of_def)
  have "s = takeWhile white s @ skip_space s" by (simp add: skip_space_def)
  with sign_of_split [OF sg] radix_of_split [OF rad] t' show ?thesis by (metis append.assoc)
qed

subsection \<open>Properties\<close>

text \<open>
  C3. \<open>strtol\<close> returns, for every string, the integer its numeral denotes in the base given
  (white space, sign, \<open>0x\<close> or \<open>0\<close> prefix and digits of any number, the letters standing for 10 to
  35) clamped to the range of \<open>long\<close>; it reports ERANGE exactly when it clamped, and sets the end
  pointer behind the last digit, or to the start when there is no digit.  A base that is neither 0
  nor from 2 to 36 gives 0 and EINVAL.
\<close>

theorem strtol_correct:
  assumes "numeral_of base s = (neg, b, ds, r)" and "v = (if neg then - num_val b ds else num_val b ds)"
  shows "strtol s base = Some
     (if \<not> (base = 0 \<or> 2 \<le> base \<and> base \<le> 36) then (0, 0, Some EINVAL)
      else if ds = [] then (0, 0, None)
      else (max (- (2 ^ 63)) (min (2 ^ 63 - 1) v), length s - length r,
            if - (2 ^ 63) \<le> v \<and> v < 2 ^ 63 then None else Some ERANGE))"
proof (cases "base = 0 \<or> 2 \<le> base \<and> base \<le> 36")
  case True
  with strtoll_eq [OF True assms] show ?thesis by (simp add: strtoll_strtol)
next
  case False
  then have "base < 0 \<or> base = 1 \<or> base > 36" by auto
  with False show ?thesis by (simp add: strtol_def strtox_def)
qed

theorem strtol_correct_witness:
  "strtol (lit '' -0x8000000000000001 '') 0 = Some (- (2 ^ 63), 20, Some ERANGE)"
proof -
  have "numeral_of 0 (lit '' -0x8000000000000001 '') =
    (True, 16, lit ''8000000000000001'', lit '' '')" by code_simp
  moreover have "num_val 16 (lit ''8000000000000001'') = 2 ^ 63 + 1" by code_simp
  ultimately show ?thesis
    using strtol_correct [of 0 "lit '' -0x8000000000000001 ''" True 16
      "lit ''8000000000000001''" "lit '' ''" "- (2 ^ 63) - 1"] by simp
qed

text \<open>
  C4. \<open>strtonum\<close> accepts exactly the strings that are one decimal numeral to their end with a
  value between the two limits: it returns that value and leaves errno as it was, and
  otherwise returns 0 with the error string and errno of the first test that fails, the first of
  all being that the limits are in order.
\<close>

theorem strtonum_correct:
  assumes "- (2 ^ 63) \<le> minval" "maxval < 2 ^ 63" and "0 \<notin> set s"
    and "numeral_of 10 s = (neg, b, ds, r)" and "v = (if neg then - num_val b ds else num_val b ds)"
  shows "strtonum s minval maxval e = Some
     (if minval > maxval then (0, Some ''invalid'', Some EINVAL)
      else if ds = [] \<or> r \<noteq> [] then (0, Some ''invalid'', Some EINVAL)
      else if v < minval then (0, Some ''too small'', Some ERANGE)
      else if v > maxval then (0, Some ''too large'', Some ERANGE)
      else (v, None, e))"
proof -
  obtain p where p: "s = p @ ds @ r" using numeral_of_split [OF assms(4)] by blast
  have nul: "byte_at s (length s - length r) = Some (case r of [] \<Rightarrow> 0 | c # _ \<Rightarrow> c)"
    unfolding p by (rule byte_at_suffix_0) (simp add: suffix_at_def)
  have nz: "r \<noteq> [] \<Longrightarrow> hd r \<noteq> 0" using assms(3) unfolding p by (cases r) auto
  have "ds \<noteq> [] \<Longrightarrow> length s - length r \<noteq> 0" unfolding p by simp
  with strtoll_eq [of 10 s neg b ds r v] assms nul nz show ?thesis
    by (cases r) (auto simp: strtonum_def)
qed

theorem strtonum_correct_witness:
  "strtonum (lit '' -42'') (- 100) 7 (Some EBADF) = Some (- 42, None, Some EBADF)"
proof -
  have "numeral_of 10 (lit '' -42'') = (True, 10, lit ''42'', [])" "num_val 10 (lit ''42'') = 42"
    "0 \<notin> set (lit '' -42'')"
    by code_simp+
  then show ?thesis
    using strtonum_correct [of "- 100" 7 "lit '' -42''" True 10 "lit ''42''" "[]" "- 42" "Some EBADF"]
    by simp
qed

end
