(* ===== verification/SearchTable.thy ===== *)
theory SearchTable
  imports Prelude
begin

text \<open>
  The contract of a table one enters items in and finds them again, the first item entered
  under a key winning (\<open>hsearch\<close> and \<open>lsearch\<close> of \<^verbatim>\<open>src/search.c\<close>): \<open>room t\<close> is how many new keys
  the table still takes for sure.
\<close>

locale search_table =
  fixes inv :: "'t \<Rightarrow> bool" and find :: "'t \<Rightarrow> 'k \<Rightarrow> 'v option"
    and enter :: "'k \<Rightarrow> 'v \<Rightarrow> 't \<Rightarrow> 't option" and room :: "'t \<Rightarrow> nat"
  assumes enter_inv: "inv t \<Longrightarrow> enter k v t = Some t' \<Longrightarrow> inv t'"
    and enter_find: "inv t \<Longrightarrow> enter k v t = Some t' \<Longrightarrow>
      find t' = (case find t k of None \<Rightarrow> (find t)(k \<mapsto> v) | Some _ \<Rightarrow> find t)"
    and enter_room: "inv t \<Longrightarrow> find t k \<noteq> None \<or> 0 < room t \<Longrightarrow>
      \<exists>t'. enter k v t = Some t' \<and> room t \<le> room t' + (if find t k = None then 1 else 0)"

text \<open>Entering one item after the other.\<close>

fun enter_all :: "('k \<Rightarrow> 'v \<Rightarrow> 't \<Rightarrow> 't option) \<Rightarrow> ('k \<times> 'v) list \<Rightarrow> 't \<Rightarrow> 't option" where
  "enter_all enter [] t = Some t"
| "enter_all enter ((k, v) # items) t = do { t' \<leftarrow> enter k v t; enter_all enter items t' }"

context search_table
begin

lemma enter_all_find:
  assumes "inv t" "length items \<le> room t"
  shows "\<exists>t'. enter_all enter items t = Some t' \<and> inv t' \<and>
    (\<forall>k. find t' k = (case find t k of None \<Rightarrow> map_of items k | Some v \<Rightarrow> Some v))"
  using assms
proof (induction items arbitrary: t)
  case Nil
  then show ?case by (auto split: option.splits)
next
  case (Cons kv items)
  obtain k v where kv: "kv = (k, v)" by fastforce
  from Cons.prems have "0 < room t" by simp
  then obtain t' where
    t': "enter k v t = Some t'" "room t \<le> room t' + (if find t k = None then 1 else 0)"
    using enter_room [OF Cons.prems(1), of k v] by blast
  have "inv t'" using enter_inv Cons.prems(1) t'(1) by blast
  moreover have "length items \<le> room t'" using Cons.prems(2) t'(2) by (auto split: if_splits)
  ultimately obtain t'' where t'': "enter_all enter items t' = Some t''" "inv t''"
    "\<forall>k. find t'' k = (case find t' k of None \<Rightarrow> map_of items k | Some v \<Rightarrow> Some v)"
    using Cons.IH [of t'] by blast
  have "find t' = (case find t k of None \<Rightarrow> (find t)(k \<mapsto> v) | Some _ \<Rightarrow> find t)"
    using enter_find Cons.prems(1) t'(1) by blast
  then have "find t'' k' = (case find t k' of None \<Rightarrow> map_of ((k, v) # items) k' | Some v \<Rightarrow> Some v)" for k'
    using t''(3) by (cases "k' = k") (auto split: option.splits)
  with t'(1) t''(1,2) show ?case unfolding kv by auto
qed

end

end
