(* ===== verification/HSearch.thy ===== *)
theory HSearch
  imports Bytes SearchTable
begin

text \<open>
  The hash table of \<^verbatim>\<open>src/search.c\<close> (\<open>hcreate_r\<close>, \<open>hsearch_r\<close>, \<open>hdestroy_r\<close> and the functions on the
  global table): an open-addressed table of a power-of-two size with triangular probing and a
  keyed SipHash-1-3.  A slot holds the entry or is free; an entry's key is the string its key
  pointer shows, its data pointer a 64-bit word.  The allocator's answer and the two random key
  words are arguments of \<open>hcreate_r\<close>.
\<close>

subsection \<open>The keyed hash\<close>

type_synonym sip = "u64 \<times> u64 \<times> u64 \<times> u64"

definition rotl :: "u64 \<Rightarrow> nat \<Rightarrow> u64" where
  "rotl x b = push_bit b x OR drop_bit (64 - b) x"

definition sipround :: "sip \<Rightarrow> sip" where
  "sipround = (\<lambda>(v0, v1, v2, v3).
     let v0 = v0 + v1; v1 = rotl v1 13; v1 = v1 XOR v0; v0 = rotl v0 32;
         v2 = v2 + v3; v3 = rotl v3 16; v3 = v3 XOR v2;
         v0 = v0 + v3; v3 = rotl v3 21; v3 = v3 XOR v0;
         v2 = v2 + v1; v1 = rotl v1 17; v1 = v1 XOR v2; v2 = rotl v2 32
     in (v0, v1, v2, v3))"

definition sip_mix :: "u64 \<Rightarrow> sip \<Rightarrow> sip" where
  "sip_mix m = (\<lambda>(v0, v1, v2, v3).
     let (v0, v1, v2, v3) = sipround (v0, v1, v2, v3 XOR m) in (v0 XOR m, v1, v2, v3))"

text \<open>The 8-byte blocks, then what is left of the string.\<close>

fun sip_blocks :: "u8 list \<Rightarrow> sip \<Rightarrow> u8 list \<times> sip" where
  "sip_blocks s v =
     (if 8 \<le> length s then sip_blocks (drop 8 s) (sip_mix (le_word (take 8 s)) v) else (s, v))"

declare sip_blocks.simps [simp del]

fun sip_last :: "u64 \<Rightarrow> nat \<Rightarrow> u8 list \<Rightarrow> u64" where
  "sip_last b j [] = b"
| "sip_last b j (c # cs) = sip_last (b OR push_bit (8 * j) (ucast c)) (Suc j) cs"

definition keyhash :: "u64 \<Rightarrow> u64 \<Rightarrow> u8 list \<Rightarrow> u64" where
  "keyhash k0 k1 s =
     (let (r, v) = sip_blocks s (k0 XOR 0x736f6d6570736575, k1 XOR 0x646f72616e646f6d,
                                 k0 XOR 0x6c7967656e657261, k1 XOR 0x7465646279746573);
          b = sip_last (push_bit 56 (of_nat (length s))) 0 r;
          (v0, v1, v2, v3) = sip_mix b v;
          (v0, v1, v2, v3) = sipround (sipround (sipround (v0, v1, v2 XOR 0xff, v3)))
      in v0 XOR v1 XOR v2 XOR v3)"

subsection \<open>The table\<close>

type_synonym entry = "u8 list \<times> u64"

record htab =
  slots :: "entry option list"
  tmask :: u64
  used :: u64
  k0 :: u64
  k1 :: u64

datatype action = FIND | ENTER

text \<open>\<open>alloc\<close> says whether the table of that many slots can be had; \<open>Inl\<close> is errno.\<close>

definition hcreate_r :: "(u64 \<Rightarrow> bool) \<Rightarrow> u64 \<Rightarrow> u64 \<Rightarrow> u64 \<Rightarrow> (errno + htab) option" where
  "hcreate_r alloc r0 r1 nel =
     (if nel > drop_bit 3 (- 1) then Some (Inl ENOMEM)
      else do {
        size \<leftarrow> loop (\<lambda>size. Some (size < nel + nel div 3 + 1)) (\<lambda>size. Some (size * 2)) 8;
        Some (if alloc size then
            Inr \<lparr> slots = replicate (unat size) None, tmask = size - 1, used = 0, k0 = r0, k1 = r1 \<rparr>
          else Inl ENOMEM) })"

text \<open>The blocks handed to \<open>free\<close>, in order, and the table pointer left behind.\<close>

datatype block = Slots | Header

definition hdestroy_r :: "htab option \<Rightarrow> block list \<times> htab option" where
  "hdestroy_r d = (case d of None \<Rightarrow> ([], d) | Some t \<Rightarrow> ([Slots, Header], None))"

text \<open>
  The probe: from the hash value on until a free slot or the key's; the index and the entry found.
  Each slot read is checked to be one of the table's.
\<close>

definition slot_at :: "htab \<Rightarrow> u64 \<Rightarrow> entry option option" where
  "slot_at t i = (if unat i < length (slots t) then Some (slots t ! unat i) else None)"

definition probe :: "htab \<Rightarrow> u8 list \<Rightarrow> (u64 \<times> u64) option" where
  "probe t key = loop
     (\<lambda>(i, step). do { e \<leftarrow> slot_at t i; Some (case e of None \<Rightarrow> False | Some (k, _) \<Rightarrow> k \<noteq> key) })
     (\<lambda>(i, step). Some ((i + step) AND tmask t, step + 1))
     (keyhash (k0 t) (k1 t) key AND tmask t, 1)"

text \<open>The result: the slot returned through \<open>ret\<close> (\<open>None\<close> is null), errno, and the table.\<close>

definition hsearch_r ::
    "entry \<Rightarrow> action \<Rightarrow> htab option \<Rightarrow> (u64 option \<times> errno option \<times> htab option) option" where
  "hsearch_r item act d = (case d of
     None \<Rightarrow> Some (None, Some ESRCH, d)
   | Some t \<Rightarrow> do {
       (i, _) \<leftarrow> probe t (fst item);
       e \<leftarrow> slot_at t i;
       Some (if e \<noteq> None then (Some i, None, d)
         else if act = FIND \<or> used t + 1 > tmask t - tmask t div 4
           then (None, Some (if act = FIND then ESRCH else ENOMEM), d)
         else (Some i, None, Some (t\<lparr> slots := (slots t)[unat i := Some item], used := used t + 1 \<rparr>))) })"

definition hcreate :: "(u64 \<Rightarrow> bool) \<Rightarrow> u64 \<Rightarrow> u64 \<Rightarrow> u64 \<Rightarrow> htab option \<Rightarrow> (bool \<times> htab option) option" where
  "hcreate alloc r0 r1 nel global =
     (if global \<noteq> None then Some (False, global)
      else do {
        r \<leftarrow> hcreate_r alloc r0 r1 nel;
        Some (case r of Inl _ \<Rightarrow> (False, global) | Inr t \<Rightarrow> (True, Some t)) })"

definition hdestroy :: "htab option \<Rightarrow> block list \<times> htab option" where
  "hdestroy global = hdestroy_r global"

definition hsearch :: "entry \<Rightarrow> action \<Rightarrow> htab option \<Rightarrow> (u64 option \<times> htab option) option" where
  "hsearch item act global = do { (r, _, g) \<leftarrow> hsearch_r item act global; Some (r, g) }"

subsection \<open>Triangular probing visits every slot\<close>

definition tri :: "nat \<Rightarrow> nat" where
  "tri n = n * (n + 1) div 2"

lemma tri_0 [simp]: "tri 0 = 0"
  by (simp add: tri_def)

lemma tri_Suc: "tri (Suc n) = tri n + Suc n"
  by (simp add: tri_def) 

lemma two_tri: "2 * tri n = n * (n + 1)"
  by (simp add: tri_def)

lemma tri_mono: "m \<le> n \<Longrightarrow> tri m \<le> tri n"
  unfolding tri_def by (intro div_le_mono mult_le_mono) simp_all

lemma tri_mod_inj:
  assumes "m < n" "n < 2 ^ p"
  shows "(h + tri m) mod 2 ^ p \<noteq> (h + tri n) mod 2 ^ p"
proof
  assume eq: "(h + tri m) mod 2 ^ p = (h + tri n) mod 2 ^ p"
  have "tri m \<le> tri n" using assms by (simp add: tri_mono)
  with eq have "2 ^ p dvd (h + tri n) - (h + tri m)"
    by (metis mod_eq_dvd_iff_nat add_left_mono)
  then have "2 * 2 ^ p dvd 2 * (tri n - tri m)" by simp
  moreover have "2 * (tri n - tri m) = (n - m) * (n + m + 1)"
  proof -
    obtain d where d: "n = m + d" using assms(1) less_imp_add_positive by blast
    have "2 * (tri n - tri m) = n * (n + 1) - m * (m + 1)" by (simp only: diff_mult_distrib2 two_tri)
    also have "n * (n + 1) = m * (m + 1) + d * (2 * m + d + 1)" by (simp add: d algebra_simps)
    finally show ?thesis by (simp add: d algebra_simps)
  qed
  ultimately have dvd: "2 ^ Suc p dvd (n - m) * (n + m + 1)" by simp
  show False
  proof (cases "even (n - m)")
    case True
    then have "odd (n + m + 1)" using assms(1) by (metis add.commute even_diff_nat even_plus_one_iff less_imp_le not_less)
    then have "coprime (2 ^ Suc p) (n + m + 1)" by simp
    with dvd have "2 ^ Suc p dvd n - m" by (metis coprime_dvd_mult_left_iff)
    then have "2 ^ Suc p \<le> n - m" using assms(1) by (intro dvd_imp_le) auto
    with assms show False by simp
  next
    case False
    then have "coprime (2 ^ Suc p) (n - m)" by simp
    with dvd have "2 ^ Suc p dvd n + m + 1" by (metis coprime_dvd_mult_right_iff)
    then have "2 ^ Suc p \<le> n + m + 1" by (intro dvd_imp_le) auto
    with assms show False by simp
  qed
qed

lemma tri_mod_onto:
  assumes "j < 2 ^ p"
  shows "\<exists>n < 2 ^ p. (h + tri n) mod 2 ^ p = j"
proof -
  let ?f = "\<lambda>n. (h + tri n) mod 2 ^ p"
  have "inj_on ?f {..<2 ^ p}"
    by (rule linorder_inj_onI) (use tri_mod_inj in \<open>auto simp: not_le\<close>)
  then have "?f ` {..<2 ^ p} = {..<2 ^ p}"
    by (intro endo_inj_surj) auto
  with assms show ?thesis by (metis (no_types, lifting) imageE lessThan_iff)
qed

subsection \<open>The invariant of the table\<close>

definition pos :: "htab \<Rightarrow> u8 list \<Rightarrow> nat \<Rightarrow> nat" where
  "pos t k n = (unat (keyhash (k0 t) (k1 t) k) + tri n) mod length (slots t)"

definition occupied :: "htab \<Rightarrow> nat set" where
  "occupied t = {j. j < length (slots t) \<and> slots t ! j \<noteq> None}"

text \<open>
  The size is a power of two, at least a quarter of the slots but one stays free, no key is there
  twice, and the probe for a key that is there meets no free slot before it.
\<close>

definition htab_inv :: "htab \<Rightarrow> bool" where
  "htab_inv t \<longleftrightarrow>
     (\<exists>p. 0 < p \<and> p < 64 \<and> length (slots t) = 2 ^ p \<and> tmask t = of_nat (2 ^ p - 1)) \<and>
     unat (used t) = card (occupied t) \<and> used t \<le> tmask t - tmask t div 4 \<and>
     (\<forall>i \<in> occupied t. \<forall>j \<in> occupied t. fst (the (slots t ! i)) = fst (the (slots t ! j)) \<longrightarrow> i = j) \<and>
     (\<forall>j \<in> occupied t. \<exists>n. pos t (fst (the (slots t ! j))) n = j \<and>
        (\<forall>m < n. pos t (fst (the (slots t ! j))) m \<in> occupied t))"

lemma htab_size:
  assumes "htab_inv t"
  obtains p where "0 < p" "p < 64" "length (slots t) = 2 ^ p" "tmask t = of_nat (2 ^ p - 1)"
  using assms by (auto simp: htab_inv_def)

lemma unat_and_mask:
  assumes "p < 64"
  shows "unat ((x :: u64) AND of_nat (2 ^ p - 1)) = unat x mod 2 ^ p"
proof -
  have "(of_nat (2 ^ p - 1) :: u64) = Bit_Operations.mask p"
    by (simp add: mask_eq_exp_minus_1 of_nat_diff)
  then have "x AND of_nat (2 ^ p - 1) = take_bit p x" by (simp add: take_bit_eq_mask)
  then show ?thesis by (simp add: unsigned_take_bit_eq take_bit_nat_def)
qed

lemma free_slot:
  assumes "htab_inv t"
  shows "\<exists>j < length (slots t). slots t ! j = None"
proof (rule ccontr)
  assume "\<not> ?thesis"
  then have "occupied t = {..<length (slots t)}" by (auto simp: occupied_def)
  then have "unat (used t) = length (slots t)" using assms by (simp add: htab_inv_def)
  moreover obtain p where p: "p < 64" "length (slots t) = 2 ^ p" "tmask t = of_nat (2 ^ p - 1)"
    using htab_size [OF assms] by metis
  moreover have "(2 :: nat) ^ p - 1 < 2 ^ 64"
    using power_strict_increasing [OF p(1), of "2 :: nat"] by simp
  then have "unat (tmask t) = 2 ^ p - 1" unfolding p(3) by (rule unat_of_nat_64)
  moreover have "unat (used t) \<le> unat (tmask t)"
  proof -
    have "used t \<le> tmask t - tmask t div 4" using assms by (simp add: htab_inv_def)
    moreover have "tmask t div 4 \<le> tmask t" by (simp add: word_le_nat_alt unat_div)
    ultimately show ?thesis by (simp add: word_le_nat_alt unat_sub)
  qed
  ultimately show False by (metis Suc_pred' less_Suc_eq_le not_less zero_less_numeral zero_less_power le_refl)
qed

subsection \<open>The probe ends\<close>

definition stops :: "htab \<Rightarrow> u8 list \<Rightarrow> nat \<Rightarrow> bool" where
  "stops t k j \<longleftrightarrow> (case slots t ! j of None \<Rightarrow> True | Some (k', _) \<Rightarrow> k' = k)"

lemma pos_less: "htab_inv t \<Longrightarrow> pos t k n < length (slots t)"
  by (auto simp: pos_def htab_inv_def)

lemma probe_state_step:
  assumes "htab_inv t" "n < length (slots t)"
  shows "(of_nat (pos t k n) + of_nat (Suc n)) AND tmask t = (of_nat (pos t k (Suc n)) :: u64)"
proof -
  obtain p where p: "p < 64" "length (slots t) = 2 ^ p" "tmask t = of_nat (2 ^ p - 1)"
    using htab_size [OF assms(1)] by metis
  have p64: "(2 :: nat) ^ p dvd 2 ^ 64" using p(1) by (intro le_imp_power_dvd) simp
  have lt: "(2 :: nat) ^ p < 2 ^ 64" using power_strict_increasing [OF p(1), of "2 :: nat"] by simp
  have "unat ((of_nat (pos t k n) + of_nat (Suc n) :: u64) AND tmask t) =
      unat (of_nat (pos t k n + Suc n) :: u64) mod 2 ^ p"
    by (simp only: p(3) unat_and_mask [OF p(1)] of_nat_add)
  also have "\<dots> = (pos t k n + Suc n) mod 2 ^ 64 mod 2 ^ p"
    by (simp only: unat_of_nat) (simp add: take_bit_nat_def)
  also have "\<dots> = (pos t k n + Suc n) mod 2 ^ p" by (rule mod_mod_cancel [OF p64])
  also have "\<dots> = pos t k (Suc n)"
    unfolding pos_def p(2) tri_Suc by (simp only: mod_add_left_eq add.assoc)
  also have "\<dots> = unat (of_nat (pos t k (Suc n)) :: u64)"
    using pos_less [OF assms(1), of k "Suc n"] lt p(2) by (simp add: unat_of_nat_64)
  finally show ?thesis by (rule unsigned_word_eqI)
qed

lemma slot_at_pos:
  assumes "htab_inv t"
  shows "slot_at t (of_nat (pos t k n)) = Some (slots t ! pos t k n)"
    and "unat (of_nat (pos t k n) :: u64) = pos t k n"
proof -
  obtain p where p: "p < 64" "length (slots t) = 2 ^ p" using htab_size [OF assms] by metis
  have "(2 :: nat) ^ p < 2 ^ 64" using power_strict_increasing [OF p(1), of "2 :: nat"] by simp
  with pos_less [OF assms, of k n] p(2) show eq: "unat (of_nat (pos t k n) :: u64) = pos t k n"
    by (simp add: unat_of_nat_64)
  with pos_less [OF assms, of k n] show "slot_at t (of_nat (pos t k n)) = Some (slots t ! pos t k n)"
    by (simp add: slot_at_def)
qed

lemma probe_ends:
  assumes "htab_inv t"
  shows "\<exists>n < length (slots t). probe t k = Some (of_nat (pos t k n), of_nat (Suc n)) \<and>
    stops t k (pos t k n) \<and> (\<forall>m < n. \<not> stops t k (pos t k m))"
proof -
  obtain p where p: "p < 64" "length (slots t) = 2 ^ p" "tmask t = of_nat (2 ^ p - 1)"
    using htab_size [OF assms] by metis
  from free_slot [OF assms] obtain j where "j < 2 ^ p" "slots t ! j = None" using p by auto
  moreover from tri_mod_onto [OF this(1)] obtain n0 where "n0 < 2 ^ p" "pos t k n0 = j"
    unfolding pos_def p(2) by blast
  ultimately have n0: "n0 < 2 ^ p" "stops t k (pos t k n0)" by (auto simp: stops_def)
  define n where "n = (LEAST n. stops t k (pos t k n))"
  have n: "stops t k (pos t k n)" "n \<le> n0" "\<And>m. m < n \<Longrightarrow> \<not> stops t k (pos t k m)"
    using n0(2) not_less_Least unfolding n_def by (auto intro: LeastI Least_le)
  let ?c = "\<lambda>(i, step :: u64). do { e \<leftarrow> slot_at t i; Some (case e of None \<Rightarrow> False | Some (k', _) \<Rightarrow> k' \<noteq> k) }"
  let ?f = "\<lambda>(i, step). Some ((i + step) AND tmask t, step + 1)"
  let ?st = "\<lambda>n. (of_nat (pos t k n) :: u64, of_nat (Suc n) :: u64)"
  have c: "?c (?st i) = Some (\<not> stops t k (pos t k i))" for i
    by (simp add: slot_at_pos [OF assms] stops_def split: option.splits prod.splits)
  have "loop ?c ?f (?st 0) = Some (?st n)"
  proof (rule loop_iterate)
    show "?c (?st i) = Some True" if "i < n" for i using c [of i] n(3) [OF that] by simp
    show "?f (?st i) = Some (?st (Suc i))" if "i < n" for i
      using probe_state_step [OF assms, of i k] that n(2) n0(1) p(2) by simp
    show "?c (?st n) = Some False" using c [of n] n(1) by simp
  qed
  moreover have "keyhash (k0 t) (k1 t) k AND tmask t = of_nat (pos t k 0)"
  proof (rule unsigned_word_eqI)
    show "unat (keyhash (k0 t) (k1 t) k AND tmask t) = unat (of_nat (pos t k 0) :: u64)"
      using unat_and_mask [OF p(1)] p slot_at_pos(2) [OF assms, of k 0] by (simp add: pos_def)
  qed
  ultimately have "probe t k = Some (?st n)" by (simp add: probe_def)
  with n n0(1) p(2) show ?thesis by (intro exI [of _ n]) auto
qed

subsection \<open>The table as a map\<close>

definition habs :: "htab \<Rightarrow> u8 list \<rightharpoonup> u64" where
  "habs t k = (case List.find (\<lambda>e. case e of None \<Rightarrow> False | Some (k', _) \<Rightarrow> k' = k) (slots t) of
     Some (Some (_, v)) \<Rightarrow> Some v | _ \<Rightarrow> None)"

lemma habs_None: "habs t k = None \<longleftrightarrow> (\<forall>j < length (slots t). \<forall>v. slots t ! j \<noteq> Some (k, v))"
  by (auto simp: habs_def find_None_iff find_Some_iff in_set_conv_nth split: option.splits prod.splits)

lemma habs_slot: "habs t k = Some v \<Longrightarrow> \<exists>j < length (slots t). slots t ! j = Some (k, v)"
  by (auto simp: habs_def find_Some_iff split: option.splits prod.splits)

lemma occupiedI: "j < length (slots t) \<Longrightarrow> slots t ! j = Some e \<Longrightarrow> j \<in> occupied t"
  by (simp add: occupied_def)

lemma htab_distinct:
  assumes "htab_inv t" "i < length (slots t)" "slots t ! i = Some (k, v)"
    "j < length (slots t)" "slots t ! j = Some (k, w)"
  shows "i = j"
proof -
  have "i \<in> occupied t" "j \<in> occupied t" using assms by (auto intro: occupiedI)
  with assms show ?thesis by (auto simp: htab_inv_def)
qed

lemma habs_Some:
  assumes "htab_inv t" "j < length (slots t)" "slots t ! j = Some (k, v)"
  shows "habs t k = Some v"
proof (cases "habs t k")
  case None
  with assms show ?thesis by (auto simp: habs_None)
next
  case (Some w)
  from habs_slot [OF this] htab_distinct [OF assms(1)] assms(2,3) Some show ?thesis by force
qed

lemma htab_reach:
  "htab_inv t \<Longrightarrow> \<forall>j \<in> occupied t. \<exists>n. pos t (fst (the (slots t ! j))) n = j \<and>
     (\<forall>m < n. pos t (fst (the (slots t ! j))) m \<in> occupied t)"
  unfolding htab_inv_def by (elim conjE)

lemma probe_found:
  assumes inv: "htab_inv t" and j: "j < length (slots t)" "slots t ! j = Some (k, v)"
  shows "\<exists>s. probe t k = Some (of_nat j, s)"
proof -
  from probe_ends [OF inv, of k] obtain n where
    n: "probe t k = Some (of_nat (pos t k n), of_nat (Suc n))" "stops t k (pos t k n)"
    "\<forall>m < n. \<not> stops t k (pos t k m)" by blast
  have "j \<in> occupied t" using j by (rule occupiedI)
  from bspec [OF htab_reach [OF inv] this] j(2) obtain n0
    where n0: "pos t k n0 = j" "\<forall>m < n0. pos t k m \<in> occupied t" by auto
  have "stops t k (pos t k n0)" using n0(1) j(2) by (simp add: stops_def)
  with n(3) have "n \<le> n0" by (meson not_less)
  have "pos t k n \<in> occupied t" using n0 \<open>n \<le> n0\<close> \<open>j \<in> occupied t\<close> by (cases "n = n0") auto
  then obtain w where "slots t ! pos t k n = Some (k, w)"
    using n(2) by (auto simp: stops_def occupied_def split: prod.splits)
  with htab_distinct [OF inv _ this j] pos_less [OF inv] n(1) show ?thesis by auto
qed

lemma probe_absent:
  assumes inv: "htab_inv t" and k: "habs t k = None"
  shows "\<exists>n s. probe t k = Some (of_nat (pos t k n), s) \<and> slots t ! pos t k n = None \<and>
    (\<forall>m < n. pos t k m \<in> occupied t)"
proof -
  from probe_ends [OF inv, of k] obtain n where
    n: "probe t k = Some (of_nat (pos t k n), of_nat (Suc n))" "stops t k (pos t k n)"
    "\<forall>m < n. \<not> stops t k (pos t k m)" by blast
  have "slots t ! pos t k n = None"
    using n(2) k pos_less [OF inv, of k n] by (auto simp: stops_def habs_None split: option.splits)
  moreover have "\<forall>m < n. pos t k m \<in> occupied t"
    using n(3) pos_less [OF inv, of k] by (auto simp: stops_def occupied_def split: option.splits)
  ultimately show ?thesis using n(1) by blast
qed

definition put :: "nat \<Rightarrow> entry \<Rightarrow> htab \<Rightarrow> htab" where
  "put i e t = t\<lparr> slots := (slots t)[i := Some e], used := used t + 1 \<rparr>"

lemma put_slot: "i < length (slots t) \<Longrightarrow> slots (put i e t) ! j = (if j = i then Some e else slots t ! j)"
  by (auto simp: put_def)

lemma put_pos [simp]: "pos (put i e t) k n = pos t k n"
  by (simp add: put_def pos_def)

lemma put_length [simp]: "length (slots (put i e t)) = length (slots t)"
  by (simp add: put_def)

lemma put_occupied: "i < length (slots t) \<Longrightarrow> occupied (put i e t) = insert i (occupied t)"
  by (auto simp: occupied_def put_slot)

lemma put_habs:
  assumes inv: "htab_inv (put i (k, v) t)" and i: "i < length (slots t)" "slots t ! i = None"
    and t: "htab_inv t"
  shows "habs (put i (k, v) t) = (habs t)(k \<mapsto> v)"
proof
  fix k'
  show "habs (put i (k, v) t) k' = ((habs t)(k \<mapsto> v)) k'"
  proof (cases "k' = k")
    case True
    then show ?thesis using habs_Some [OF inv, of i k v] i by (simp add: put_slot)
  next
    case False
    show ?thesis
    proof (cases "habs t k'")
      case None
      then have "habs (put i (k, v) t) k' = None" using False i by (auto simp: habs_None put_slot)
      with None False show ?thesis by simp
    next
      case (Some w)
      then obtain j where j: "j < length (slots t)" "slots t ! j = Some (k', w)"
        using habs_slot by blast
      then have "habs (put i (k, v) t) k' = Some w"
        using habs_Some [OF inv, of j k' w] i by (cases "j = i") (simp_all add: put_slot)
      with Some False show ?thesis by simp
    qed
  qed
qed

lemma put_inv:
  assumes inv: "htab_inv t" and k: "habs t k = None" and free: "slots t ! pos t k n = None"
    and path: "\<forall>m < n. pos t k m \<in> occupied t" and room: "used t + 1 \<le> tmask t - tmask t div 4"
    and wrap: "used t + 1 \<noteq> 0"
  shows "htab_inv (put (pos t k n) (k, v) t)"
proof -
  let ?i = "pos t k n" and ?t = "put (pos t k n) (k, v) t"
  note lt = pos_less [OF inv, of k n]
  have occ: "occupied ?t = insert ?i (occupied t)" by (rule put_occupied [OF lt])
  have fin: "finite (occupied t)" "?i \<notin> occupied t" using free by (auto simp: occupied_def)
  have key: "fst (the (slots ?t ! j)) = (if j = ?i then k else fst (the (slots t ! j)))" for j
    by (simp add: put_slot [OF lt])
  have new: "j \<in> occupied t \<Longrightarrow> fst (the (slots t ! j)) \<noteq> k" for j
    using k by (auto simp: occupied_def habs_None)
  have upd: "tmask ?t = tmask t" "used ?t = used t + 1" by (simp_all add: put_def)
  have "unat (used t) = card (occupied t)" using inv by (simp add: htab_inv_def)
  then have card: "unat (used ?t) = card (occupied ?t)"
    unfolding upd occ using fin wrap by (simp add: unatSuc add.commute)
  have old: "\<forall>i \<in> occupied t. \<forall>j \<in> occupied t. fst (the (slots t ! i)) = fst (the (slots t ! j)) \<longrightarrow> i = j"
    using inv by (simp add: htab_inv_def)
  have size: "\<exists>p. 0 < p \<and> p < 64 \<and> length (slots t) = 2 ^ p \<and> tmask t = of_nat (2 ^ p - 1)"
    using inv unfolding htab_inv_def by (rule conjunct1)
  have reach: "\<exists>m. pos ?t (fst (the (slots ?t ! j))) m = j \<and>
      (\<forall>l < m. pos ?t (fst (the (slots ?t ! j))) l \<in> occupied ?t)" if "j \<in> occupied ?t" for j
  proof (cases "j = ?i")
    case True
    with path show ?thesis by (intro exI [of _ n]) (simp add: key occ)
  next
    case False
    with that have "j \<in> occupied t" unfolding occ by simp
    from bspec [OF htab_reach [OF inv] this] obtain m where "pos t (fst (the (slots t ! j))) m = j"
      "\<forall>l < m. pos t (fst (the (slots t ! j))) l \<in> occupied t" by auto
    with False show ?thesis by (intro exI [of _ m]) (simp add: key occ)
  qed
  have dist: "i = j" if ij: "i \<in> occupied ?t" "j \<in> occupied ?t"
    and eq: "fst (the (slots ?t ! i)) = fst (the (slots ?t ! j))" for i j
  proof (rule ccontr)
    assume ne: "i \<noteq> j"
    consider "i = ?i" "j \<in> occupied t" | "j = ?i" "i \<in> occupied t"
      | "i \<in> occupied t" "j \<in> occupied t" "i \<noteq> ?i" "j \<noteq> ?i"
      using ij ne unfolding occ by blast
    then show False
    proof cases
      case 1
      with eq ne new [OF 1(2)] show False by (simp add: key)
    next
      case 2
      with eq ne new [OF 2(2)] show False by (simp add: key)
    next
      case 3
      with eq have "fst (the (slots t ! i)) = fst (the (slots t ! j))" by (simp add: key)
      with 3 old ne show False by blast
    qed
  qed
  show ?thesis unfolding htab_inv_def put_length upd
    by (intro conjI ballI impI size card [unfolded upd] room) (fact dist reach)+
qed

subsection \<open>The operations on the map\<close>

lemma unat_tmask:
  assumes "htab_inv t"
  shows "unat (tmask t) = length (slots t) - 1"
proof -
  obtain p where p: "p < 64" "length (slots t) = 2 ^ p" "tmask t = of_nat (2 ^ p - 1)"
    using htab_size [OF assms] by metis
  have "(2 :: nat) ^ p - 1 < 2 ^ 64" using power_strict_increasing [OF p(1), of "2 :: nat"] by simp
  then show ?thesis unfolding p by (rule unat_of_nat_64)
qed

definition capacity :: "htab \<Rightarrow> nat" where
  "capacity t = unat (tmask t) - unat (tmask t) div 4"

lemma unat_capacity: "unat (tmask t - tmask t div 4) = capacity t"
  by (simp add: capacity_def unat_sub unat_div word_le_nat_alt)

lemma used_capacity: "htab_inv t \<Longrightarrow> unat (used t) \<le> capacity t"
  by (simp add: htab_inv_def word_le_nat_alt unat_capacity del: unat_sub_if')

lemma used_Suc:
  assumes "htab_inv t"
  shows "unat (used t + 1) = Suc (unat (used t))" and "used t + 1 \<noteq> 0"
proof -
  obtain p where p: "p < 64" "length (slots t) = 2 ^ p" using htab_size [OF assms] by metis
  have "(2 :: nat) ^ p < 2 ^ 64" using power_strict_increasing [OF p(1), of "2 :: nat"] by simp
  then have "Suc (unat (used t)) < 2 ^ 64"
    using used_capacity [OF assms] unat_tmask [OF assms] p(2) by (simp add: capacity_def)
  then show "unat (used t + 1) = Suc (unat (used t))" by (simp add: unat_word_ariths)
  then show "used t + 1 \<noteq> 0" by (metis Zero_not_Suc unat_0)
qed

lemma hsearch_found:
  assumes "htab_inv t" "habs t k = Some v"
  shows "\<exists>i. hsearch_r (k, w) act (Some t) = Some (Some i, None, Some t) \<and> slot_at t i = Some (Some (k, v))"
proof -
  from habs_slot [OF assms(2)] obtain j where j: "j < length (slots t)" "slots t ! j = Some (k, v)" by blast
  have "length (slots t) < 2 ^ 64"
    using htab_size [OF assms(1)] power_strict_increasing [of _ 64 "2 :: nat"] by (metis one_less_numeral_iff semiring_norm(76))
  with j have "unat (of_nat j :: u64) = j" by (simp add: unat_of_nat_64)
  with j have "slot_at t (of_nat j) = Some (Some (k, v))" by (simp add: slot_at_def)
  moreover from probe_found [OF assms(1) j] obtain s where "probe t k = Some (of_nat j, s)" by blast
  ultimately show ?thesis by (auto simp: hsearch_r_def)
qed

lemma hsearch_absent:
  assumes "htab_inv t" "habs t k = None"
  shows "hsearch_r (k, v) FIND (Some t) = Some (None, Some ESRCH, Some t)"
    and "unat (used t) = capacity t \<Longrightarrow> hsearch_r (k, v) ENTER (Some t) = Some (None, Some ENOMEM, Some t)"
    and "unat (used t) < capacity t \<Longrightarrow> \<exists>i t'. hsearch_r (k, v) ENTER (Some t) = Some (Some i, None, Some t') \<and>
      htab_inv t' \<and> habs t' = (habs t)(k \<mapsto> v) \<and> slot_at t' i = Some (Some (k, v)) \<and>
      unat (used t') = Suc (unat (used t)) \<and> capacity t' = capacity t"
proof -
  from probe_absent [OF assms] obtain n s where
    n: "probe t k = Some (of_nat (pos t k n), s)" "slots t ! pos t k n = None"
    "\<forall>m < n. pos t k m \<in> occupied t" by blast
  note sl = slot_at_pos [OF assms(1), of k n]
  have full: "used t + 1 > tmask t - tmask t div 4 \<longleftrightarrow> capacity t \<le> unat (used t)"
    unfolding word_less_nat_alt unat_capacity used_Suc [OF assms(1)] by auto
  show "hsearch_r (k, v) FIND (Some t) = Some (None, Some ESRCH, Some t)"
    using n(1,2) sl by (simp add: hsearch_r_def)
  show "unat (used t) = capacity t \<Longrightarrow> hsearch_r (k, v) ENTER (Some t) = Some (None, Some ENOMEM, Some t)"
    using n(1,2) sl full by (simp add: hsearch_r_def)
  assume room: "unat (used t) < capacity t"
  let ?t = "put (pos t k n) (k, v) t"
  have r: "hsearch_r (k, v) ENTER (Some t) = Some (Some (of_nat (pos t k n)), None, Some ?t)"
    using n(1,2) sl full room by (simp add: hsearch_r_def put_def)
  have "used t + 1 \<le> tmask t - tmask t div 4" using full room by (simp add: not_less [symmetric])
  then have inv: "htab_inv ?t" by (intro put_inv assms n used_Suc)
  have "habs ?t = (habs t)(k \<mapsto> v)" by (rule put_habs [OF inv pos_less [OF assms(1)] n(2) assms(1)])
  moreover have "slot_at ?t (of_nat (pos t k n)) = Some (Some (k, v))"
    using pos_less [OF assms(1), of k n] sl(2) by (simp add: slot_at_def put_def)
  moreover have "unat (used ?t) = Suc (unat (used t))" "capacity ?t = capacity t"
    using used_Suc [OF assms(1)] by (simp_all add: put_def capacity_def)
  ultimately show "\<exists>i t'. hsearch_r (k, v) ENTER (Some t) = Some (Some i, None, Some t') \<and>
      htab_inv t' \<and> habs t' = (habs t)(k \<mapsto> v) \<and> slot_at t' i = Some (Some (k, v)) \<and>
      unat (used t') = Suc (unat (used t)) \<and> capacity t' = capacity t"
    using r inv by blast
qed

subsection \<open>A new table\<close>

definition new_htab :: "nat \<Rightarrow> u64 \<Rightarrow> u64 \<Rightarrow> htab" where
  "new_htab p r0 r1 =
     \<lparr> slots = replicate (2 ^ p) None, tmask = of_nat (2 ^ p - 1), used = 0, k0 = r0, k1 = r1 \<rparr>"

lemma new_htab_inv: "0 < p \<Longrightarrow> p < 64 \<Longrightarrow> htab_inv (new_htab p r0 r1)"
  by (auto simp: htab_inv_def new_htab_def occupied_def)

lemma new_htab_habs: "habs (new_htab p r0 r1) k = None"
  by (simp add: habs_None new_htab_def)

lemma new_htab_capacity:
  assumes "p < 64"
  shows "capacity (new_htab p r0 r1) = (2 ^ p - 1) - (2 ^ p - 1) div 4"
proof -
  have "(2 :: nat) ^ p - 1 < 2 ^ 64" using power_strict_increasing [OF assms, of "2 :: nat"] by simp
  then have "unat (of_nat (2 ^ p - 1) :: u64) = 2 ^ p - 1" by (rule unat_of_nat_64)
  then show ?thesis unfolding capacity_def new_htab_def htab.simps by simp
qed

lemma quarter_free:
  assumes "n + n div 3 \<le> (m :: nat)"
  shows "n \<le> m - m div 4"
proof -
  have "4 * (m div 4) \<le> m" "n = 3 * (n div 3) + n mod 3" "n mod 3 < 3" by simp_all
  with assms have "n + m div 4 \<le> m" by linarith
  then show ?thesis by simp
qed

lemma size_loop:
  assumes "unat need \<le> 2 ^ 62"
  shows "\<exists>p. 3 \<le> p \<and> p \<le> 62 \<and> unat need \<le> 2 ^ p \<and>
    loop (\<lambda>size. Some (size < need)) (\<lambda>size. Some (size * 2)) 8 = Some (2 ^ p :: u64)"
proof -
  have pw: "unat (2 ^ p :: u64) = 2 ^ p" if "p \<le> 62" for p
    using that power_strict_increasing [of p 64 "2 :: nat"] by (simp add: unat_of_nat_64 [of "2 ^ p", simplified])
  have "\<exists>k. 0 \<le> k \<and> k \<le> 59 \<and> True \<and> \<not> (2 ^ (3 + k) :: u64) < need \<and>
      loop (\<lambda>size. Some (size < need)) (\<lambda>size. Some (size * 2)) ((2 :: u64) ^ (3 + 0)) = Some (2 ^ (3 + k))"
  proof (rule loop_scan [where d = 1 and st = "\<lambda>j. 2 ^ (3 + j) :: u64" and R = "\<lambda>_. True"])
    fix j :: nat
    assume j: "j \<le> 59" and lt: "(2 ^ (3 + j) :: u64) < need"
    have "(2 :: nat) ^ (3 + j) < 2 ^ 62"
      using lt assms j by (simp add: word_less_nat_alt pw)
    then have "3 + j < 62" by (rule power_less_imp_less_exp [rotated]) simp
    then have "j < 59" by simp
    then show "Some ((2 ^ (3 + j) :: u64) * 2) = Some (2 ^ (3 + (j + 1))) \<and> j + 1 \<le> 59 \<and> True"
      by (simp add: power_add)
  qed simp_all
  then obtain k where k: "k \<le> 59" "\<not> (2 ^ (3 + k) :: u64) < need"
    "loop (\<lambda>size. Some (size < need)) (\<lambda>size. Some (size * 2)) 8 = Some (2 ^ (3 + k) :: u64)"
    by (elim exE conjE) simp
  have "unat need \<le> 2 ^ (3 + k)" using k(1,2) by (simp add: word_less_nat_alt pw not_less)
  with k show ?thesis by (intro exI [of _ "3 + k"]) simp
qed

lemma hcreate_eq:
  assumes "nel \<le> drop_bit 3 (- 1)"
  shows "\<exists>p. 3 \<le> p \<and> p \<le> 62 \<and> unat nel + unat nel div 3 + 1 \<le> 2 ^ p \<and>
    hcreate_r alloc r0 r1 nel = Some (if alloc (2 ^ p) then Inr (new_htab p r0 r1) else Inl ENOMEM)"
proof -
  let ?need = "nel + nel div 3 + 1"
  have "drop_bit 3 (- 1 :: u64) = 0x1FFFFFFFFFFFFFFF" by code_simp
  with assms have nel: "unat nel \<le> 2 ^ 61 - 1" by (simp add: word_le_nat_alt)
  then have need: "unat ?need = unat nel + unat nel div 3 + 1"
    by (simp add: unat_word_ariths unat_div)
  with nel have "unat ?need \<le> 2 ^ 62" by simp
  from size_loop [OF this] obtain p where p: "3 \<le> p" "p \<le> 62" "unat ?need \<le> 2 ^ p"
    "loop (\<lambda>size. Some (size < ?need)) (\<lambda>size. Some (size * 2)) 8 = Some (2 ^ p :: u64)" by blast
  have "unat (2 ^ p :: u64) = 2 ^ p"
    using p(2) power_strict_increasing [of p 64 "2 :: nat"] by (simp add: unat_of_nat_64 [of "2 ^ p", simplified])
  then have "hcreate_r alloc r0 r1 nel = Some (if alloc (2 ^ p) then Inr (new_htab p r0 r1) else Inl ENOMEM)"
    using assms p(4) by (simp add: hcreate_r_def not_less new_htab_def of_nat_diff)
  with p need show ?thesis by (intro exI [of _ p]) simp
qed

subsection \<open>The table's contract\<close>

definition hfind :: "htab \<Rightarrow> u8 list \<rightharpoonup> u64" where
  "hfind t k = (case hsearch_r (k, 0) FIND (Some t) of
     Some (Some i, _) \<Rightarrow> Option.bind (slot_at t i) (map_option snd) | _ \<Rightarrow> None)"

definition henter :: "u8 list \<Rightarrow> u64 \<Rightarrow> htab \<Rightarrow> htab option" where
  "henter k v t = (case hsearch_r (k, v) ENTER (Some t) of
     Some (Some _, _, t') \<Rightarrow> t' | _ \<Rightarrow> None)"

definition hroom :: "htab \<Rightarrow> nat" where
  "hroom t = capacity t - unat (used t)"

lemma hfind_eq: "htab_inv t \<Longrightarrow> hfind t = habs t"
proof
  fix k
  assume inv: "htab_inv t"
  show "hfind t k = habs t k"
  proof (cases "habs t k")
    case None
    then show ?thesis using hsearch_absent(1) [OF inv None] by (simp add: hfind_def)
  next
    case (Some v)
    then show ?thesis using hsearch_found [OF inv Some, of 0 FIND] by (auto simp: hfind_def)
  qed
qed

lemma henter_present: "htab_inv t \<Longrightarrow> habs t k = Some w \<Longrightarrow> henter k v t = Some t"
  using hsearch_found [of t k w v ENTER] by (auto simp: henter_def)

lemma henter_full: "htab_inv t \<Longrightarrow> habs t k = None \<Longrightarrow> hroom t = 0 \<Longrightarrow> henter k v t = None"
  using hsearch_absent(2) [of t k v] used_capacity [of t] by (simp add: henter_def hroom_def)

lemma henter_new:
  assumes "htab_inv t" "habs t k = None" "0 < hroom t"
  shows "\<exists>t'. henter k v t = Some t' \<and> htab_inv t' \<and> habs t' = (habs t)(k \<mapsto> v) \<and> hroom t = Suc (hroom t')"
proof -
  from hsearch_absent(3) [OF assms(1,2), of v] assms(3) obtain i t' where
    t': "hsearch_r (k, v) ENTER (Some t) = Some (Some i, None, Some t')" "htab_inv t'"
    "habs t' = (habs t)(k \<mapsto> v)" "unat (used t') = Suc (unat (used t))" "capacity t' = capacity t"
    by (auto simp: hroom_def)
  with assms(3) show ?thesis by (intro exI [of _ t']) (auto simp: henter_def hroom_def)
qed

interpretation htable: search_table htab_inv hfind henter hroom
proof
  fix t k v t'
  assume inv: "htab_inv t" and e: "henter k v t = Some t'"
  show "htab_inv t'"
    using inv e henter_present [OF inv, of k _ v] henter_full [OF inv, of k v] henter_new [OF inv, of k v]
    by (cases "habs t k"; cases "hroom t = 0") auto
  with inv show "hfind t' = (case hfind t k of None \<Rightarrow> (hfind t)(k \<mapsto> v) | Some _ \<Rightarrow> hfind t)"
    using e henter_present [OF inv, of k _ v] henter_full [OF inv, of k v] henter_new [OF inv, of k v]
    by (cases "habs t k"; cases "hroom t = 0") (auto simp: hfind_eq)
next
  fix t k v
  assume inv: "htab_inv t" and r: "hfind t k \<noteq> None \<or> 0 < hroom t"
  then show "\<exists>t'. henter k v t = Some t' \<and> hroom t \<le> hroom t' + (if hfind t k = None then 1 else 0)"
    using henter_present [OF inv, of k _ v] henter_new [OF inv, of k v]
    by (cases "habs t k") (auto simp: hfind_eq)
qed

lemma size_limit: "drop_bit 3 (- 1) = (0x1FFFFFFFFFFFFFFF :: u64)"
  by code_simp

lemma new_htab_takes:
  assumes "3 \<le> p" "p \<le> 62" "unat nel + unat nel div 3 + 1 \<le> 2 ^ p" "length items \<le> unat nel"
  shows "\<exists>t'. enter_all henter items (new_htab p r0 r1) = Some t' \<and> htab_inv t' \<and> hfind t' = map_of items"
proof -
  have inv: "htab_inv (new_htab p r0 r1)" by (rule new_htab_inv) (use assms in simp_all)
  have "p < 64" using assms(2) by simp
  then have "unat nel \<le> capacity (new_htab p r0 r1)"
    using assms(3) unfolding new_htab_capacity [OF \<open>p < 64\<close>] by (intro quarter_free) simp
  then have "length items \<le> hroom (new_htab p r0 r1)" using assms(4) by (simp add: hroom_def new_htab_def)
  from htable.enter_all_find [OF inv this] obtain t' where
    "enter_all henter items (new_htab p r0 r1) = Some t'" "htab_inv t'"
    "\<forall>k. hfind t' k = (case hfind (new_htab p r0 r1) k of None \<Rightarrow> map_of items k | Some v \<Rightarrow> Some v)" by blast
  moreover have "hfind (new_htab p r0 r1) k = None" for k using hfind_eq [OF inv] by (simp add: new_htab_habs)
  ultimately show ?thesis by auto
qed

subsection \<open>Properties\<close>

text \<open>
  C5. \<open>hsearch_r\<close> on a well-formed table ends and is a map operation: a key that is there is found,
  for either action, and nothing changes; a key that is not there is \<open>ESRCH\<close> for \<open>FIND\<close>; \<open>ENTER\<close>
  stores it, keeping the table well-formed and every other key's entry, or reports \<open>ENOMEM\<close>
  exactly when the table holds as many keys as it takes.
\<close>

theorem hsearch_r_refines:
  assumes "htab_inv t"
  shows "case habs t k of
      Some w \<Rightarrow> \<exists>i. hsearch_r (k, v) act (Some t) = Some (Some i, None, Some t) \<and>
        slot_at t i = Some (Some (k, w))
    | None \<Rightarrow> (if act = FIND then hsearch_r (k, v) act (Some t) = Some (None, Some ESRCH, Some t)
        else if unat (used t) = capacity t
          then hsearch_r (k, v) act (Some t) = Some (None, Some ENOMEM, Some t)
        else \<exists>i t'. hsearch_r (k, v) act (Some t) = Some (Some i, None, Some t') \<and> htab_inv t' \<and>
          habs t' = (habs t)(k \<mapsto> v) \<and> slot_at t' i = Some (Some (k, v)))"
proof (cases "habs t k")
  case None
  have "unat (used t) \<noteq> capacity t \<Longrightarrow> unat (used t) < capacity t"
    using used_capacity [OF assms] by simp
  with None hsearch_absent [OF assms None, of v] show ?thesis by (cases act) auto
next
  case (Some w)
  with hsearch_found [OF assms Some] show ?thesis by simp
qed

theorem hsearch_r_refines_witness:
  "htab_inv (new_htab 3 1 2) \<and>
   hsearch_r (lit ''key'', 7) FIND (Some (new_htab 3 1 2)) = Some (None, Some ESRCH, Some (new_htab 3 1 2))"
proof -
  have "htab_inv (new_htab 3 1 2)" by (rule new_htab_inv) simp_all
  with hsearch_r_refines [OF this, where k = "lit ''key''" and v = 7 and act = FIND] show ?thesis
    by (simp add: new_htab_habs)
qed

text \<open>
  C6. \<open>hcreate_r\<close> returns for every size.  For \<open>nel\<close> of \<open>2^61\<close> on it fails with \<open>ENOMEM\<close>.  For a smaller one it asks
  for a table of \<open>2^p\<close> slots that leaves a quarter free, at most \<open>2^62\<close>, and fails with \<open>ENOMEM\<close> exactly if there is no
  memory for it; the table it makes takes any \<open>nel\<close> items, and each key is then found with the first
  data entered for it and no other key is found.
\<close>

theorem hcreate_r_capacity:
  "if nel \<ge> 2 ^ 61 then hcreate_r alloc r0 r1 nel = Some (Inl ENOMEM)
   else \<exists>p. 3 \<le> p \<and> p \<le> 62 \<and> unat nel + unat nel div 3 + 1 \<le> 2 ^ p \<and>
     (if alloc (2 ^ p)
      then \<exists>t. hcreate_r alloc r0 r1 nel = Some (Inr t) \<and>
        (\<forall>items. length items \<le> unat nel \<longrightarrow>
          (\<exists>t'. enter_all henter items t = Some t' \<and> htab_inv t' \<and> hfind t' = map_of items))
      else hcreate_r alloc r0 r1 nel = Some (Inl ENOMEM))"
proof (cases "nel \<ge> 2 ^ 61")
  case True
  then have "nel > drop_bit 3 (- 1)" unfolding size_limit by (rule less_le_trans [rotated]) simp
  with True show ?thesis by (simp add: hcreate_r_def)
next
  case False
  then have "nel \<le> drop_bit 3 (- 1)" unfolding size_limit by (simp add: not_le word_le_nat_alt word_less_nat_alt)
  from hcreate_eq [OF this, of alloc r0 r1] obtain p where p: "3 \<le> p" "p \<le> 62"
    "unat nel + unat nel div 3 + 1 \<le> 2 ^ p"
    "hcreate_r alloc r0 r1 nel = Some (if alloc (2 ^ p) then Inr (new_htab p r0 r1) else Inl ENOMEM)" by blast
  have "\<exists>t'. enter_all henter items (new_htab p r0 r1) = Some t' \<and> htab_inv t' \<and> hfind t' = map_of items"
    if "length items \<le> unat nel" for items
    by (rule new_htab_takes) (use p(1-3) that in simp_all)
  then show ?thesis using False p by auto
qed

theorem hcreate_r_capacity_witness:
  "hcreate_r (\<lambda>_. True) 1 2 (2 ^ 61) = Some (Inl ENOMEM) \<and> hcreate_r (\<lambda>_. False) 1 2 2 = Some (Inl ENOMEM) \<and>
   (\<exists>t t'. hcreate_r (\<lambda>_. True) 1 2 2 = Some (Inr t) \<and>
     enter_all henter [(lit ''a'', 1), (lit ''b'', 2)] t = Some t' \<and>
     hfind t' = map_of [(lit ''a'', 1), (lit ''b'', 2)])"
proof (intro conjI)
  show "hcreate_r (\<lambda>_. True) 1 2 (2 ^ 61) = Some (Inl ENOMEM)"
    using hcreate_r_capacity [of "2 ^ 61" "\<lambda>_. True" 1 2] by simp
  have n: "\<not> (2 ^ 61 \<le> (2 :: u64))" by simp
  show "hcreate_r (\<lambda>_. False) 1 2 2 = Some (Inl ENOMEM)"
    using hcreate_r_capacity [of 2 "\<lambda>_. False" 1 2] n by auto
  obtain t where t: "hcreate_r (\<lambda>_. True) 1 2 2 = Some (Inr t)"
    "\<And>items. length items \<le> unat (2 :: u64) \<Longrightarrow> \<exists>t'. enter_all henter items t = Some t' \<and> htab_inv t' \<and> hfind t' = map_of items"
    using hcreate_r_capacity [of 2 "\<lambda>_. True" 1 2] n by (simp del: enter_all.simps) blast
  from t(2) [of "[(lit ''a'', 1), (lit ''b'', 2)]"] t(1)
  show "\<exists>t t'. hcreate_r (\<lambda>_. True) 1 2 2 = Some (Inr t) \<and>
     enter_all henter [(lit ''a'', 1), (lit ''b'', 2)] t = Some t' \<and>
     hfind t' = map_of [(lit ''a'', 1), (lit ''b'', 2)]" by (simp del: enter_all.simps) blast
qed

end
