(* ===== verification/Avl.thy ===== *)
theory Avl
  imports Comparator
begin

text \<open>
  AVL trees as values, the reference for the pointer code of \<open>TSearch\<close>: the rotations, the insertion
  and the deletion of a key along a recorded path.  A node stores its height; the path is a list of
  frames, innermost first, each a node without the child the search went into.  A path longer than
  its limit and a rotation without the child it needs are faults (\<open>None\<close>).
\<close>

subsection \<open>The operations\<close>

datatype 'k node = Null | Node 'k "'k node" "'k node" int

text \<open>The key, whether the search went right, the child it did not go into, the stored tree_height.\<close>

type_synonym 'k frame = "'k \<times> bool \<times> 'k node \<times> int"

definition MAXH :: nat where
  "MAXH = 100"

fun tree_height :: "'k node \<Rightarrow> int" where
  "tree_height Null = 0"
| "tree_height (Node k l r h) = h"

definition node_height :: "'k node \<Rightarrow> 'k node \<Rightarrow> int" where
  "node_height l r = 1 + (if tree_height l > tree_height r then tree_height l else tree_height r)"

fun tree_rot :: "'k node \<Rightarrow> bool \<Rightarrow> 'k node option" where
  "tree_rot (Node k (Node ck cl cr ch) r h) True =
     (let n = Node k cr r (node_height cr r) in Some (Node ck cl n (node_height cl n)))"
| "tree_rot (Node k l (Node ck cl cr ch) h) False =
     (let n = Node k l cl (node_height l cl) in Some (Node ck n cr (node_height n cr)))"
| "tree_rot _ _ = None"

fun tree_balance :: "'k node \<Rightarrow> 'k node option" where
  "tree_balance Null = None"
| "tree_balance (Node k l r h) =
     (if tree_height l - tree_height r > 1 then
        (case l of Null \<Rightarrow> None
         | Node ck cl cr ch \<Rightarrow> do {
             l' \<leftarrow> (if tree_height cr > tree_height cl then tree_rot l False else Some l);
             tree_rot (Node k l' r h) True })
      else if tree_height r - tree_height l > 1 then
        (case r of Null \<Rightarrow> None
         | Node ck cl cr ch \<Rightarrow> do {
             r' \<leftarrow> (if tree_height cl > tree_height cr then tree_rot r True else Some r);
             tree_rot (Node k l r' h) False })
      else Some (Node k l r (node_height l r)))"

fun tree_find :: "('k \<Rightarrow> 'k \<Rightarrow> int) \<Rightarrow> 'k \<Rightarrow> 'k node \<Rightarrow> 'k option" where
  "tree_find cmp key Null = None"
| "tree_find cmp key (Node k l r h) =
     (let c = cmp key k in if c = 0 then Some k else tree_find cmp key (if c > 0 then r else l))"

fun plug :: "'k frame \<Rightarrow> 'k node \<Rightarrow> 'k node" where
  "plug (k, right, sib, h) n = (if right then Node k sib n h else Node k n sib h)"

text \<open>The way down, recording the path; and \<^verbatim>\<open>while (depth--)\<close>, the way up.\<close>

fun tree_descend :: "('k \<Rightarrow> 'k \<Rightarrow> int) \<Rightarrow> nat \<Rightarrow> 'k \<Rightarrow> 'k node \<Rightarrow> 'k frame list \<Rightarrow>
    ('k node \<times> 'k frame list) option" where
  "tree_descend cmp lim key Null path = Some (Null, path)"
| "tree_descend cmp lim key (Node k l r h) path =
     (let c = cmp key k in
      if c = 0 then Some (Node k l r h, path)
      else if lim \<le> length path then None
      else if c > 0 then tree_descend cmp lim key r ((k, True, l, h) # path)
      else tree_descend cmp lim key l ((k, False, r, h) # path))"

fun tree_unwind :: "'k frame list \<Rightarrow> 'k node \<Rightarrow> 'k node option" where
  "tree_unwind [] n = Some n"
| "tree_unwind (f # path) n = do { n' \<leftarrow> tree_balance (plug f n); tree_unwind path n' }"

text \<open>\<open>alloc\<close>: whether \<open>malloc\<close> has a node.  The result is the key found or entered, and the root.\<close>

definition tree_search :: "('k \<Rightarrow> 'k \<Rightarrow> int) \<Rightarrow> bool \<Rightarrow> 'k \<Rightarrow> 'k node \<Rightarrow> ('k option \<times> 'k node) option" where
  "tree_search cmp alloc key root = do {
     (n, path) \<leftarrow> tree_descend cmp MAXH key root [];
     case n of
       Node k l r h \<Rightarrow> Some (Some k, root)
     | Null \<Rightarrow>
         if \<not> alloc then Some (None, root)
         else do { root' \<leftarrow> tree_unwind path (Node key Null Null 1); Some (Some key, root') } }"

text \<open>The tree_walk to the in-order successor; \<open>room\<close> is what is left of the path array.\<close>

fun tree_leftmost :: "nat \<Rightarrow> 'k node \<Rightarrow> 'k frame list \<Rightarrow> ('k node \<times> 'k frame list) option" where
  "tree_leftmost room Null path = None"
| "tree_leftmost room (Node k l r h) path =
     (if l = Null then Some (Node k l r h, path)
      else if room = 0 then None
      else tree_leftmost (room - 1) l ((k, False, r, h) # path))"

text \<open>What \<open>tree_delete\<close> returns: null, the root pointer, or the parent node.\<close>

datatype 'k tree_parent = TNone | TRoot | TParent 'k

definition tree_delete :: "('k \<Rightarrow> 'k \<Rightarrow> int) \<Rightarrow> 'k \<Rightarrow> 'k node \<Rightarrow> ('k tree_parent \<times> 'k node) option" where
  "tree_delete cmp key root = do {
     (n, path) \<leftarrow> tree_descend cmp (MAXH + 1) key root [];
     let parent = (case path of [] \<Rightarrow> TRoot | (k, _) # _ \<Rightarrow> TParent k);
     case n of
       Null \<Rightarrow> Some (TNone, root)
     | Node k l r h \<Rightarrow>
         if l = Null \<or> r = Null then do {
           root' \<leftarrow> tree_unwind path (if l = Null then r else l);
           Some (parent, root') }
         else if MAXH + 1 \<le> length path then None
         else do {
           (s, spine) \<leftarrow> tree_leftmost (MAXH - length path) r [];
           case s of
             Null \<Rightarrow> None
           | Node sk sl sr sh \<Rightarrow> do {
               r' \<leftarrow> tree_unwind spine sr;
               n' \<leftarrow> tree_balance (Node sk l r' sh);
               root' \<leftarrow> tree_unwind path n';
               Some (parent, root') } } }"

datatype visit = preorder | postorder | endorder | leaf

fun tree_walk :: "'k node \<Rightarrow> nat \<Rightarrow> ('k \<times> visit \<times> nat) list" where
  "tree_walk Null level = []"
| "tree_walk (Node k l r h) level =
     (if l = Null \<and> r = Null then [(k, leaf, level)]
      else (k, preorder, level) # tree_walk l (level + 1) @ (k, postorder, level) # tree_walk r (level + 1) @
        [(k, endorder, level)])"

subsection \<open>The invariant\<close>

fun ht :: "'k node \<Rightarrow> int" where
  "ht Null = 0"
| "ht (Node k l r h) = 1 + max (ht l) (ht r)"

fun avl :: "'k node \<Rightarrow> bool" where
  "avl Null \<longleftrightarrow> True"
| "avl (Node k l r h) \<longleftrightarrow> h = 1 + max (ht l) (ht r) \<and> \<bar>ht l - ht r\<bar> \<le> 1 \<and> avl l \<and> avl r"

fun inorder :: "'k node \<Rightarrow> 'k list" where
  "inorder Null = []"
| "inorder (Node k l r h) = inorder l @ k # inorder r"

lemma ht_nonneg: "0 \<le> ht n"
  by (induction n) auto

lemma avl_height: "avl n \<Longrightarrow> tree_height n = ht n"
  by (cases n) auto

lemma node_height_avl: "avl l \<Longrightarrow> avl r \<Longrightarrow> node_height l r = 1 + max (ht l) (ht r)"
  by (simp add: node_height_def avl_height max_def)

lemma tree_balance_left:
  assumes "avl l" "avl r" "ht l = ht r + 2"
  shows "\<exists>t. tree_balance (Node k l r h) = Some t \<and> avl t \<and> inorder t = inorder l @ k # inorder r \<and>
    (ht t = ht l \<or> ht t = ht l + 1)"
proof -
  from assms(3) ht_nonneg [of r] obtain ck cl cr ch where l: "l = Node ck cl cr ch" by (cases l) auto
  show ?thesis
  proof (cases "ht cr > ht cl")
    case True
    with ht_nonneg [of cl] obtain dk dl dr dh where "cr = Node dk dl dr dh" by (cases cr) auto
    with l assms True show ?thesis
      by (auto simp: avl_height node_height_avl Let_def max_def split: if_splits)
  next
    case False
    with l assms show ?thesis
      by (auto simp: avl_height node_height_avl Let_def max_def split: if_splits)
  qed
qed

lemma tree_balance_right:
  assumes "avl l" "avl r" "ht r = ht l + 2"
  shows "\<exists>t. tree_balance (Node k l r h) = Some t \<and> avl t \<and> inorder t = inorder l @ k # inorder r \<and>
    (ht t = ht r \<or> ht t = ht r + 1)"
proof -
  from assms(3) ht_nonneg [of l] obtain ck cl cr ch where r: "r = Node ck cl cr ch" by (cases r) auto
  show ?thesis
  proof (cases "ht cl > ht cr")
    case True
    with ht_nonneg [of cr] obtain dk dl dr dh where "cl = Node dk dl dr dh" by (cases cl) auto
    with r assms True show ?thesis
      by (auto simp: avl_height node_height_avl Let_def max_def split: if_splits)
  next
    case False
    with r assms show ?thesis
      by (auto simp: avl_height node_height_avl Let_def max_def split: if_splits)
  qed
qed

declare tree_balance.simps [simp del]

lemma tree_balance_avl:
  assumes "avl l" "avl r" "\<bar>ht l - ht r\<bar> \<le> 2"
  shows "\<exists>t. tree_balance (Node k l r h) = Some t \<and> avl t \<and> inorder t = inorder l @ k # inorder r \<and>
    ht t \<le> 1 + max (ht l) (ht r) \<and> max (ht l) (ht r) \<le> ht t \<and>
    (\<bar>ht l - ht r\<bar> \<le> 1 \<longrightarrow> ht t = 1 + max (ht l) (ht r))"
proof -
  consider "ht l = ht r + 2" | "ht r = ht l + 2" | "\<bar>ht l - ht r\<bar> \<le> 1" using assms(3) by linarith
  then show ?thesis
  proof cases
    case 1
    with tree_balance_left [OF assms(1,2) 1, of k h] show ?thesis by auto
  next
    case 2
    with tree_balance_right [OF assms(1,2) 2, of k h] show ?thesis by auto
  next
    case 3
    with assms show ?thesis by (auto simp: tree_balance.simps avl_height node_height_avl)
  qed
qed

subsection \<open>The path\<close>

fun zip_up :: "'k frame list \<Rightarrow> 'k node \<Rightarrow> 'k node" where
  "zip_up [] n = n"
| "zip_up (f # path) n = zip_up path (plug f n)"

fun before :: "'k frame list \<Rightarrow> 'k list" where
  "before [] = []"
| "before ((k, right, sib, h) # path) = (if right then before path @ inorder sib @ [k] else before path)"

fun after :: "'k frame list \<Rightarrow> 'k list" where
  "after [] = []"
| "after ((k, right, sib, h) # path) = (if right then after path else k # inorder sib @ after path)"

lemma inorder_zip_up: "inorder (zip_up path n) = before path @ inorder n @ after path"
  by (induction path n rule: zip_up.induct) (auto split: prod.splits)

lemma avl_zip_up: "avl (zip_up path n) \<Longrightarrow> avl n"
  by (induction path n rule: zip_up.induct) (fastforce split: prod.splits if_splits)+

text \<open>
  On the way up, a subtree whose tree_height is off by one is rebalanced into one that is again off
  by at most one.
\<close>

lemma off_by_one:
  fixes a b b0 h :: int
  assumes "\<bar>b - b0\<bar> \<le> 1" "\<bar>b0 - a\<bar> \<le> 1" "h \<le> 1 + max a b" "max a b \<le> h"
    "\<bar>a - b\<bar> \<le> 1 \<longrightarrow> h = 1 + max a b"
  shows "\<bar>h - (1 + max a b0)\<bar> \<le> 1"
  using assms by (cases "\<bar>a - b\<bar> \<le> 1") (auto simp: max_def abs_le_iff split: if_splits)

lemma tree_unwind_avl:
  assumes "avl (zip_up path n0)" "avl n" "\<bar>ht n - ht n0\<bar> \<le> 1"
  shows "\<exists>t. tree_unwind path n = Some t \<and> avl t \<and> inorder t = before path @ inorder n @ after path \<and>
    \<bar>ht t - ht (zip_up path n0)\<bar> \<le> 1"
  using assms
proof (induction path arbitrary: n n0)
  case Nil
  then show ?case by simp
next
  case (Cons f path)
  obtain k right sib h where f: "f = (k, right, sib, h)" by (cases f) auto
  have old: "avl (plug f n0)" using Cons.prems(1) avl_zip_up [of path "plug f n0"] by simp
  then have sib: "avl sib" "\<bar>ht n0 - ht sib\<bar> \<le> 1" by (auto simp: f split: if_splits)
  have two: "\<bar>ht sib - ht n\<bar> \<le> 2" "\<bar>ht n - ht sib\<bar> \<le> 2" using Cons.prems(3) sib(2) by linarith+
  have "\<exists>t. tree_balance (plug f n) = Some t \<and> avl t \<and> \<bar>ht t - ht (plug f n0)\<bar> \<le> 1 \<and>
    inorder t = (if right then inorder sib @ k # inorder n else inorder n @ k # inorder sib)"
  proof (cases right)
    case True
    from tree_balance_avl [OF sib(1) Cons.prems(2) two(1), of k h] obtain t where
      t: "tree_balance (Node k sib n h) = Some t" "avl t" "inorder t = inorder sib @ k # inorder n"
      "ht t \<le> 1 + max (ht sib) (ht n)" "max (ht sib) (ht n) \<le> ht t"
      "\<bar>ht sib - ht n\<bar> \<le> 1 \<longrightarrow> ht t = 1 + max (ht sib) (ht n)" by blast
    from off_by_one [OF Cons.prems(3) sib(2) t(4-6)] True t(1-3) show ?thesis by (simp add: f)
  next
    case False
    from tree_balance_avl [OF Cons.prems(2) sib(1) two(2), of k h] obtain t where
      t: "tree_balance (Node k n sib h) = Some t" "avl t" "inorder t = inorder n @ k # inorder sib"
      "ht t \<le> 1 + max (ht n) (ht sib)" "max (ht n) (ht sib) \<le> ht t"
      "\<bar>ht n - ht sib\<bar> \<le> 1 \<longrightarrow> ht t = 1 + max (ht n) (ht sib)" by blast
    from off_by_one [OF Cons.prems(3) sib(2), of "ht t"] False t show ?thesis
      by (simp add: f max.commute abs_minus_commute)
  qed
  then obtain t where t: "tree_balance (plug f n) = Some t" "avl t" "\<bar>ht t - ht (plug f n0)\<bar> \<le> 1"
    "inorder t = (if right then inorder sib @ k # inorder n else inorder n @ k # inorder sib)" by blast
  have "avl (zip_up path (plug f n0))" using Cons.prems(1) by simp
  from Cons.IH [OF this t(2,3)] t show ?case by (auto simp: f)
qed

lemma tree_descend_zip: "tree_descend cmp lim key n path = Some (m, path') \<Longrightarrow> zip_up path' m = zip_up path n"
  by (induction cmp lim key n path rule: tree_descend.induct) (auto simp: Let_def split: if_splits)

lemma tree_descend_total:
  "int (length path) + ht n \<le> int lim \<Longrightarrow>
     \<exists>m path'. tree_descend cmp lim key n path = Some (m, path') \<and>
       int (length path') + ht m \<le> int (length path) + ht n"
proof (induction cmp lim key n path rule: tree_descend.induct)
  case (2 cmp lim key k l r h path)
  have "0 \<le> ht l" "0 \<le> ht r" by (rule ht_nonneg)+
  with 2 show ?case by (fastforce simp: Let_def)
qed simp

lemma tree_descend_key:
  "tree_descend cmp lim key n path = Some (Node k l r h, path') \<Longrightarrow> cmp key k = 0"
  by (induction cmp lim key n path rule: tree_descend.induct) (auto simp: Let_def split: if_splits)

lemma strictly_sorted_append:
  "strictly_sorted_by cmp (xs @ ys) \<longleftrightarrow> strictly_sorted_by cmp xs \<and> strictly_sorted_by cmp ys \<and>
     (\<forall>x \<in> set xs. \<forall>y \<in> set ys. cmp x y < 0)"
  by (simp add: strictly_sorted_by_def sorted_wrt_append)

lemma strictly_sorted_Cons:
  "strictly_sorted_by cmp (x # xs) \<longleftrightarrow> (\<forall>y \<in> set xs. cmp x y < 0) \<and> strictly_sorted_by cmp xs"
  by (simp add: strictly_sorted_by_def)

context comparator
begin

lemma tree_descend_order:
  "tree_descend cmp lim key n path = Some (m, path') \<Longrightarrow> strictly_sorted_by cmp (inorder n) \<Longrightarrow>
    \<forall>x \<in> set (before path). cmp x key < 0 \<Longrightarrow> \<forall>x \<in> set (after path). cmp key x < 0 \<Longrightarrow>
    (\<forall>x \<in> set (before path'). cmp x key < 0) \<and> (\<forall>x \<in> set (after path'). cmp key x < 0)"
proof (induction n arbitrary: path)
  case (Node k l r h)
  show ?case
  proof (cases "cmp key k" "0 :: int" rule: linorder_cases)
    case less
    then have d: "tree_descend cmp lim key l ((k, False, r, h) # path) = Some (m, path')"
      using Node.prems(1) by (auto simp: Let_def split: if_splits)
    have "\<forall>x \<in> set (after ((k, False, r, h) # path)). cmp key x < 0"
      using Node.prems(2,4) less cmp_less_trans [of key k]
      by (fastforce simp: strictly_sorted_append strictly_sorted_Cons)
    with Node.IH(1) [OF d] Node.prems show ?thesis by (simp add: strictly_sorted_append)
  next
    case equal
    with Node.prems show ?thesis by simp
  next
    case greater
    then have d: "tree_descend cmp lim key r ((k, True, l, h) # path) = Some (m, path')"
      using Node.prems(1) by (auto simp: Let_def split: if_splits)
    have "cmp k key < 0" using greater cmp_flip by simp
    then have "\<forall>x \<in> set (before ((k, True, l, h) # path)). cmp x key < 0"
      using Node.prems(2,3) cmp_less_trans [of _ k key]
      by (fastforce simp: strictly_sorted_append strictly_sorted_Cons)
    with Node.IH(2) [OF d] Node.prems show ?thesis
      by (simp add: strictly_sorted_append strictly_sorted_Cons)
  qed
qed simp

lemma tree_find_iff:
  "strictly_sorted_by cmp (inorder n) \<Longrightarrow> tree_find cmp key n = Some x \<longleftrightarrow> x \<in> set (inorder n) \<and> cmp key x = 0"
proof (induction n)
  case (Node k l r h)
  then have less: "\<forall>y \<in> set (inorder l). cmp y k < 0" "\<forall>y \<in> set (inorder r). cmp k y < 0"
    and IH: "tree_find cmp key l = Some x \<longleftrightarrow> x \<in> set (inorder l) \<and> cmp key x = 0"
      "tree_find cmp key r = Some x \<longleftrightarrow> x \<in> set (inorder r) \<and> cmp key x = 0"
    by (auto simp: strictly_sorted_append strictly_sorted_Cons)
  show ?case
  proof (cases "cmp key k" "0 :: int" rule: linorder_cases)
    case less: less
    then have "\<forall>y \<in> set (inorder r). cmp key y < 0" using cmp_less_trans [of key k] \<open>\<forall>y \<in> set (inorder r). _\<close> by fastforce
    with less IH show ?thesis by (auto simp: Let_def)
  next
    case equal
    then have "\<forall>y \<in> set (inorder r). cmp key y < 0" "\<forall>y \<in> set (inorder l). 0 < cmp key y"
      using less cmp_zero_left [of key k] cmp_zero_right [of k key] cmp_zero_sym [of key k] cmp_flip by auto
    with equal show ?thesis by (auto simp: Let_def)
  next
    case greater
    then have "cmp k key < 0" using cmp_flip by simp
    then have "\<forall>y \<in> set (inorder l). 0 < cmp key y"
      using cmp_less_trans [of _ k key] less cmp_flip by fastforce
    with greater IH show ?thesis by (auto simp: Let_def)
  qed
qed simp

lemma tree_descend_found:
  assumes "tree_descend cmp lim key root [] = Some (Node k l r h, path)" "strictly_sorted_by cmp (inorder root)"
  shows "inorder root = before path @ (inorder l @ k # inorder r) @ after path \<and>
    filter (\<lambda>x. cmp key x \<noteq> 0) (inorder root) = before path @ (inorder l @ inorder r) @ after path"
proof -
  have eq: "inorder root = before path @ (inorder l @ k # inorder r) @ after path"
    using tree_descend_zip [OF assms(1)] inorder_zip_up [of path "Node k l r h"] by simp
  have k: "cmp key k = 0" using tree_descend_key [OF assms(1)] .
  then have k': "cmp k key = 0" using cmp_zero_sym by simp
  have "\<forall>x \<in> set (before path) \<union> set (inorder l). cmp x k < 0" "\<forall>x \<in> set (inorder r) \<union> set (after path). cmp k x < 0"
    using assms(2) unfolding eq by (auto simp: strictly_sorted_append strictly_sorted_Cons)
  then have "\<forall>x \<in> set (before path) \<union> set (inorder l). 0 < cmp key x" "\<forall>x \<in> set (inorder r) \<union> set (after path). cmp key x < 0"
    using cmp_zero_right [OF k'] cmp_zero_left [OF k] cmp_flip [of key] by blast+
  then have "\<forall>x \<in> set (before path) \<union> set (inorder l) \<union> set (inorder r) \<union> set (after path). cmp key x \<noteq> 0"
    by force
  then have all: "filter (\<lambda>x. cmp key x \<noteq> 0) xs = xs"
    if "set xs \<subseteq> set (before path) \<union> set (inorder l) \<union> set (inorder r) \<union> set (after path)" for xs
    using that by (auto intro: filter_True)
  have "filter (\<lambda>x. cmp key x \<noteq> 0) (before path) = before path"
    "filter (\<lambda>x. cmp key x \<noteq> 0) (inorder l) = inorder l"
    "filter (\<lambda>x. cmp key x \<noteq> 0) (inorder r) = inorder r"
    "filter (\<lambda>x. cmp key x \<noteq> 0) (after path) = after path" by (rule all, blast)+
  then show ?thesis using k by (simp only: eq filter_append filter.simps) simp
qed

lemma tree_descend_absent:
  assumes "tree_descend cmp lim key root [] = Some (Null, path)" "strictly_sorted_by cmp (inorder root)"
  shows "inorder root = before path @ after path \<and> strictly_sorted_by cmp (before path @ key # after path) \<and>
    (\<forall>x \<in> set (inorder root). cmp key x \<noteq> 0)"
proof -
  have eq: "inorder root = before path @ after path"
    using tree_descend_zip [OF assms(1)] inorder_zip_up [of path Null] by simp
  have "(\<forall>x \<in> set (before path). cmp x key < 0) \<and> (\<forall>x \<in> set (after path). cmp key x < 0)"
    using tree_descend_order [OF assms] by simp
  moreover from this have "\<forall>x \<in> set (before path). 0 < cmp key x" using cmp_flip [of key] by blast
  moreover have "cmp x y < 0" if "x \<in> set (before path)" "y \<in> set (after path)" for x y
    using assms(2) that by (simp add: eq strictly_sorted_append)
  ultimately show ?thesis using assms(2) by (force simp: eq strictly_sorted_append strictly_sorted_Cons)
qed

end

subsection \<open>The tree_height of the tree\<close>

text \<open>The least number of nodes of an AVL tree, with that of the next tree_height beside it.\<close>

fun nmin_pair :: "nat \<Rightarrow> int \<times> int" where
  "nmin_pair 0 = (0, 1)"
| "nmin_pair (Suc n) = (let (a, b) = nmin_pair n in (b, a + b + 1))"

definition nmin :: "nat \<Rightarrow> int" where
  "nmin n = fst (nmin_pair n)"

lemma nmin_snd: "snd (nmin_pair n) = nmin (Suc n)"
  by (simp add: nmin_def split_beta)

lemma nmin_Suc_Suc: "nmin (Suc (Suc n)) = nmin n + nmin (Suc n) + 1"
  by (simp add: nmin_def split_beta Let_def)

lemma nmin_0: "nmin 0 = 0" and nmin_1: "nmin (Suc 0) = 1"
  by (simp_all add: nmin_def)

lemma nmin_nonneg: "0 \<le> nmin n \<and> nmin n \<le> nmin (Suc n)"
  by (induction n) (auto simp: nmin_0 nmin_1 nmin_Suc_Suc)

lemma nmin_mono: "m \<le> n \<Longrightarrow> nmin m \<le> nmin n"
  by (rule lift_Suc_mono_le [of nmin]) (use nmin_nonneg in auto)

lemma nmin_92: "2 ^ 64 \<le> nmin 92"
  unfolding nmin_def by code_simp

lemma avl_size: "avl n \<Longrightarrow> nmin (nat (ht n)) \<le> int (length (inorder n))"
proof (induction n)
  case (Node k l r h)
  let ?H = "max (ht l) (ht r)" and ?m = "min (ht l) (ht r)"
  have nn: "0 \<le> ht l" "0 \<le> ht r" by (rule ht_nonneg)+
  have "nmin (nat ?H) + nmin (nat ?m) \<le> int (length (inorder l)) + int (length (inorder r))"
    using Node by (auto simp: max_def min_def)
  moreover have "nmin (nat (1 + ?H)) \<le> nmin (nat ?H) + nmin (nat ?m) + 1"
  proof (cases "?H = 0")
    case True
    then have "nat (1 + ?H) = Suc 0" by simp
    then have "nmin (nat (1 + ?H)) = 1" by (simp only: nmin_1)
    moreover have "0 \<le> nmin (nat ?H)" "0 \<le> nmin (nat ?m)" using nmin_nonneg by blast+
    ultimately show ?thesis by linarith
  next
    case False
    with nn have "0 < nat ?H" by (simp add: max_def split: if_splits)
    then obtain p where p: "nat ?H = Suc p" using gr0_implies_Suc by blast
    have "?H \<le> ?m + 1" using Node.prems by (auto simp: max_def min_def abs_le_iff)
    then have m: "p \<le> nat ?m" using p nn by linarith
    have "nat (1 + ?H) = Suc (Suc p)" using p nn by linarith
    then show ?thesis using nmin_mono [OF m] p by (simp only: nmin_Suc_Suc)
  qed
  ultimately show ?case by simp
qed (simp add: nmin_0)

lemma avl_height_bound:
  assumes "avl n" "length (inorder n) < 2 ^ 64"
  shows "ht n < 92"
proof (rule ccontr)
  assume "\<not> ht n < 92"
  then have "nmin 92 \<le> nmin (nat (ht n))" by (intro nmin_mono) simp
  with avl_size [OF assms(1)] nmin_92 assms(2) show False by simp
qed

subsection \<open>Insertion and deletion\<close>

lemma tree_search_avl:
  assumes "comparator cmp" "avl root" "strictly_sorted_by cmp (inorder root)" "length (inorder root) < 2 ^ 64"
  shows "case tree_find cmp key root of
      Some x \<Rightarrow> tree_search cmp alloc key root = Some (Some x, root)
    | None \<Rightarrow> if alloc then \<exists>root' xs ys. tree_search cmp alloc key root = Some (Some key, root') \<and> avl root' \<and>
          inorder root = xs @ ys \<and> inorder root' = xs @ key # ys \<and> strictly_sorted_by cmp (inorder root')
        else tree_search cmp alloc key root = Some (None, root)"
proof -
  have "ht root \<le> int MAXH" using avl_height_bound [OF assms(2,4)] by (simp add: MAXH_def)
  then obtain n path where d: "tree_descend cmp MAXH key root [] = Some (n, path)"
    using tree_descend_total [of "[]" root MAXH cmp key] by auto
  note find = comparator.tree_find_iff [OF assms(1,3)]
  show ?thesis
  proof (cases n)
    case Null
    note abs = comparator.tree_descend_absent [OF assms(1) d [unfolded Null] assms(3)]
    then have none: "tree_find cmp key root = None" using find by (metis option.exhaust)
    have z: "zip_up path Null = root" using tree_descend_zip [OF d] Null by simp
    have "avl (Node key Null Null 1)" "\<bar>ht (Node key Null Null 1) - ht (Null :: 'a node)\<bar> \<le> 1" by simp_all
    from tree_unwind_avl [of path Null, unfolded z, OF assms(2) this] obtain t where
      "tree_unwind path (Node key Null Null 1) = Some t" "avl t" "inorder t = before path @ key # after path" by auto
    with abs show ?thesis unfolding none by (auto simp: tree_search_def d Null)
  next
    case (Node k l r h)
    have "k \<in> set (inorder root)"
      using comparator.tree_descend_found [OF assms(1) d [unfolded Node] assms(3)] by auto
    then have "tree_find cmp key root = Some k" using find tree_descend_key [OF d [unfolded Node]] by simp
    then show ?thesis by (simp add: tree_search_def d Node)
  qed
qed

lemma tree_leftmost_ok:
  "n \<noteq> Null \<Longrightarrow> ht n \<le> int room + 1 \<Longrightarrow> \<exists>sk sr sh path'. tree_leftmost room n path = Some (Node sk Null sr sh, path') \<and>
     zip_up path' (Node sk Null sr sh) = zip_up path n \<and> before path' = before path"
proof (induction room n path rule: tree_leftmost.induct)
  case (2 room k l r h path)
  show ?case
  proof (cases "l = Null")
    case True
    then show ?thesis by auto
  next
    case False
    then have "1 \<le> ht l" using ht_nonneg by (cases l) (auto simp: max_def)
    with 2(3) have room: "room \<noteq> 0" "ht l \<le> int (room - 1) + 1" by auto
    with 2(1) [OF False room(1) False room(2)] False show ?thesis by auto
  qed
qed simp

lemma delete_min:
  assumes "avl r" "r \<noteq> Null" "ht r \<le> int room + 1"
  shows "\<exists>sk sr sh spine r'. tree_leftmost room r [] = Some (Node sk Null sr sh, spine) \<and>
    tree_unwind spine sr = Some r' \<and> avl r' \<and> inorder r = sk # inorder r' \<and> \<bar>ht r' - ht r\<bar> \<le> 1"
proof -
  from tree_leftmost_ok [OF assms(2,3), of "[]"] obtain sk sr sh spine where
    l: "tree_leftmost room r [] = Some (Node sk Null sr sh, spine)" and
    z: "zip_up spine (Node sk Null sr sh) = r" and b: "before spine = []" by auto
  have s: "avl (Node sk Null sr sh)" using assms(1) z avl_zip_up by metis
  then have "avl sr" "\<bar>ht sr - ht (Node sk Null sr sh)\<bar> \<le> 1" using ht_nonneg [of sr] by auto
  from tree_unwind_avl [of spine "Node sk Null sr sh", unfolded z, OF assms(1) this] obtain r' where
    r': "tree_unwind spine sr = Some r'" "avl r'" "inorder r' = inorder sr @ after spine" "\<bar>ht r' - ht r\<bar> \<le> 1"
    by (auto simp: b)
  have "inorder r = sk # inorder r'" using inorder_zip_up [of spine "Node sk Null sr sh"] z r'(3) b by simp
  with l r' show ?thesis by blast
qed

lemma tree_unwind_from:
  assumes "avl root" "zip_up path n0 = root" "avl n" "\<bar>ht n - ht n0\<bar> \<le> 1"
  shows "\<exists>t. tree_unwind path n = Some t \<and> avl t \<and> inorder t = before path @ inorder n @ after path"
  using tree_unwind_avl [of path n0 n] assms by auto

lemma tree_delete_avl:
  assumes "comparator cmp" "avl root" "strictly_sorted_by cmp (inorder root)" "length (inorder root) < 2 ^ 64"
  shows "\<exists>p root'. tree_delete cmp key root = Some (p, root') \<and> avl root' \<and>
    inorder root' = filter (\<lambda>x. cmp key x \<noteq> 0) (inorder root) \<and>
    (p = TNone \<longleftrightarrow> (\<forall>x \<in> set (inorder root). cmp key x \<noteq> 0))"
proof -
  have bound: "ht root < 92" by (rule avl_height_bound [OF assms(2,4)])
  then have "int (length []) + ht root \<le> int (MAXH + 1)" by (simp add: MAXH_def)
  from tree_descend_total [OF this, of cmp key] obtain n path where
    d: "tree_descend cmp (MAXH + 1) key root [] = Some (n, path)" and
    len: "int (length path) + ht n \<le> ht root" by auto
  show ?thesis
  proof (cases n)
    case Null
    from comparator.tree_descend_absent [OF assms(1) d [unfolded Null] assms(3)] assms(2) show ?thesis
      by (auto simp: tree_delete_def d [unfolded Null Suc_eq_plus1 [symmetric]])
  next
    case (Node k l r h)
    note d' = d [unfolded Node]
    note found = comparator.tree_descend_found [OF assms(1) d' assms(3)]
    have z: "zip_up path (Node k l r h) = root" using tree_descend_zip [OF d'] by simp
    then have a: "avl (Node k l r h)" using assms(2) avl_zip_up by metis
    have key: "\<not> (\<forall>x \<in> set (inorder root). cmp key x \<noteq> 0)" using found tree_descend_key [OF d'] by auto
    let ?par = "case path of [] \<Rightarrow> TRoot | (k, _) # _ \<Rightarrow> TParent k"
    have par: "?par \<noteq> TNone" by (auto split: list.splits)
    show ?thesis
    proof (cases "l = Null \<or> r = Null")
      case True
      let ?m = "if l = Null then r else l"
      have m: "avl ?m" "\<bar>ht ?m - ht (Node k l r h)\<bar> \<le> 1" "inorder ?m = inorder l @ inorder r"
        using a True ht_nonneg [of l] ht_nonneg [of r] by auto
      from tree_unwind_from [OF assms(2) z m(1,2)] obtain t where
        t: "tree_unwind path ?m = Some t" "avl t" "inorder t = before path @ inorder ?m @ after path" by blast
      have "tree_delete cmp key root = Some (?par, t)" unfolding tree_delete_def d' using True t(1) by simp
      moreover have "inorder t = filter (\<lambda>x. cmp key x \<noteq> 0) (inorder root)"
        unfolding t(3) m(3) conjunct2 [OF found] ..
      ultimately show ?thesis using par key t(2) by blast
    next
      case False
      have hr: "ht r < ht (Node k l r h)" by simp
      have plen: "int (length path) < 92" using len bound ht_nonneg [of n] by linarith
      then have room: "length path < MAXH" by (simp add: MAXH_def)
      have "ht r \<le> int (MAXH - length path) + 1" using len bound hr room by (simp add: Node MAXH_def)
      from delete_min [OF _ _ this] a False obtain sk sr sh spine r' where
        m: "tree_leftmost (MAXH - length path) r [] = Some (Node sk Null sr sh, spine)" "tree_unwind spine sr = Some r'"
        "avl r'" "inorder r = sk # inorder r'" "\<bar>ht r' - ht r\<bar> \<le> 1" by auto
      have "avl l" "\<bar>ht l - ht r'\<bar> \<le> 2" using a m(5) by auto
      from tree_balance_avl [OF this(1) m(3) this(2), of sk sh] obtain n' where
        n': "tree_balance (Node sk l r' sh) = Some n'" "avl n'" "inorder n' = inorder l @ sk # inorder r'"
        "ht n' \<le> 1 + max (ht l) (ht r')" "max (ht l) (ht r') \<le> ht n'"
        "\<bar>ht l - ht r'\<bar> \<le> 1 \<longrightarrow> ht n' = 1 + max (ht l) (ht r')" by blast
      have "\<bar>ht n' - ht (Node k l r h)\<bar> \<le> 1"
        using off_by_one [OF m(5) _ n'(4-6)] a by (simp add: abs_minus_commute)
      from tree_unwind_from [OF assms(2) z n'(2) this] obtain t where
        t: "tree_unwind path n' = Some t" "avl t" "inorder t = before path @ inorder n' @ after path" by blast
      have "tree_delete cmp key root = Some (?par, t)"
        unfolding tree_delete_def d' using False room m(1,2) n'(1) t(1) by simp
      moreover have "inorder t = filter (\<lambda>x. cmp key x \<noteq> 0) (inorder root)"
        unfolding t(3) n'(3) conjunct2 [OF found] m(4) ..
      ultimately show ?thesis using par key t(2) by blast
    qed
  qed
qed

subsection \<open>The tree_walk\<close>

lemma tree_walk_inorder:
  "map fst (filter (\<lambda>(_, v, _). v = leaf \<or> v = postorder) (tree_walk n level)) = inorder n"
  by (induction n level rule: tree_walk.induct) auto

end
