(* ===== verification/TSearch.thy ===== *)
theory TSearch
  imports Avl
begin

text \<open>
  \<open>tsearch\<close>, \<open>tfind\<close>, \<open>tdelete\<close>, \<open>twalk\<close> and \<open>tdestroy\<close> of \<^verbatim>\<open>src/search.c\<close> on an explicit store of nodes: an
  address maps to a node while it is allocated.  The state is the root pointer and the store, and the
  elements of the array \<open>path\<close> are the slots (\<open>struct node **\<close>) the code saves: the root or the link of a
  node on one side.  Reading or writing through a null pointer or a freed node is a fault (\<open>None\<close>), as
  is a store beyond the end of \<open>path\<close>.
\<close>

subsection \<open>The store\<close>

record 'k tnode =
  nkey :: 'k
  na0 :: u64
  na1 :: u64
  nh :: int

type_synonym 'k store = "u64 \<Rightarrow> 'k tnode option"

datatype slot = Root | Child u64 bool

type_synonym 'k tstate = "u64 \<times> 'k store"

definition node_at :: "'k store \<Rightarrow> u64 \<Rightarrow> 'k tnode option" where
  "node_at m n = (if n = 0 then None else m n)"

definition child :: "'k store \<Rightarrow> u64 \<Rightarrow> bool \<Rightarrow> u64 option" where
  "child m n d = do { x \<leftarrow> node_at m n; Some (if d then na1 x else na0 x) }"

definition set_child :: "'k store \<Rightarrow> u64 \<Rightarrow> bool \<Rightarrow> u64 \<Rightarrow> 'k store option" where
  "set_child m n d v = do { x \<leftarrow> node_at m n; Some (m(n \<mapsto> (if d then x \<lparr> na1 := v \<rparr> else x \<lparr> na0 := v \<rparr>))) }"

definition set_h :: "'k store \<Rightarrow> u64 \<Rightarrow> int \<Rightarrow> 'k store option" where
  "set_h m n v = do { x \<leftarrow> node_at m n; Some (m(n \<mapsto> x \<lparr> nh := v \<rparr>)) }"

fun load_slot :: "'k tstate \<Rightarrow> slot \<Rightarrow> u64 option" where
  "load_slot (root, m) Root = Some root"
| "load_slot (root, m) (Child n d) = child m n d"

fun store_slot :: "slot \<Rightarrow> u64 \<Rightarrow> 'k tstate \<Rightarrow> 'k tstate option" where
  "store_slot Root v (root, m) = Some (v, m)"
| "store_slot (Child n d) v (root, m) = do { m \<leftarrow> set_child m n d v; Some (root, m) }"

subsection \<open>The operations\<close>

definition height :: "'k store \<Rightarrow> u64 \<Rightarrow> int option" where
  "height m n = (if n = 0 then Some 0 else do { x \<leftarrow> node_at m n; Some (nh x) })"

text \<open>\<open>n->h = 1 + (hl > hr ? hl : hr)\<close> with the heights of the children of \<open>n\<close>.\<close>

definition fix_height :: "u64 \<Rightarrow> 'k store \<Rightarrow> 'k store option" where
  "fix_height n m = do {
     a0 \<leftarrow> child m n False; a1 \<leftarrow> child m n True;
     hl \<leftarrow> height m a0; hr \<leftarrow> height m a1;
     set_h m n (1 + (if hl > hr then hl else hr)) }"

definition rot :: "u64 \<Rightarrow> bool \<Rightarrow> 'k store \<Rightarrow> (u64 \<times> 'k store) option" where
  "rot n dir m = do {
     c \<leftarrow> child m n (\<not> dir);
     x \<leftarrow> child m c dir;
     m \<leftarrow> set_child m n (\<not> dir) x;
     m \<leftarrow> set_child m c dir n;
     m \<leftarrow> fix_height n m;
     m \<leftarrow> fix_height c m;
     Some (c, m) }"

text \<open>The child on side \<open>d\<close> is too high.\<close>

definition lower :: "u64 \<Rightarrow> bool \<Rightarrow> 'k store \<Rightarrow> (u64 \<times> 'k store) option" where
  "lower n d m = do {
     c \<leftarrow> child m n d;
     inner \<leftarrow> child m c (\<not> d); outer \<leftarrow> child m c d;
     hi \<leftarrow> height m inner; ho \<leftarrow> height m outer;
     m \<leftarrow> (if hi > ho then do { (c, m) \<leftarrow> rot c d m; set_child m n d c } else Some m);
     rot n (\<not> d) m }"

definition balance :: "u64 \<Rightarrow> 'k store \<Rightarrow> (u64 \<times> 'k store) option" where
  "balance n m = do {
     a0 \<leftarrow> child m n False; a1 \<leftarrow> child m n True;
     hl \<leftarrow> height m a0; hr \<leftarrow> height m a1;
     if hl - hr > 1 then lower n False m
     else if hr - hl > 1 then lower n True m
     else do { m \<leftarrow> set_h m n (1 + (if hl > hr then hl else hr)); Some (n, m) } }"




definition push :: "nat \<Rightarrow> slot list \<Rightarrow> slot \<Rightarrow> slot list option" where
  "push lim path s = (if lim \<le> length path then None else Some (path @ [s]))"

text \<open>What \<open>tdelete\<close> returns: null, the root pointer, or the address of the parent node.\<close>

datatype parent = NoNode | RootPtr | Parent u64

text \<open>
  The way down of \<open>tsearch\<close> and \<open>tdelete\<close>, to the slot that holds the key or a null pointer: the slot, the
  slots passed and the last node passed.
\<close>

partial_function (option) descend ::
    "('k \<Rightarrow> 'k \<Rightarrow> int) \<Rightarrow> nat \<Rightarrow> 'k \<Rightarrow> 'k tstate \<Rightarrow> slot \<Rightarrow> slot list \<Rightarrow> parent \<Rightarrow> (slot \<times> slot list \<times> parent) option" where
  "descend cmp lim key st pp path parent = do {
     n \<leftarrow> load_slot st pp;
     if n = 0 then Some (pp, path, parent)
     else do {
       x \<leftarrow> node_at (snd st) n;
       let c = cmp key (nkey x);
       if c = 0 then Some (pp, path, parent)
       else do {
         path \<leftarrow> push lim path pp;
         descend cmp lim key st (Child n (c > 0)) path (Parent n) } } }"

declare descend.simps [code]

text \<open>
  The way up, from the last slot saved; \<open>tdelete\<close> skips a slot that holds a null pointer (\<open>skip\<close>).
\<close>

fun unwind :: "bool \<Rightarrow> slot list \<Rightarrow> 'k tstate \<Rightarrow> 'k tstate option" where
  "unwind skip [] st = Some st"
| "unwind skip (s # path) st = do {
     n \<leftarrow> load_slot st s;
     if skip \<and> n = 0 then unwind skip path st
     else do {
       (n, m) \<leftarrow> balance n (snd st);
       st \<leftarrow> store_slot s n (fst st, m);
       unwind skip path st } }"


text \<open>The walk to the in-order successor.\<close>

partial_function (option) leftmost ::
    "nat \<Rightarrow> 'k tstate \<Rightarrow> slot \<Rightarrow> slot list \<Rightarrow> (slot \<times> slot list) option" where
  "leftmost lim st sp path = do {
     n \<leftarrow> load_slot st sp;
     l \<leftarrow> child (snd st) n False;
     if l \<noteq> 0 then do { path \<leftarrow> push lim path sp; leftmost lim st (Child n False) path }
     else Some (sp, path) }"

declare leftmost.simps [code]

text \<open>The node at \<open>del\<close>, with two children, is replaced by its successor; the saved slots are fixed.\<close>

definition replace_succ :: "slot \<Rightarrow> u64 \<Rightarrow> slot list \<Rightarrow> 'k tstate \<Rightarrow> (slot list \<times> 'k tstate) option" where
  "replace_succ pp del path st = do {
     path \<leftarrow> push (MAXH + 1) path pp;
     let succ_at = length path;
     (sp, path) \<leftarrow> leftmost (MAXH + 1) st (Child del True) path;
     s \<leftarrow> load_slot st sp;
     s1 \<leftarrow> child (snd st) s True;
     (root, m) \<leftarrow> store_slot sp s1 st;
     d0 \<leftarrow> child m del False;
     m \<leftarrow> set_child m s False d0;
     d1 \<leftarrow> child m del True;
     m \<leftarrow> set_child m s True d1;
     st \<leftarrow> store_slot pp s (root, m);
     Some (if length path > succ_at then path[succ_at := Child s True] else path, st) }"

definition tdelete :: "('k \<Rightarrow> 'k \<Rightarrow> int) \<Rightarrow> 'k \<Rightarrow> 'k tstate \<Rightarrow> (parent \<times> 'k tstate) option" where
  "tdelete cmp key st =
     (if fst st = 0 then Some (NoNode, st)
      else do {
        (pp, path, parent) \<leftarrow> descend cmp (MAXH + 1) key st Root [] RootPtr;
        del \<leftarrow> load_slot st pp;
        if del = 0 then Some (NoNode, st)
        else do {
          d0 \<leftarrow> child (snd st) del False;
          d1 \<leftarrow> child (snd st) del True;
          (path, root, m) \<leftarrow> (if d0 = 0 \<or> d1 = 0 then do {
              st \<leftarrow> store_slot pp (if d0 = 0 then d1 else d0) st; Some (path, st) }
            else replace_succ pp del path st);
          let m = m(del := None);
          st \<leftarrow> unwind True (rev path) (root, m);
          Some (parent, st) } })"

text \<open>The calls of \<open>act\<close>.\<close>

partial_function (option) walk :: "'k store \<Rightarrow> u64 \<Rightarrow> nat \<Rightarrow> (u64 \<times> visit \<times> nat) list option" where
  "walk m n level =
     (if n = 0 then Some []
      else do {
        l \<leftarrow> child m n False; r \<leftarrow> child m n True;
        if l = 0 \<and> r = 0 then Some [(n, leaf, level)]
        else do {
          ls \<leftarrow> walk m l (level + 1);
          rs \<leftarrow> walk m r (level + 1);
          Some ((n, preorder, level) # ls @ (n, postorder, level) # rs @ [(n, endorder, level)]) } })"

text \<open>The keys handed to \<open>freekey\<close>, in order, and the store with the nodes freed.\<close>

partial_function (option) tdestroy :: "'k store \<Rightarrow> u64 \<Rightarrow> ('k list \<times> 'k store) option" where
  "tdestroy m n =
     (if n = 0 then Some ([], m)
      else do {
        l \<leftarrow> child m n False;
        (ks, m) \<leftarrow> tdestroy m l;
        r \<leftarrow> child m n True;
        (ks', m) \<leftarrow> tdestroy m r;
        x \<leftarrow> node_at m n;
        Some (ks @ ks' @ [nkey x], m(n := None)) })"

declare walk.simps [code] tdestroy.simps [code]

definition twalk :: "'k tstate \<Rightarrow> (u64 \<times> visit \<times> nat) list option" where
  "twalk st = walk (snd st) (fst st) 0"

subsection \<open>Trees in the store\<close>

text \<open>A tree in the store is a tree whose keys carry the address of their node.\<close>

fun ptr :: "(u64 \<times> 'k) node \<Rightarrow> u64" where
  "ptr Null = 0"
| "ptr (Node (a, k) l r h) = a"

abbreviation entry :: "'k \<Rightarrow> (u64 \<times> 'k) node \<Rightarrow> (u64 \<times> 'k) node \<Rightarrow> int \<Rightarrow> 'k tnode" where
  "entry k l r h \<equiv> \<lparr> nkey = k, na0 = ptr l, na1 = ptr r, nh = h \<rparr>"

fun in_store :: "'k store \<Rightarrow> (u64 \<times> 'k) node \<Rightarrow> bool" where
  "in_store m Null \<longleftrightarrow> True"
| "in_store m (Node (a, k) l r h) \<longleftrightarrow> a \<noteq> 0 \<and> m a = Some (entry k l r h) \<and> in_store m l \<and> in_store m r"

abbreviation addrs :: "(u64 \<times> 'k) node \<Rightarrow> u64 list" where
  "addrs t \<equiv> map fst (inorder t)"

lemma in_store_cong: "\<forall>a \<in> set (addrs t). m' a = m a \<Longrightarrow> in_store m' t = in_store m t"
  by (induction m t rule: in_store.induct) auto

lemma in_store_upd [simp]: "a \<notin> set (addrs t) \<Longrightarrow> in_store (m(a := v)) t = in_store m t"
  by (rule in_store_cong) auto

lemma ptr_zero: "in_store m t \<Longrightarrow> ptr t = 0 \<longleftrightarrow> t = Null"
  by (cases "(m, t)" rule: in_store.cases) auto

lemma height_store: "in_store m t \<Longrightarrow> height m (ptr t) = Some (tree_height t)"
  by (cases "(m, t)" rule: in_store.cases) (auto simp: height_def node_at_def)

lemma height_upd: "in_store m t \<Longrightarrow> a \<notin> set (addrs t) \<Longrightarrow> height (m(a := v)) (ptr t) = Some (tree_height t)"
  by (simp add: height_store)

lemma node_at_upd [simp]: "node_at (m(a \<mapsto> v)) b = (if a = b \<and> b \<noteq> 0 then Some v else node_at m b)"
  by (simp add: node_at_def)

lemma node_at_some: "a \<noteq> 0 \<Longrightarrow> node_at m a = m a"
  by (simp add: node_at_def)

lemma height_node: "n \<noteq> 0 \<Longrightarrow> m n = Some x \<Longrightarrow> height m n = Some (nh x)"
  by (simp add: height_def node_at_def)

lemma fix_height_eq:
  assumes "n \<noteq> 0" "m n = Some x" "height m (na0 x) = Some hl" "height m (na1 x) = Some hr"
  shows "fix_height n m = Some (m(n \<mapsto> x \<lparr> nh := 1 + (if hl > hr then hl else hr) \<rparr>))"
  using assms by (simp add: fix_height_def child_def set_h_def node_at_def)

lemma child_eq: "n \<noteq> 0 \<Longrightarrow> m n = Some x \<Longrightarrow> child m n d = Some (if d then na1 x else na0 x)"
  by (simp add: child_def node_at_def)

lemma set_child_eq:
  "n \<noteq> 0 \<Longrightarrow> m n = Some x \<Longrightarrow> set_child m n d v = Some (m(n \<mapsto> (if d then x \<lparr> na1 := v \<rparr> else x \<lparr> na0 := v \<rparr>)))"
  by (simp add: set_child_def node_at_def)

lemmas store_defs = child_def set_child_def set_h_def fix_height_def node_at_some

lemma rot_store:
  assumes "in_store m t" "distinct (addrs t)" "tree_rot t d = Some t'"
  shows "\<exists>m'. rot (ptr t) d m = Some (ptr t', m') \<and> in_store m' t' \<and> inorder t' = inorder t \<and>
    (\<forall>a. a \<notin> set (addrs t) \<longrightarrow> m' a = m a)"
  using assms(3)
proof (cases "(t, d)" rule: tree_rot.cases)
  case (1 ak cak cl cr ch r h)
  note shape = 1
  obtain a k c ck where ak: "ak = (a, k)" "cak = (c, ck)" by (cases ak, cases cak) auto
  let ?n = "Node (a, k) cr r (node_height cr r)"
  let ?m = "m(a \<mapsto> entry k cr r (node_height cr r), c \<mapsto> entry ck cl ?n (node_height cl ?n))"
  have t': "t' = Node (c, ck) cl ?n (node_height cl ?n)" using assms(3) shape ak by (simp add: Let_def)
  have s: "a \<noteq> 0" "c \<noteq> 0" "a \<noteq> c" "m a = Some \<lparr> nkey = k, na0 = c, na1 = ptr r, nh = h \<rparr>"
      "m c = Some (entry ck cl cr ch)" "in_store m cl" "in_store m cr" "in_store m r"
      "a \<notin> set (addrs cl)" "a \<notin> set (addrs cr)" "a \<notin> set (addrs r)"
      "c \<notin> set (addrs cl)" "c \<notin> set (addrs cr)" "c \<notin> set (addrs r)"
    using assms(1,2) shape ak by auto
  let ?m1 = "m(a \<mapsto> entry k cr r h, c \<mapsto> \<lparr> nkey = ck, na0 = ptr cl, na1 = a, nh = ch \<rparr>)"
  let ?m2 = "?m1(a \<mapsto> entry k cr r (node_height cr r))"
  have 1: "fix_height a ?m1 = Some ?m2"
    by (subst fix_height_eq [where x = "entry k cr r h" and hl = "tree_height cr" and hr = "tree_height r"]) (use s in \<open>simp_all add: height_upd node_height_def\<close>)
  have 2: "fix_height c ?m2 = Some (?m2(c \<mapsto> entry ck cl ?n (node_height cl ?n)))"
    by (subst fix_height_eq [where x = "\<lparr> nkey = ck, na0 = ptr cl, na1 = a, nh = ch \<rparr>" and hl = "tree_height cl" and hr = "node_height cr r"])
      (use s in \<open>simp_all add: height_upd height_node node_height_def [of cl]\<close>)
  have 3: "?m2(c \<mapsto> entry ck cl ?n (node_height cl ?n)) = ?m" using s(3) by (auto simp: fun_eq_iff)
  have "rot a True m = Some (c, ?m)"
    using s(1-5) 1 2 unfolding rot_def 3 by (simp add: child_eq set_child_eq)
  then show ?thesis using s shape ak t' by auto
next
  case (2 ak l cak cl cr ch h)
  note shape = 2
  obtain a k c ck where ak: "ak = (a, k)" "cak = (c, ck)" by (cases ak, cases cak) auto
  let ?n = "Node (a, k) l cl (node_height l cl)"
  let ?m = "m(a \<mapsto> entry k l cl (node_height l cl), c \<mapsto> entry ck ?n cr (node_height ?n cr))"
  have t': "t' = Node (c, ck) ?n cr (node_height ?n cr)" using assms(3) shape ak by (simp add: Let_def)
  have s: "a \<noteq> 0" "c \<noteq> 0" "a \<noteq> c" "m a = Some \<lparr> nkey = k, na0 = ptr l, na1 = c, nh = h \<rparr>"
      "m c = Some (entry ck cl cr ch)" "in_store m cl" "in_store m cr" "in_store m l"
      "a \<notin> set (addrs cl)" "a \<notin> set (addrs cr)" "a \<notin> set (addrs l)"
      "c \<notin> set (addrs cl)" "c \<notin> set (addrs cr)" "c \<notin> set (addrs l)"
    using assms(1,2) shape ak by auto
  let ?m1 = "m(a \<mapsto> entry k l cl h, c \<mapsto> \<lparr> nkey = ck, na0 = a, na1 = ptr cr, nh = ch \<rparr>)"
  let ?m2 = "?m1(a \<mapsto> entry k l cl (node_height l cl))"
  have 1: "fix_height a ?m1 = Some ?m2"
    by (subst fix_height_eq [where x = "entry k l cl h" and hl = "tree_height l" and hr = "tree_height cl"]) (use s in \<open>simp_all add: height_upd node_height_def\<close>)
  have 2: "fix_height c ?m2 = Some (?m2(c \<mapsto> entry ck ?n cr (node_height ?n cr)))"
    by (subst fix_height_eq [where x = "\<lparr> nkey = ck, na0 = a, na1 = ptr cr, nh = ch \<rparr>" and hl = "node_height l cl" and hr = "tree_height cr"])
      (use s in \<open>simp_all add: height_upd height_node node_height_def [of _ cr]\<close>)
  have 3: "?m2(c \<mapsto> entry ck ?n cr (node_height ?n cr)) = ?m" using s(3) by (auto simp: fun_eq_iff)
  have "rot a False m = Some (c, ?m)"
    using s(1-5) 1 2 unfolding rot_def 3 by (simp add: child_eq set_child_eq)
  then show ?thesis using s shape ak t' by auto
qed auto

lemma child_store:
  "in_store m (Node (a, k) l r h) \<Longrightarrow> child m a d = Some (if d then ptr r else ptr l)"
  by (simp add: child_eq)

lemma lower_left:
  assumes "in_store m (Node (a, k) l r h)" "distinct (addrs (Node (a, k) l r h))" "l = Node ck cl cr ch"
    "(if tree_height cr > tree_height cl then tree_rot l False else Some l) = Some l'"
    "tree_rot (Node (a, k) l' r h) True = Some t'"
  shows "\<exists>m'. lower a False m = Some (ptr t', m') \<and> in_store m' t' \<and> inorder t' = inorder (Node (a, k) l r h) \<and>
    (\<forall>b. b \<notin> set (addrs (Node (a, k) l r h)) \<longrightarrow> m' b = m b)"
proof -
  have l: "in_store m l" "distinct (addrs l)" "in_store m r" "a \<noteq> 0" "m a = Some (entry k l r h)"
      "a \<notin> set (addrs l)" "a \<notin> set (addrs r)" "set (addrs l) \<inter> set (addrs r) = {}" "distinct (addrs r)"
    using assms(1,2) by auto
  have c: "in_store m cl" "in_store m cr" "child m (ptr l) d = Some (if d then ptr cr else ptr cl)" for d
    using l(1) assms(3) child_store [of m] by (cases ck; simp)+
  have "\<exists>m1. (if tree_height cr > tree_height cl then do { (c, m) \<leftarrow> rot (ptr l) False m; set_child m a False c } else Some m) = Some m1 \<and>
    in_store m1 (Node (a, k) l' r h) \<and> inorder l' = inorder l \<and> (\<forall>b. b \<notin> set (addrs (Node (a, k) l r h)) \<longrightarrow> m1 b = m b)"
  proof (cases "tree_height cr > tree_height cl")
    case True
    with assms(4) have "tree_rot l False = Some l'" by simp
    from rot_store [OF l(1,2) this] obtain m1 where m1: "rot (ptr l) False m = Some (ptr l', m1)" "in_store m1 l'"
      "inorder l' = inorder l" "\<And>b. b \<notin> set (addrs l) \<Longrightarrow> m1 b = m b" by blast
    have "m1 a = Some (entry k l r h)" using m1(4) l by simp
    then have "set_child m1 a False (ptr l') = Some (m1(a \<mapsto> entry k l' r h))" using l(4) by (simp add: set_child_eq)
    moreover have "in_store m1 r = in_store m r" by (rule in_store_cong) (use m1(4) l(8) in blast)
    ultimately show ?thesis using True m1 l by auto
  next
    case False
    then show ?thesis using assms(1,4) by auto
  qed
  then obtain m1 where m1: "(if tree_height cr > tree_height cl then do { (c, m) \<leftarrow> rot (ptr l) False m; set_child m a False c } else Some m) = Some m1"
    "in_store m1 (Node (a, k) l' r h)" "inorder l' = inorder l" "\<And>b. b \<notin> set (addrs (Node (a, k) l r h)) \<Longrightarrow> m1 b = m b" by blast
  have "distinct (addrs (Node (a, k) l' r h))" using assms(2) m1(3) by simp
  from rot_store [OF m1(2) this assms(5)] obtain m2 where m2: "rot a True m1 = Some (ptr t', m2)" "in_store m2 t'"
    "inorder t' = inorder (Node (a, k) l' r h)" "\<And>b. b \<notin> set (addrs (Node (a, k) l' r h)) \<Longrightarrow> m2 b = m1 b" by auto
  have "lower a False m = Some (ptr t', m2)"
    using m1(1) m2(1) by (simp add: lower_def child_store [OF assms(1)] c height_store)
  moreover have "b \<notin> set (addrs (Node (a, k) l r h)) \<longrightarrow> m2 b = m b" for b
    using m2(4) [of b] m1(4) [of b] m1(3) by simp
  ultimately show ?thesis using m2(2,3) m1(3) by (intro exI [of _ m2]) simp
qed

lemma lower_right:
  assumes "in_store m (Node (a, k) l r h)" "distinct (addrs (Node (a, k) l r h))" "r = Node ck cl cr ch"
    "(if tree_height cl > tree_height cr then tree_rot r True else Some r) = Some r'"
    "tree_rot (Node (a, k) l r' h) False = Some t'"
  shows "\<exists>m'. lower a True m = Some (ptr t', m') \<and> in_store m' t' \<and> inorder t' = inorder (Node (a, k) l r h) \<and>
    (\<forall>b. b \<notin> set (addrs (Node (a, k) l r h)) \<longrightarrow> m' b = m b)"
proof -
  have l: "in_store m r" "distinct (addrs r)" "in_store m l" "a \<noteq> 0" "m a = Some (entry k l r h)"
      "a \<notin> set (addrs r)" "a \<notin> set (addrs l)" "set (addrs r) \<inter> set (addrs l) = {}" "distinct (addrs l)"
    using assms(1,2) by auto
  have c: "in_store m cl" "in_store m cr" "child m (ptr r) d = Some (if d then ptr cr else ptr cl)" for d
    using l(1) assms(3) child_store [of m] by (cases ck; simp)+
  have "\<exists>m1. (if tree_height cl > tree_height cr then do { (c, m) \<leftarrow> rot (ptr r) True m; set_child m a True c } else Some m) = Some m1 \<and>
    in_store m1 (Node (a, k) l r' h) \<and> inorder r' = inorder r \<and> (\<forall>b. b \<notin> set (addrs (Node (a, k) l r h)) \<longrightarrow> m1 b = m b)"
  proof (cases "tree_height cl > tree_height cr")
    case True
    with assms(4) have "tree_rot r True = Some r'" by simp
    from rot_store [OF l(1,2) this] obtain m1 where m1: "rot (ptr r) True m = Some (ptr r', m1)" "in_store m1 r'"
      "inorder r' = inorder r" "\<And>b. b \<notin> set (addrs r) \<Longrightarrow> m1 b = m b" by blast
    have "m1 a = Some (entry k l r h)" using m1(4) l by simp
    then have "set_child m1 a True (ptr r') = Some (m1(a \<mapsto> entry k l r' h))" using l(4) by (simp add: set_child_eq)
    moreover have "in_store m1 l = in_store m l" by (rule in_store_cong) (use m1(4) l(8) in blast)
    ultimately show ?thesis using True m1 l by auto
  next
    case False
    then show ?thesis using assms(1,4) by auto
  qed
  then obtain m1 where m1: "(if tree_height cl > tree_height cr then do { (c, m) \<leftarrow> rot (ptr r) True m; set_child m a True c } else Some m) = Some m1"
    "in_store m1 (Node (a, k) l r' h)" "inorder r' = inorder r" "\<And>b. b \<notin> set (addrs (Node (a, k) l r h)) \<Longrightarrow> m1 b = m b" by blast
  have "distinct (addrs (Node (a, k) l r' h))" using assms(2) m1(3) by simp
  from rot_store [OF m1(2) this assms(5)] obtain m2 where m2: "rot a False m1 = Some (ptr t', m2)" "in_store m2 t'"
    "inorder t' = inorder (Node (a, k) l r' h)" "\<And>b. b \<notin> set (addrs (Node (a, k) l r' h)) \<Longrightarrow> m2 b = m1 b" by auto
  have "lower a True m = Some (ptr t', m2)"
    using m1(1) m2(1) by (simp add: lower_def child_store [OF assms(1)] c height_store)
  moreover have "b \<notin> set (addrs (Node (a, k) l r h)) \<longrightarrow> m2 b = m b" for b
    using m2(4) [of b] m1(4) [of b] m1(3) by simp
  ultimately show ?thesis using m2(2,3) m1(3) by (intro exI [of _ m2]) simp
qed

lemma balance_store:
  assumes "in_store m t" "distinct (addrs t)" "tree_balance t = Some t'"
  shows "\<exists>m'. balance (ptr t) m = Some (ptr t', m') \<and> in_store m' t' \<and> inorder t' = inorder t \<and>
    (\<forall>b. b \<notin> set (addrs t) \<longrightarrow> m' b = m b)"
proof (cases t)
  case Null
  then show ?thesis using assms(3) by (simp add: tree_balance.simps)
next
  case (Node ak l r h)
  obtain a k where ak: "ak = (a, k)" by (cases ak)
  note t = Node [unfolded ak]
  have st: "in_store m (Node (a, k) l r h)" "distinct (addrs (Node (a, k) l r h))" using assms(1,2) t by simp_all
  have hs: "height m (ptr l) = Some (tree_height l)" "height m (ptr r) = Some (tree_height r)" using st(1) by (simp_all add: height_store)
  have b: "balance a m = (if tree_height l - tree_height r > 1 then lower a False m
     else if tree_height r - tree_height l > 1 then lower a True m
     else do { m \<leftarrow> set_h m a (node_height l r); Some (a, m) })"
    by (simp add: balance_def child_store [OF st(1)] hs node_height_def)
  consider "tree_height l - tree_height r > 1" | "tree_height r - tree_height l > 1"
    | "\<not> tree_height l - tree_height r > 1" "\<not> tree_height r - tree_height l > 1" by linarith
  then show ?thesis
  proof cases
    case 1
    with assms(3) t obtain ck cl cr ch l' where "l = Node ck cl cr ch"
      "(if tree_height cr > tree_height cl then tree_rot l False else Some l) = Some l'" "tree_rot (Node (a, k) l' r h) True = Some t'"
      by (auto simp: tree_balance.simps split: node.splits bind_splits)
    from lower_left [OF st this] 1 t b show ?thesis by simp
  next
    case 2
    with assms(3) t obtain ck cl cr ch r' where "r = Node ck cl cr ch"
      "(if tree_height cl > tree_height cr then tree_rot r True else Some r) = Some r'" "tree_rot (Node (a, k) l r' h) False = Some t'"
      by (auto simp: tree_balance.simps split: node.splits bind_splits)
    from lower_right [OF st this] 2 t b show ?thesis by simp
  next
    case 3
    have "t' = Node (a, k) l r (node_height l r)" using assms(3) t 3 by (simp add: tree_balance.simps)
    moreover have "set_h m a (node_height l r) = Some (m(a \<mapsto> entry k l r (node_height l r)))"
      using st(1) by (simp add: set_h_def node_at_def)
    ultimately show ?thesis using b 3 t st by auto
  qed
qed

subsection \<open>Paths in the store\<close>

text \<open>The slot a path ends in, and the slots passed, the last one first.\<close>

fun slot_of :: "(u64 \<times> 'k) frame list \<Rightarrow> slot" where
  "slot_of [] = Root"
| "slot_of (((a, k), right, sib, h) # path) = Child a right"

fun slots_of :: "(u64 \<times> 'k) frame list \<Rightarrow> slot list" where
  "slots_of [] = []"
| "slots_of (f # path) = slot_of path # slots_of path"

fun parent_of :: "(u64 \<times> 'k) frame list \<Rightarrow> parent" where
  "parent_of [] = RootPtr"
| "parent_of (((a, k), right, sib, h) # path) = Parent a"

text \<open>The store holds the path from the root pointer down to a slot that holds \<open>p\<close>.\<close>

fun ctx :: "'k store \<Rightarrow> u64 \<Rightarrow> (u64 \<times> 'k) frame list \<Rightarrow> u64 \<Rightarrow> bool" where
  "ctx m root [] p \<longleftrightarrow> root = p"
| "ctx m root (((a, k), right, sib, h) # path) p \<longleftrightarrow> a \<noteq> 0 \<and> in_store m sib \<and>
     m a = Some \<lparr> nkey = k, na0 = (if right then ptr sib else p), na1 = (if right then p else ptr sib), nh = h \<rparr> \<and>
     ctx m root path a"

abbreviation faddrs :: "(u64 \<times> 'k) frame list \<Rightarrow> u64 list" where
  "faddrs path \<equiv> map fst (before path @ after path)"

lemma ctx_zip_up: "ctx m root path (ptr n) \<and> in_store m n \<longleftrightarrow> root = ptr (zip_up path n) \<and> in_store m (zip_up path n)"
proof (induction path arbitrary: n)
  case (Cons f path)
  obtain a k right sib h where "f = ((a, k), right, sib, h)" by (cases f) auto
  with Cons.IH [of "plug f n"] show ?case by auto
qed auto

lemma ctx_cong: "\<forall>a \<in> set (faddrs path). m' a = m a \<Longrightarrow> ctx m' root path p = ctx m root path p"
proof (induction path arbitrary: p)
  case (Cons f path)
  obtain a k right sib h where f: "f = ((a, k), right, sib, h)" by (cases f) auto
  have "in_store m' sib = in_store m sib" by (rule in_store_cong) (use Cons.prems in \<open>auto simp: f\<close>)
  moreover have "ctx m' root path a = ctx m root path a" by (rule Cons.IH) (use Cons.prems in \<open>auto simp: f split: if_splits\<close>)
  moreover have "m' a = m a" using Cons.prems by (auto simp: f split: if_splits)
  ultimately show ?case by (simp add: f)
qed simp

lemma ctx_append: "ctx m root (p1 @ p2) p \<longleftrightarrow> (\<exists>q. ctx m q p1 p \<and> ctx m root p2 q)"
proof (induction p1 arbitrary: p)
  case (Cons f p1)
  obtain a k right sib h where "f = ((a, k), right, sib, h)" by (cases f) auto
  with Cons.IH [of a] show ?case by auto
qed simp

lemma load_slot_ctx: "ctx m root path p \<Longrightarrow> load_slot (root, m) (slot_of path) = Some p"
proof (cases path)
  case (Cons f path')
  obtain a k right sib h where "f = ((a, k), right, sib, h)" by (cases f) auto
  moreover assume "ctx m root path p"
  ultimately show ?thesis using Cons by (auto simp: child_eq)
qed simp

lemma store_slot_ctx:
  assumes "ctx m root path p" "distinct (faddrs path)"
  shows "\<exists>root' m'. store_slot (slot_of path) q (root, m) = Some (root', m') \<and> ctx m' root' path q \<and>
    (\<forall>a. a \<notin> set (faddrs path) \<longrightarrow> m' a = m a)"
proof (cases path)
  case (Cons f path')
  obtain a k right sib h where f: "f = ((a, k), right, sib, h)" by (cases f) auto
  let ?e = "\<lparr> nkey = k, na0 = (if right then ptr sib else q), na1 = (if right then q else ptr sib), nh = h \<rparr>"
  have c: "a \<noteq> 0" "in_store m sib" "ctx m root path' a"
      "m a = Some \<lparr> nkey = k, na0 = (if right then ptr sib else p), na1 = (if right then p else ptr sib), nh = h \<rparr>"
    using assms(1) Cons f by auto
  have n: "a \<notin> set (addrs sib)" "a \<notin> set (faddrs path')" using assms(2) Cons f by (auto split: if_splits)
  have "store_slot (slot_of path) q (root, m) = Some (root, m(a \<mapsto> ?e))"
    using c Cons f by (cases right) (simp_all add: set_child_eq)
  moreover have "ctx (m(a \<mapsto> ?e)) root path' a = ctx m root path' a" by (rule ctx_cong) (use n in auto)
  ultimately show ?thesis using c n Cons f by (auto split: if_splits)
qed (use assms in auto)

lemma faddrs_distinct: "distinct (addrs (zip_up path n)) \<longleftrightarrow>
    distinct (faddrs path) \<and> distinct (addrs n) \<and> set (faddrs path) \<inter> set (addrs n) = {}"
  by (auto simp: inorder_zip_up)

lemma unwind_store:
  assumes "ctx m root path (ptr n)" "in_store m n" "distinct (addrs (zip_up path n))" "tree_unwind path n = Some t"
  shows "\<exists>root' m'. unwind skip (slots_of path) (root, m) = Some (root', m') \<and> root' = ptr t \<and> in_store m' t \<and>
    inorder t = inorder (zip_up path n) \<and> (\<forall>a. a \<notin> set (addrs (zip_up path n)) \<longrightarrow> m' a = m a)"
  using assms
proof (induction path arbitrary: n m root)
  case Nil
  then show ?case by auto
next
  case (Cons f path)
  obtain a k right sib h where f: "f = ((a, k), right, sib, h)" by (cases f) auto
  obtain n' where n': "tree_balance (plug f n) = Some n'" "tree_unwind path n' = Some t"
    using Cons.prems(4) by (auto split: bind_splits)
  have c: "ctx m root path (ptr (plug f n))" "in_store m (plug f n)" "ptr (plug f n) \<noteq> 0"
    using Cons.prems(1,2) f by auto
  have d: "distinct (faddrs path)" "distinct (addrs (plug f n))" "set (faddrs path) \<inter> set (addrs (plug f n)) = {}"
    using Cons.prems(3) faddrs_distinct [of path "plug f n"] by simp_all
  from balance_store [OF c(2) d(2) n'(1)] obtain m1 where
    m1: "balance (ptr (plug f n)) m = Some (ptr n', m1)" "in_store m1 n'" "inorder n' = inorder (plug f n)"
      "\<And>b. b \<notin> set (addrs (plug f n)) \<Longrightarrow> m1 b = m b" by blast
  have "ctx m1 root path (ptr (plug f n))"
    using c(1) ctx_cong [of path m1 m root "ptr (plug f n)"] m1(4) d(3) by blast
  from store_slot_ctx [OF this d(1), of "ptr n'"] obtain root2 m2 where
    m2: "store_slot (slot_of path) (ptr n') (root, m1) = Some (root2, m2)" "ctx m2 root2 path (ptr n')"
      "\<And>a. a \<notin> set (faddrs path) \<Longrightarrow> m2 a = m1 a" by blast
  have "in_store m2 n' = in_store m1 n'" by (rule in_store_cong) (use m2(3) m1(3) d(3) in auto)
  then have s2: "in_store m2 n'" using m1(2) by simp
  have z: "inorder (zip_up path n') = inorder (zip_up path (plug f n))" by (simp add: inorder_zip_up m1(3))
  have "distinct (addrs (zip_up path n'))" using Cons.prems(3) z by simp
  from Cons.IH [OF m2(2) s2 this n'(2)] obtain root' m' where
    m': "unwind skip (slots_of path) (root2, m2) = Some (root', m')" "root' = ptr t" "in_store m' t"
      "inorder t = inorder (zip_up path n')" "\<And>a. a \<notin> set (addrs (zip_up path n')) \<Longrightarrow> m' a = m2 a" by blast
  have "unwind skip (slots_of (f # path)) (root, m) = Some (root', m')"
    using load_slot_ctx [OF c(1)] c(3) m1(1) m2(1) m'(1) by simp
  moreover have "m' b = m b" if "b \<notin> set (addrs (zip_up (f # path) n))" for b
    using that m'(5) [of b] m2(3) [of b] m1(4) [of b] z by (auto simp: inorder_zip_up)
  ultimately show ?case using m'(2-4) z by auto
qed

definition on_key :: "('k \<Rightarrow> 'k \<Rightarrow> int) \<Rightarrow> u64 \<times> 'k \<Rightarrow> u64 \<times> 'k \<Rightarrow> int" where
  "on_key cmp x y = cmp (snd x) (snd y)"

lemma on_key_comparator: "comparator cmp \<Longrightarrow> comparator (on_key cmp)"
  unfolding comparator_def on_key_def by blast

lemma length_slots_of [simp]: "length (slots_of path) = length path"
  by (induction path) auto

lemma descend_store:
  assumes "tree_descend (on_key cmp) lim (b, key) n path = Some (n', path')" "ctx m root path (ptr n)" "in_store m n"
  shows "descend cmp lim key (root, m) (slot_of path) (rev (slots_of path)) (parent_of path) =
      Some (slot_of path', rev (slots_of path'), parent_of path') \<and> ctx m root path' (ptr n') \<and> in_store m n'"
  using assms
proof (induction "on_key cmp" lim "(b, key)" n path rule: tree_descend.induct)
  case (1 lim path)
  then show ?case using load_slot_ctx [of m root path 0] by (subst descend.simps) auto
next
  case (2 lim ak l r h path)
  obtain a k where ak: "ak = (a, k)" by (cases ak)
  have s: "a \<noteq> 0" "m a = Some (entry k l r h)" "in_store m l" "in_store m r" "ctx m root path a"
    using 2(4,5) ak by auto
  have ld: "load_slot (root, m) (slot_of path) = Some a" by (rule load_slot_ctx [OF s(5)])
  have c: "on_key cmp (b, key) ak = cmp key k" by (simp add: on_key_def ak)
  show ?case
  proof (cases "cmp key k = 0")
    case True
    then have "n' = Node ak l r h" "path' = path" using 2(3) c by (simp_all add: Let_def)
    moreover have "descend cmp lim key (root, m) (slot_of path) (rev (slots_of path)) (parent_of path) =
        Some (slot_of path, rev (slots_of path), parent_of path)"
      by (subst descend.simps) (simp add: ld s node_at_def True)
    ultimately show ?thesis using 2(4,5) by simp
  next
    case False
    then have lim: "\<not> lim \<le> length path" using 2(3) c by (auto simp: Let_def split: if_splits)
    let ?p = "if cmp key k > 0 then (ak, True, l, h) # path else (ak, False, r, h) # path"
    let ?n = "if cmp key k > 0 then r else l"
    have p: "slot_of ?p = Child a (cmp key k > 0)" "slots_of ?p = slot_of path # slots_of path" "parent_of ?p = Parent a"
      by (simp_all add: ak)
    have "ctx m root ?p (ptr ?n)" "in_store m ?n" using s by (auto simp: ak)
    moreover have "tree_descend (on_key cmp) lim (b, key) ?n ?p = Some (n', path')"
      using 2(3) c False lim by (auto simp: Let_def split: if_splits)
    ultimately have "descend cmp lim key (root, m) (slot_of ?p) (rev (slots_of ?p)) (parent_of ?p) =
        Some (slot_of path', rev (slots_of path'), parent_of path') \<and> ctx m root path' (ptr n') \<and> in_store m n'"
      using 2(1) [OF c [symmetric] _ lim] 2(2) [OF c [symmetric] _ lim] False by (cases "cmp key k > 0") simp_all
    moreover have "descend cmp lim key (root, m) (slot_of path) (rev (slots_of path)) (parent_of path) =
        descend cmp lim key (root, m) (slot_of ?p) (rev (slots_of ?p)) (parent_of ?p)"
      unfolding p by (subst descend.simps) (simp add: ld s node_at_def False push_def lim)
    ultimately show ?thesis by simp
  qed
qed

lemma leftmost_store:
  assumes "tree_leftmost room n path = Some (s, path')" "ctx m root (path @ base) (ptr n)" "in_store m n"
    "lim = length (path @ base) + room"
  shows "leftmost lim (root, m) (slot_of (path @ base)) (rev (slots_of (path @ base))) =
      Some (slot_of (path' @ base), rev (slots_of (path' @ base))) \<and> ctx m root (path' @ base) (ptr s) \<and> in_store m s"
  using assms
proof (induction room n path rule: tree_leftmost.induct)
  case (2 room ak l r h path)
  obtain a k where ak: "ak = (a, k)" by (cases ak)
  have s: "a \<noteq> 0" "m a = Some (entry k l r h)" "in_store m l" "in_store m r" "ctx m root (path @ base) a"
    using 2(3,4) ak by auto
  have ld: "load_slot (root, m) (slot_of (path @ base)) = Some a" by (rule load_slot_ctx [OF s(5)])
  show ?case
  proof (cases "l = Null")
    case True
    then have "s = Node ak l r h" "path' = path" using 2(2) by auto
    moreover have "leftmost lim (root, m) (slot_of (path @ base)) (rev (slots_of (path @ base))) =
        Some (slot_of (path @ base), rev (slots_of (path @ base)))"
      by (subst leftmost.simps) (simp add: ld child_eq [of a m] s(1,2) True)
    ultimately show ?thesis using 2(3,4) by simp
  next
    case False
    let ?p = "(ak, False, r, h) # path"
    have room: "room \<noteq> 0" "tree_leftmost (room - 1) l ?p = Some (s, path')"
      using 2(2) False by (auto split: if_splits)
    have "ctx m root (?p @ base) (ptr l)" using s by (simp add: ak)
    moreover have "lim = length (?p @ base) + (room - 1)" using 2(5) room(1) by simp
    ultimately have "leftmost lim (root, m) (slot_of (?p @ base)) (rev (slots_of (?p @ base))) =
        Some (slot_of (path' @ base), rev (slots_of (path' @ base))) \<and> ctx m root (path' @ base) (ptr s) \<and> in_store m s"
      using 2(1) [OF False room(1,2)] s(3) by blast
    moreover have "leftmost lim (root, m) (slot_of (path @ base)) (rev (slots_of (path @ base))) =
        leftmost lim (root, m) (slot_of (?p @ base)) (rev (slots_of (?p @ base)))"
      using ptr_zero [OF s(3)] False 2(5) room(1)
      by (subst leftmost.simps) (simp add: ld child_eq [of a m] s(1,2) push_def ak)
    ultimately show ?thesis by simp
  qed
qed simp

text \<open>The tree \<open>t\<close> is what the root pointer leads to.\<close>

definition tree_at :: "'k tstate \<Rightarrow> (u64 \<times> 'k) node \<Rightarrow> bool" where
  "tree_at st t \<longleftrightarrow> fst st = ptr t \<and> in_store (snd st) t \<and> distinct (addrs t)"


lemma zip_up_append: "zip_up (p1 @ p2) n = zip_up p2 (zip_up p1 n)"
  by (induction p1 arbitrary: n) auto

lemma tree_unwind_append: "tree_unwind (p1 @ p2) n = Option.bind (tree_unwind p1 n) (tree_unwind p2)"
  by (induction p1 arbitrary: n) (auto simp: bind_assoc split: bind_splits)

lemma faddrs_append: "set (faddrs (p1 @ p2)) = set (faddrs p1) \<union> set (faddrs p2)"
proof (induction p1)
  case (Cons f p1)
  obtain k right sib h where "f = (k, right, sib, h)" by (cases f) auto
  with Cons show ?case by (auto split: if_splits)
qed simp

lemma tree_leftmost_shape:
  "tree_leftmost room n path = Some (s, path') \<Longrightarrow> (\<exists>sk sr sh. s = Node sk Null sr sh) \<and> zip_up path' s = zip_up path n"
  by (induction room n path rule: tree_leftmost.induct) (auto split: if_splits)

text \<open>The slots saved below the replaced node depend on it only in one place.\<close>

lemma slots_of_append:
  "spine \<noteq> [] \<Longrightarrow> \<exists>A. length A = length spine - 1 \<and> (\<forall>base. slots_of (spine @ base) = A @ slot_of base # slots_of base)"
proof (induction spine)
  case (Cons f spine)
  show ?case
  proof (cases spine)
    case Nil
    then show ?thesis by auto
  next
    case (Cons g spine')
    obtain a k right sib h where g: "g = ((a, k), right, sib, h)" by (cases g) auto
    from Cons.IH Cons obtain A where "length A = length spine - 1" "\<And>base. slots_of (spine @ base) = A @ slot_of base # slots_of base" by auto
    then show ?thesis using Cons g by (intro exI [of _ "Child a right # A"]) auto
  qed
qed simp

lemma fixed_path:
  assumes "slot_of fs = Child s True" "length fs = length fd" "slots_of fs = slots_of fd"
  shows "(if length (rev (slots_of (spine @ fd))) > length fd then (rev (slots_of (spine @ fd)))[length fd := Child s True]
     else rev (slots_of (spine @ fd))) = rev (slots_of (spine @ fs))"
proof (cases "spine = []")
  case False
  from slots_of_append [OF this] obtain A where A: "\<And>base. slots_of (spine @ base) = A @ slot_of base # slots_of base" by blast
  have "length fd = length (rev (slots_of fd))" by simp
  then have "(rev (slots_of fd) @ slot_of fd # rev A)[length fd := Child s True] = rev (slots_of fd) @ Child s True # rev A"
    by (metis list_update_length)
  then show ?thesis using False assms by (simp add: A)
qed (use assms in simp)

lemma distinct_shuffle: "distinct (A @ L @ d # B @ s # R @ C @ E) \<Longrightarrow> distinct ((A @ E) @ d # L @ (B @ C) @ s # R)"
  by auto

lemma distinct_parts:
  assumes "distinct (P @ d # L @ S @ s # R)"
  shows "s \<notin> set S \<union> {d} \<union> set L \<union> set P" "(set S \<union> {d} \<union> set L \<union> set P) \<inter> set R = {}" "s \<notin> set R"
    "d \<notin> set S" "d \<notin> set P" "d \<notin> set L" "d \<noteq> s" "d \<notin> set R" "set S \<inter> set P = {}" "s \<notin> set L" "set L \<inter> set P = {}"
    "distinct P" "set L \<inter> set S = {}" "s \<notin> set P" "s \<notin> set S"
  using assms by auto

lemma replace_succ_store:
  assumes "ctx m root path del" "in_store m (Node (del, k) l r h)" "distinct (addrs (zip_up path (Node (del, k) l r h)))"
    "length path \<le> MAXH" "tree_leftmost (MAXH - length path) r [] = Some (Node (s, sk) sl sr sh, spine)"
  shows "sl = Null \<and> r = zip_up spine (Node (s, sk) sl sr sh) \<and>
    (\<exists>root' m'. replace_succ (slot_of path) del (rev (slots_of path)) (root, m) =
        Some (rev (slots_of (spine @ ((s, sk), True, l, sh) # path)), root', m') \<and>
      ctx (m'(del := None)) root' (spine @ ((s, sk), True, l, sh) # path) (ptr sr) \<and> in_store (m'(del := None)) sr \<and>
      (\<forall>a. a \<notin> set (addrs (zip_up path (Node (del, k) l r h))) \<longrightarrow> m' a = m a))"
proof -
  define fd fs where "fd = ((del, k), True, l, h)" and "fs = ((s, sk), True, l, sh)"
  have sh: "sl = Null" "zip_up spine (Node (s, sk) sl sr sh) = r" using tree_leftmost_shape [OF assms(5)] by auto
  have st: "del \<noteq> 0" "m del = Some (entry k l r h)" "in_store m l" "in_store m r" using assms(2) by auto
  have "ctx m root ([] @ fd # path) (ptr r)" using assms(1) st by (simp add: fd_def)
  from leftmost_store [OF assms(5) this st(4), of "MAXH + 1"] assms(4) have
    lm: "leftmost (MAXH + 1) (root, m) (Child del True) (rev (slots_of path) @ [slot_of path]) =
        Some (slot_of (spine @ fd # path), rev (slots_of (spine @ fd # path)))"
      and c: "ctx m root (spine @ fd # path) s" and s: "in_store m (Node (s, sk) sl sr sh)"
    by (simp_all add: fd_def)
  have fas: "set (faddrs (spine @ fd # path)) = set (faddrs spine) \<union> {del} \<union> set (addrs l) \<union> set (faddrs path)"
    using faddrs_append [of spine "fd # path"] by (auto simp: fd_def)
  have t: "addrs (zip_up path (Node (del, k) l r h)) =
      map fst (before path) @ addrs l @ del # map fst (before spine) @ s # addrs sr @ map fst (after spine) @ map fst (after path)"
  proof -
    have "addrs r = map fst (before spine) @ s # addrs sr @ map fst (after spine)"
      unfolding sh(2) [symmetric] by (simp add: inorder_zip_up sh(1))
    then show ?thesis by (simp add: inorder_zip_up)
  qed
  have D: "distinct (faddrs path @ del # addrs l @ faddrs spine @ s # addrs sr)"
    using distinct_shuffle [OF assms(3) [unfolded t]] by simp
  have df1: "distinct (faddrs (spine @ fd # path))"
  proof -
    have "zip_up (spine @ fd # path) (Node (s, sk) sl sr sh) = zip_up path (Node (del, k) l r h)"
      using sh(2) by (simp add: zip_up_append fd_def)
    then show ?thesis using assms(3) faddrs_distinct [of "spine @ fd # path" "Node (s, sk) sl sr sh"] by simp
  qed
  note parts = distinct_parts [OF D]
  have df: "distinct (faddrs (spine @ fd # path))" "s \<notin> set (faddrs (spine @ fd # path))"
      "set (faddrs (spine @ fd # path)) \<inter> set (addrs sr) = {}" "s \<notin> set (addrs sr)"
    unfolding fas by (rule df1 parts)+
  note dd = parts(4-13)
  have s0: "s \<noteq> 0" "m s = Some (entry sk Null sr sh)" "in_store m sr" using s sh(1) by auto
  have ld: "load_slot (root, m) (slot_of (spine @ fd # path)) = Some s" by (rule load_slot_ctx [OF c])
  from store_slot_ctx [OF c df(1), of "ptr sr"] obtain root1 m1 where
    m1: "store_slot (slot_of (spine @ fd # path)) (ptr sr) (root, m) = Some (root1, m1)"
      "ctx m1 root1 (spine @ fd # path) (ptr sr)" "\<And>a. a \<notin> set (faddrs (spine @ fd # path)) \<Longrightarrow> m1 a = m a" by blast
  obtain q where q: "ctx m1 q spine (ptr sr)" "m1 del = Some \<lparr> nkey = k, na0 = ptr l, na1 = q, nh = h \<rparr>" "in_store m1 l" "ctx m1 root1 path del"
    using m1(2) by (auto simp: ctx_append fd_def)
  have ms: "m1 s = Some (entry sk Null sr sh)" using m1(3) [OF df(2)] s0 by simp
  define m3 where "m3 = m1(s \<mapsto> \<lparr> nkey = sk, na0 = ptr l, na1 = q, nh = sh \<rparr>)"
  have sp: "s \<notin> set (faddrs path)" "s \<notin> set (faddrs spine)" by (rule parts)+
  have "ctx m3 root1 path del = ctx m1 root1 path del" by (rule ctx_cong) (use sp in \<open>auto simp: m3_def\<close>)
  with q(4) have "ctx m3 root1 path del" by simp
  from store_slot_ctx [OF this dd(9), of s] obtain root4 m4 where
    m4: "store_slot (slot_of path) s (root1, m3) = Some (root4, m4)" "ctx m4 root4 path s"
      "\<And>a. a \<notin> set (faddrs path) \<Longrightarrow> m4 a = m3 a" by blast
  define m5 where "m5 = m4(del := None)"
  have run: "replace_succ (slot_of path) del (rev (slots_of path)) (root, m) =
      Some (rev (slots_of (spine @ fs # path)), root4, m4)"
  proof -
    have pu: "push (MAXH + 1) (rev (slots_of path)) (slot_of path) = Some (rev (slots_of path) @ [slot_of path])"
      using assms(4) by (simp add: push_def)
    have f: "(if length (rev (slots_of (spine @ fd # path))) > length (fd # path)
        then (rev (slots_of (spine @ fd # path)))[length (fd # path) := Child s True]
        else rev (slots_of (spine @ fd # path))) = rev (slots_of (spine @ fs # path))"
      by (rule fixed_path) (simp_all add: fs_def fd_def)
    have len2: "length (rev (slots_of path) @ [slot_of path]) = length (fd # path)" by simp
    have s1: "child m s True = Some (ptr sr)" using s0 by (simp add: child_eq)
    have d0: "child m1 del False = Some (ptr l)" using st(1) q(2) by (simp add: child_eq)
    have w0: "set_child m1 s False (ptr l) = Some (m1(s \<mapsto> \<lparr> nkey = sk, na0 = ptr l, na1 = ptr sr, nh = sh \<rparr>))"
      using s0(1) ms by (simp add: set_child_eq)
    have d1: "child (m1(s \<mapsto> \<lparr> nkey = sk, na0 = ptr l, na1 = ptr sr, nh = sh \<rparr>)) del True = Some q"
      using st(1) q(2) dd(4) by (simp add: child_eq)
    have w1: "set_child (m1(s \<mapsto> \<lparr> nkey = sk, na0 = ptr l, na1 = ptr sr, nh = sh \<rparr>)) s True q = Some m3"
      using s0(1) by (simp add: set_child_eq m3_def)
    show ?thesis
      unfolding replace_succ_def
      by (simp only: pu Option.bind.simps Let_def lm case_prod_conv ld snd_conv s1 m1(1) d0 w0 d1 w1 m4(1) len2 f)
  qed
  have m5: "m5 a = m1 a" if "a \<notin> set (faddrs path)" "a \<noteq> s" "a \<noteq> del" for a
    using m4(3) [OF that(1)] that(2,3) by (simp add: m5_def m3_def)
  have "ctx m5 q spine (ptr sr) = ctx m1 q spine (ptr sr)"
    by (rule ctx_cong, rule ballI, rule m5) (use parts in blast)+
  moreover have "m5 s = Some \<lparr> nkey = sk, na0 = ptr l, na1 = q, nh = sh \<rparr>" using m4(3) [OF sp(1)] dd(4) by (simp add: m5_def m3_def)
  moreover have "in_store m5 l = in_store m1 l"
    by (rule in_store_cong, rule ballI, rule m5) (use parts in blast)+
  moreover have "ctx m5 root4 path s = ctx m4 root4 path s"
    by (rule ctx_cong, rule ballI) (use parts(5) in \<open>metis fun_upd_other m5_def\<close>)
  ultimately have cx: "ctx m5 root4 (spine @ fs # path) (ptr sr)"
    using q m4(2) s0(1) by (auto simp: ctx_append fs_def)
  have off: "m5 a = m a" if "a \<notin> set (faddrs (spine @ fd # path))" "a \<noteq> s" for a
    using m5 [of a] m1(3) [OF that(1)] that unfolding fas by simp
  have "in_store m5 sr = in_store m sr"
    by (rule in_store_cong, rule ballI, rule off) (use df(3,4) in blast)+
  moreover have "m4 a = m a" if "a \<notin> set (addrs (zip_up path (Node (del, k) l r h)))" for a
  proof -
    have "a \<notin> set (faddrs (spine @ fd # path))" "a \<noteq> s" "a \<noteq> del" using that unfolding t fas by auto
    then show ?thesis using off [of a] by (simp add: m5_def)
  qed
  ultimately show ?thesis using sh run cx s0(3) unfolding m5_def fs_def by auto
qed

lemma distinct_moved: "distinct (A @ L @ d # B @ s # R @ C @ E) \<Longrightarrow>
    distinct (A @ L @ s # B @ R @ C @ E) \<and> d \<notin> set (A @ L @ s # B @ R @ C @ E)"
  by auto

lemma tdelete_refines:
  assumes "tree_at (root, m) t" "tree_delete (on_key cmp) (0, key) t = Some (q, t')"
  shows "\<exists>root' m'. tdelete cmp key (root, m) =
      Some (case q of TNone \<Rightarrow> NoNode | TRoot \<Rightarrow> RootPtr | TParent (a, k) \<Rightarrow> Parent a, root', m') \<and>
    root' = ptr t' \<and> in_store m' t' \<and> (\<forall>a. a \<notin> set (addrs t) \<longrightarrow> m' a = m a) \<and>
    (\<forall>a \<in> set (addrs t). a \<notin> set (addrs t') \<longrightarrow> m' a = None) \<and> (q = TNone \<longrightarrow> (root', m') = (root, m))"
proof -
  have t: "ctx m root [] (ptr t)" "in_store m t" "distinct (addrs t)" using assms(1) by (simp_all add: tree_at_def)
  obtain n path where d: "tree_descend (on_key cmp) (MAXH + 1) (0, key) t [] = Some (n, path)"
    using assms(2) by (auto simp: tree_delete_def split: bind_splits)
  from descend_store [OF d t(1,2)] have
    p: "descend cmp (MAXH + 1) key (root, m) Root [] RootPtr = Some (slot_of path, rev (slots_of path), parent_of path)"
      and c: "ctx m root path (ptr n)" "in_store m n" by simp_all
  note p' = p [unfolded Suc_eq_plus1 [symmetric]]
  have ld: "load_slot (root, m) (slot_of path) = Some (ptr n)" by (rule load_slot_ctx [OF c(1)])
  have z: "zip_up path n = t" using tree_descend_zip [OF d] by simp
  show ?thesis
  proof (cases n)
    case Null
    then have "q = TNone" "t' = t" using assms(2) d by (simp_all add: tree_delete_def)
    then show ?thesis using Null p' ld t by (auto simp: tdelete_def)
  next
    case (Node dk l r h)
    obtain del k where dk: "dk = (del, k)" by (cases dk)
    note n = Node [unfolded dk]
    have s: "del \<noteq> 0" "child m del False = Some (ptr l)" "child m del True = Some (ptr r)" "in_store m l" "in_store m r"
      using c(2) n child_store [of m del k l r h] by simp_all
    have "inorder t \<noteq> []" unfolding z [symmetric] n by (simp add: inorder_zip_up)
    then have root0: "root \<noteq> 0" using t(1) ptr_zero [OF t(2)] by auto
    have fd: "distinct (faddrs path)" "distinct (addrs n)" "set (faddrs path) \<inter> set (addrs n) = {}"
      using t(3) z faddrs_distinct [of path n] by simp_all
    have par: "(case (case path of [] \<Rightarrow> TRoot | (k, _) # _ \<Rightarrow> TParent k) of
        TNone \<Rightarrow> NoNode | TRoot \<Rightarrow> RootPtr | TParent (a, k) \<Rightarrow> Parent a) = parent_of path"
      by (cases path rule: parent_of.cases) auto
    have zero: "ptr l = 0 \<longleftrightarrow> l = Null" "ptr r = 0 \<longleftrightarrow> r = Null" using ptr_zero s(4,5) by blast+
    have at: "addrs t = map fst (before path) @ addrs l @ del # addrs r @ map fst (after path)"
      unfolding z [symmetric] n by (simp add: inorder_zip_up)
    have qn: "(case path of [] \<Rightarrow> TRoot | (k, _) # _ \<Rightarrow> TParent k) \<noteq> TNone" by (simp split: list.splits prod.splits)
    show ?thesis
    proof (cases "l = Null \<or> r = Null")
      case True
      let ?n = "if l = Null then r else l"
      have q: "q = (case path of [] \<Rightarrow> TRoot | (k, _) # _ \<Rightarrow> TParent k)" "tree_unwind path ?n = Some t'"
        using assms(2) d n True by (auto simp: tree_delete_def split: bind_splits if_splits)
      from store_slot_ctx [OF c(1) fd(1), of "ptr ?n"] obtain root1 m1 where
        m1: "store_slot (slot_of path) (ptr ?n) (root, m) = Some (root1, m1)" "ctx m1 root1 path (ptr ?n)"
          "\<And>a. a \<notin> set (faddrs path) \<Longrightarrow> m1 a = m a" by blast
      let ?m = "m1(del := None)"
      have an: "set (addrs ?n) \<subseteq> set (addrs n)" "del \<notin> set (addrs ?n)" "del \<notin> set (faddrs path)" "distinct (addrs ?n)"
        using fd n by auto
      have "ctx ?m root1 path (ptr ?n) = ctx m1 root1 path (ptr ?n)" by (rule ctx_cong) (use an(3) in auto)
      then have c1: "ctx ?m root1 path (ptr ?n)" using m1(2) by simp
      have "in_store ?m ?n = in_store m ?n"
      proof (rule in_store_cong, rule ballI)
        fix a
        assume a: "a \<in> set (addrs ?n)"
        then have "a \<notin> set (faddrs path)" using an(1) fd(3) by blast
        moreover have "a \<noteq> del" using a an(2) by blast
        ultimately show "?m a = m a" using m1(3) [of a] by simp
      qed
      then have s1: "in_store ?m ?n" using s(4,5) by simp
      have dz: "distinct (addrs (zip_up path ?n))"
        using fd(1,3) an(1,4) faddrs_distinct [of path ?n] by blast
      from unwind_store [OF c1 s1 dz q(2), of True] obtain root' m' where
        m': "unwind True (slots_of path) (root1, ?m) = Some (root', m')" "root' = ptr t'" "in_store m' t'"
          "inorder t' = inorder (zip_up path ?n)" "\<And>a. a \<notin> set (addrs (zip_up path ?n)) \<Longrightarrow> m' a = ?m a" by blast
      have run: "tdelete cmp key (root, m) = Some (parent_of path, root', m')"
        using True m1(1) m'(1) by (simp add: tdelete_def root0 p' ld n s zero split: if_splits)
      have at': "addrs t' = map fst (before path) @ addrs ?n @ map fst (after path)" by (simp add: m'(4) inorder_zip_up)
      have dt: "del \<notin> set (addrs t')" using an(2,3) unfolding at' by simp
      have "m' a = m a" if "a \<notin> set (addrs t)" for a
      proof -
        have "a \<notin> set (addrs t')" "a \<notin> set (faddrs path)" "a \<noteq> del" using that True unfolding at at' by auto
        then show ?thesis using m'(5) [of a] m1(3) [of a] m'(4) by simp
      qed
      moreover have "m' a = None" if "a \<in> set (addrs t)" "a \<notin> set (addrs t')" for a
      proof -
        have "a = del" using that True unfolding at at' by auto
        then show ?thesis using m'(5) [of a] dt m'(4) by simp
      qed
      ultimately show ?thesis unfolding q(1) par using run m'(2,3) qn by blast
    next
      case False
      obtain s1 spine where lm: "tree_leftmost (MAXH - length path) r [] = Some (s1, spine)" and len: "\<not> MAXH + 1 \<le> length path"
        using assms(2) d n False by (auto simp: tree_delete_def split: bind_splits if_splits)
      obtain sn sk sl sr sh where s1: "s1 = Node (sn, sk) sl sr sh" using tree_leftmost_shape [OF lm] by auto
      have q: "q = (case path of [] \<Rightarrow> TRoot | (k, _) # _ \<Rightarrow> TParent k)"
          "tree_unwind (spine @ ((sn, sk), True, l, sh) # path) sr = Some t'"
        using assms(2) d n False lm s1 len by (auto simp: tree_delete_def tree_unwind_append split: bind_splits)
      have "ctx m root path del" "in_store m (Node (del, k) l r h)" "distinct (addrs (zip_up path (Node (del, k) l r h)))" "length path \<le> MAXH"
        using c n t(3) z len by simp_all
      from replace_succ_store [OF this lm [unfolded s1]] obtain root1 m1 where
        r: "sl = Null" "r = zip_up spine (Node (sn, sk) sl sr sh)"
          "replace_succ (slot_of path) del (rev (slots_of path)) (root, m) =
            Some (rev (slots_of (spine @ ((sn, sk), True, l, sh) # path)), root1, m1)"
          "ctx (m1(del := None)) root1 (spine @ ((sn, sk), True, l, sh) # path) (ptr sr)" "in_store (m1(del := None)) sr"
          "\<And>a. a \<notin> set (addrs t) \<Longrightarrow> m1 a = m a" using z n by auto
      let ?p = "spine @ ((sn, sk), True, l, sh) # path"
      have ar: "addrs r = map fst (before spine) @ sn # addrs sr @ map fst (after spine)"
        unfolding r(2) by (simp add: inorder_zip_up r(1))
      have az: "addrs (zip_up ?p sr) = map fst (before path) @ addrs l @ sn # map fst (before spine) @ addrs sr @ map fst (after spine) @ map fst (after path)"
        by (simp add: zip_up_append inorder_zip_up)
      have dz: "distinct (addrs (zip_up ?p sr))"
        using distinct_moved [OF t(3) [unfolded at ar append_assoc append_Cons]] unfolding az by simp
      from unwind_store [OF r(4,5) dz q(2), of True] obtain root' m' where
        m': "unwind True (slots_of ?p) (root1, m1(del := None)) = Some (root', m')" "root' = ptr t'" "in_store m' t'"
          "inorder t' = inorder (zip_up ?p sr)" "\<And>a. a \<notin> set (addrs (zip_up ?p sr)) \<Longrightarrow> m' a = (m1(del := None)) a" by blast
      have run: "tdelete cmp key (root, m) = Some (parent_of path, root', m')"
        using False r(3) m'(1) by (simp add: tdelete_def root0 p' ld n s zero)
      have at': "addrs t' = addrs (zip_up ?p sr)" by (simp add: m'(4))
      have same: "set (addrs t) = insert del (set (addrs t'))" "del \<notin> set (addrs t')"
        using distinct_moved [OF t(3) [unfolded at ar append_assoc append_Cons]] unfolding at ar at' az by auto
      have "m' a = m a" if "a \<notin> set (addrs t)" for a
        using that same(1) m'(5) [of a] r(6) [of a] at' by auto
      moreover have "m' a = None" if "a \<in> set (addrs t)" "a \<notin> set (addrs t')" for a
        using that same(1) m'(5) [of a] at' by auto
      ultimately show ?thesis unfolding q(1) par using run m'(2,3) qn by blast
    qed
  qed
qed

lemma walk_store: "in_store m t \<Longrightarrow> walk m (ptr t) level = Some (map (\<lambda>((a, k), v, l). (a, v, l)) (tree_walk t level))"
proof (induction t arbitrary: level)
  case Null
  then show ?case by (simp add: walk.simps)
next
  case (Node ak l r h)
  obtain a k where ak: "ak = (a, k)" by (cases ak)
  have s: "a \<noteq> 0" "child m a False = Some (ptr l)" "child m a True = Some (ptr r)" "in_store m l" "in_store m r"
    using Node.prems ak child_store [of m a k l r h] by simp_all
  have "ptr l = 0 \<longleftrightarrow> l = Null" "ptr r = 0 \<longleftrightarrow> r = Null" using ptr_zero s(4,5) by blast+
  then show ?case using Node.IH(1) [OF s(4), of "level + 1"] Node.IH(2) [OF s(5), of "level + 1"] s(1-3) by (simp add: ak walk.simps)
qed

lemma twalk_inorder: "tree_at st t \<Longrightarrow>
    \<exists>vs. twalk st = Some vs \<and> map fst (filter (\<lambda>(_, v, _). v = leaf \<or> v = postorder) vs) = addrs t"
proof -
  assume "tree_at st t"
  then have w: "twalk st = Some (map (\<lambda>((a, k), v, l). (a, v, l)) (tree_walk t 0))"
    using walk_store [of "snd st" t 0] by (simp add: twalk_def tree_at_def)
  have "map fst (filter (\<lambda>(_, v, _). v = leaf \<or> v = postorder) (map (\<lambda>((a, k), v, l). (a, v, l)) ws)) =
      map fst (map fst (filter (\<lambda>(_, v, _). v = leaf \<or> v = postorder) ws))" for ws :: "((u64 \<times> 'a) \<times> visit \<times> nat) list"
    by (induction ws) auto
  then have "map fst (filter (\<lambda>(_, v, _). v = leaf \<or> v = postorder) (map (\<lambda>((a, k), v, l). (a, v, l)) (tree_walk t 0))) = addrs t"
    by (simp only: tree_walk_inorder)
  then show ?thesis using w by blast
qed

fun keys_post :: "(u64 \<times> 'k) node \<Rightarrow> 'k list" where
  "keys_post Null = []"
| "keys_post (Node k l r h) = keys_post l @ keys_post r @ [snd k]"

lemma tdestroy_store: "in_store m t \<Longrightarrow> distinct (addrs t) \<Longrightarrow>
    \<exists>m'. tdestroy m (ptr t) = Some (keys_post t, m') \<and> (\<forall>a. m' a = (if a \<in> set (addrs t) then None else m a))"
proof (induction t arbitrary: m)
  case Null
  then show ?case by (simp add: tdestroy.simps)
next
  case (Node ak l r h)
  obtain a k where ak: "ak = (a, k)" by (cases ak)
  have s: "a \<noteq> 0" "m a = Some (entry k l r h)" "in_store m l" "in_store m r" and
    d: "distinct (addrs l)" "distinct (addrs r)" "a \<notin> set (addrs l)" "a \<notin> set (addrs r)" "set (addrs l) \<inter> set (addrs r) = {}"
    using Node.prems ak by auto
  from Node.IH(1) [OF s(3) d(1)] obtain m1 where
    m1: "tdestroy m (ptr l) = Some (keys_post l, m1)" "\<And>b. m1 b = (if b \<in> set (addrs l) then None else m b)" by blast
  have "in_store m1 r = in_store m r"
  proof (rule in_store_cong, rule ballI)
    fix b
    assume "b \<in> set (addrs r)"
    then have "b \<notin> set (addrs l)" using d(5) by blast
    then show "m1 b = m b" unfolding m1(2) by (rule if_not_P)
  qed
  then have "in_store m1 r" using s(4) by simp
  from Node.IH(2) [OF this d(2)] obtain m2 where
    m2: "tdestroy m1 (ptr r) = Some (keys_post r, m2)" "\<And>b. m2 b = (if b \<in> set (addrs r) then None else m1 b)" by blast
  have a: "m1 a = m a" "m2 a = m a" using m1(2) [of a] m2(2) [of a] d(3,4) by simp_all
  have "tdestroy m a = Some (keys_post l @ keys_post r @ [k], m2(a := None))"
    using s(1,2) a m1(1) m2(1) by (subst tdestroy.simps) (simp add: child_eq node_at_def)
  moreover have "(m2(a := None)) b = (if b \<in> set (addrs (Node ak l r h)) then None else m b)" for b
    using m2(2) [of b] m1(2) [of b] by (simp add: ak)
  ultimately show ?case by (simp add: ak)
qed


text \<open>A search tree of the comparison that \<open>tsearch\<close> maintains.\<close>

definition search_tree :: "('k \<Rightarrow> 'k \<Rightarrow> int) \<Rightarrow> 'k tstate \<Rightarrow> (u64 \<times> 'k) node \<Rightarrow> bool" where
  "search_tree cmp st t \<longleftrightarrow> tree_at st t \<and> avl t \<and> strictly_sorted_by cmp (map snd (inorder t))"

lemma sorted_on_key: "strictly_sorted_by (on_key cmp) xs \<longleftrightarrow> strictly_sorted_by cmp (map snd xs)"
  by (simp add: strictly_sorted_by_def sorted_wrt_map on_key_def)

lemma in_store_live: "in_store m t \<Longrightarrow> a \<in> set (addrs t) \<Longrightarrow> m a \<noteq> None"
  by (induction m t rule: in_store.induct) auto



subsection \<open>Properties\<close>


text \<open>
  C8. \<open>tdelete\<close> under the same conditions goes through no null pointer and no freed node and never
  overruns its path array.  The node whose key compares equal is taken out, from a leaf, an inner node or the
  root, and freed, and it alone; every other key stays in its node, in order, the tree is again a balanced
  search tree with right heights, and no memory outside the tree is written.  Without such a node
  it returns null and changes nothing.
\<close>

theorem tdelete_correct:
  assumes "comparator cmp" "search_tree cmp (root, m) t" "length (inorder t) < 2 ^ 64"
  shows "if \<exists>x \<in> set (inorder t). cmp key (snd x) = 0
    then \<exists>p root' m' t'. tdelete cmp key (root, m) = Some (p, root', m') \<and> p \<noteq> NoNode \<and> search_tree cmp (root', m') t' \<and>
      inorder t' = filter (\<lambda>x. cmp key (snd x) \<noteq> 0) (inorder t) \<and>
      (\<forall>a. a \<notin> set (addrs t) \<longrightarrow> m' a = m a) \<and> (\<forall>(a, k) \<in> set (inorder t). m' a = None \<longleftrightarrow> cmp key k = 0)
    else tdelete cmp key (root, m) = Some (NoNode, root, m)"
proof -
  have t: "tree_at (root, m) t" "avl t" "strictly_sorted_by cmp (map snd (inorder t))" "distinct (addrs t)"
    using assms(2) by (simp_all add: search_tree_def tree_at_def)
  from tree_delete_avl [OF on_key_comparator [OF assms(1)] t(2) t(3) [folded sorted_on_key] assms(3), where key = "(0, key)"]
  obtain q t' where d: "tree_delete (on_key cmp) (0, key) t = Some (q, t')" "avl t'"
    "inorder t' = filter (\<lambda>x. cmp key (snd x) \<noteq> 0) (inorder t)" "q = TNone \<longleftrightarrow> (\<forall>x \<in> set (inorder t). cmp key (snd x) \<noteq> 0)"
    by (auto simp: on_key_def)
  let ?p = "case q of TNone \<Rightarrow> NoNode | TRoot \<Rightarrow> RootPtr | TParent (a, k) \<Rightarrow> Parent a"
  from tdelete_refines [OF t(1) d(1)] obtain root' m' where
    r: "tdelete cmp key (root, m) = Some (?p, root', m')" "root' = ptr t'" "in_store m' t'"
      "\<forall>a. a \<notin> set (addrs t) \<longrightarrow> m' a = m a" "\<And>a. a \<in> set (addrs t) \<Longrightarrow> a \<notin> set (addrs t') \<Longrightarrow> m' a = None"
      "q = TNone \<longrightarrow> (root', m') = (root, m)" by blast
  show ?thesis
  proof (cases "q = TNone")
    case True
    then show ?thesis using r(1,6) d(4) by auto
  next
    case False
    then have p: "?p \<noteq> NoNode" by (auto split: tree_parent.splits prod.splits)
    have "distinct (addrs t')" using t(4) unfolding d(3) by (rule distinct_map_filter)
    moreover have "strictly_sorted_by cmp (map snd (inorder t'))"
      using t(3) unfolding d(3) strictly_sorted_by_def sorted_wrt_map by (rule sorted_wrt_filter)
    ultimately have st: "search_tree cmp (root', m') t'" using r(2,3) d(2) by (simp add: search_tree_def tree_at_def)
    have "m' a = None \<longleftrightarrow> cmp key k = 0" if ak: "(a, k) \<in> set (inorder t)" for a k
    proof (cases "cmp key k = 0")
      case True
      have "a \<notin> set (addrs t')"
      proof
        assume "a \<in> set (addrs t')"
        then obtain k' where k': "(a, k') \<in> set (inorder t)" "cmp key k' \<noteq> 0" unfolding d(3) by auto
        then have "k' = k" using ak t(4) eq_key_imp_eq_value [of "inorder t" a k k'] by (simp add: eq_key_imp_eq_value)
        then show False using k' True by simp
      qed
      moreover have "a \<in> set (addrs t)" using ak by force
      ultimately show ?thesis using r(5) True by simp
    next
      case False
      then have "(a, k) \<in> set (inorder t')" using ak d(3) by simp
      then have "a \<in> set (addrs t')" by force
      then show ?thesis using False in_store_live [OF r(3)] by simp
    qed
    then show ?thesis using False d(3,4) r(1,4) p st by auto
  qed
qed

text \<open>A tree of three nodes: the keys 0, 1 and 2 in the nodes at 32, 16 and 48.\<close>

definition sample_store :: "int store" where
  "sample_store = [16 \<mapsto> \<lparr> nkey = 1, na0 = 32, na1 = 48, nh = 2 \<rparr>,
     32 \<mapsto> \<lparr> nkey = 0, na0 = 0, na1 = 0, nh = 1 \<rparr>, 48 \<mapsto> \<lparr> nkey = 2, na0 = 0, na1 = 0, nh = 1 \<rparr>]"

definition sample_tree :: "(u64 \<times> int) node" where
  "sample_tree = Node (16, 1) (Node (32, 0) Null Null 1) (Node (48, 2) Null Null 1) 2"

lemma sample_search_tree: "search_tree (\<lambda>x y. x - y) (16, sample_store) sample_tree"
  by (simp add: search_tree_def tree_at_def sample_store_def sample_tree_def strictly_sorted_by_def)


theorem tdelete_correct_witness:
  "\<exists>p root' m' t'. tdelete (\<lambda>x y. x - y) 1 (16, sample_store) = Some (p, root', m') \<and> p \<noteq> NoNode \<and>
     search_tree (\<lambda>x y. x - y) (root', m') t' \<and> inorder t' = [(32, 0), (48, 2)] \<and> m' 16 = None"
  using tdelete_correct [OF int_comparator sample_search_tree, of 1]
  by (simp add: sample_tree_def) blast

end
