(* ===== verification/LSearch.thy ===== *)
theory LSearch
  imports SearchTable
begin

text \<open>
  Linear search and queues of \<^verbatim>\<open>src/search.c\<close>.  The array of \<open>lfind\<close> and \<open>lsearch\<close> is the list of its
  elements with the number the caller's storage holds, the result an index into it; the queue's
  elements are a store from addresses to the pairs of links.
\<close>

subsection \<open>Linear search\<close>

definition lfind :: "('k \<Rightarrow> 'e \<Rightarrow> int) \<Rightarrow> 'k \<Rightarrow> 'e list \<Rightarrow> nat option option" where
  "lfind cmp key base = do {
     i \<leftarrow> loop (\<lambda>i. Some (i < length base \<and> cmp key (base ! i) \<noteq> 0)) (\<lambda>i. Some (Suc i)) 0;
     Some (if i < length base then Some i else None) }"

text \<open>A new element past the end of the storage is a fault.\<close>

definition lsearch :: "('e \<Rightarrow> 'e \<Rightarrow> int) \<Rightarrow> nat \<Rightarrow> 'e \<Rightarrow> 'e list \<Rightarrow> (nat \<times> 'e list) option" where
  "lsearch cmp cap key base = do {
     r \<leftarrow> lfind cmp key base;
     case r of Some i \<Rightarrow> Some (i, base)
     | None \<Rightarrow> if length base < cap then Some (length base, base @ [key]) else None }"

lemma lfind_eq:
  "lfind cmp key base = Some (let i = length (takeWhile (\<lambda>e. cmp key e \<noteq> 0) base) in
     if i < length base then Some i else None)"
proof -
  let ?w = "takeWhile (\<lambda>e. cmp key e \<noteq> 0) base"
  have "loop (\<lambda>i. Some (i < length base \<and> cmp key (base ! i) \<noteq> 0)) (\<lambda>i. Some (Suc i)) 0 = Some (length ?w)"
  proof (rule loop_iterate [where st = "\<lambda>i. i"])
    fix i
    assume i: "i < length ?w"
    then have "i < length base" by (meson length_takeWhile_le order_less_le_trans)
    moreover have "base ! i = ?w ! i" using i by (simp add: takeWhile_nth)
    ultimately show "Some (i < length base \<and> cmp key (base ! i) \<noteq> 0) = Some True"
      using nth_mem [OF i] by (auto dest: set_takeWhileD)
  next
    show "Some (length ?w < length base \<and> cmp key (base ! length ?w) \<noteq> 0) = Some False"
      using nth_length_takeWhile [of "\<lambda>e. cmp key e \<noteq> 0" base] by auto
  qed simp
  then show ?thesis by (simp add: lfind_def Let_def)
qed

text \<open>Items with a key, compared on it.\<close>

definition key_cmp :: "'k \<times> 'v \<Rightarrow> 'k \<times> 'v \<Rightarrow> int" where
  "key_cmp x y = (if fst x = fst y then 0 else 1)"

definition ltable_find :: "('k \<times> 'v) list \<times> nat \<Rightarrow> 'k \<Rightarrow> 'v option" where
  "ltable_find = (\<lambda>(base, cap) k.
     (case lfind (\<lambda>k e. if k = fst e then 0 else 1) k base of
        Some (Some i) \<Rightarrow> Some (snd (base ! i)) | _ \<Rightarrow> None))"

definition ltable_enter :: "'k \<Rightarrow> 'v \<Rightarrow> ('k \<times> 'v) list \<times> nat \<Rightarrow> (('k \<times> 'v) list \<times> nat) option" where
  "ltable_enter k v = (\<lambda>(base, cap). map_option (\<lambda>(_, base'). (base', cap)) (lsearch key_cmp cap (k, v) base))"

lemma takeWhile_key:
  "(if length (takeWhile (\<lambda>e. k \<noteq> fst e) base) < length base
    then Some (snd (base ! length (takeWhile (\<lambda>e. k \<noteq> fst e) base))) else None) = map_of base k"
  by (induction base) auto

lemma ltable_find_eq: "ltable_find (base, cap) = map_of base"
proof
  fix k
  show "ltable_find (base, cap) k = map_of base k"
    using takeWhile_key [of k base] by (simp add: ltable_find_def lfind_eq Let_def split: if_splits)
qed

lemma ltable_enter_eq:
  "ltable_enter k v (base, cap) =
     (case map_of base k of Some _ \<Rightarrow> Some (base, cap)
      | None \<Rightarrow> if length base < cap then Some (base @ [(k, v)], cap) else None)"
  unfolding takeWhile_key [of k base, symmetric]
  by (auto simp: ltable_enter_def lsearch_def lfind_eq key_cmp_def Let_def split: option.splits if_splits)

interpretation ltable: search_table "\<lambda>(base, cap). length base \<le> cap" ltable_find ltable_enter
  "\<lambda>(base, cap). cap - length base"
  by unfold_locales
    (auto simp: ltable_enter_eq ltable_find_eq fun_eq_iff map_add_def split: option.splits if_splits prod.splits)

subsection \<open>Queues\<close>

text \<open>An element's links: next and prev; the null pointer is 0.\<close>

type_synonym qstore = "u64 \<Rightarrow> (u64 \<times> u64) option"

definition set_next :: "qstore \<Rightarrow> u64 \<Rightarrow> u64 \<Rightarrow> qstore option" where
  "set_next m a v = (case m a of None \<Rightarrow> None | Some (_, p) \<Rightarrow> Some (m(a \<mapsto> (v, p))))"

definition set_prev :: "qstore \<Rightarrow> u64 \<Rightarrow> u64 \<Rightarrow> qstore option" where
  "set_prev m a v = (case m a of None \<Rightarrow> None | Some (n, _) \<Rightarrow> Some (m(a \<mapsto> (n, v))))"

definition insque :: "u64 \<Rightarrow> u64 \<Rightarrow> qstore \<Rightarrow> qstore option" where
  "insque e p m =
     (if p = 0 then do { m \<leftarrow> set_prev m e 0; set_next m e 0 }
      else do {
        (pn, _) \<leftarrow> m p;
        m \<leftarrow> set_next m e pn;
        m \<leftarrow> set_prev m e p;
        m \<leftarrow> set_next m p e;
        (en, _) \<leftarrow> m e;
        if en \<noteq> 0 then set_prev m en e else Some m })"

definition remque :: "u64 \<Rightarrow> qstore \<Rightarrow> qstore option" where
  "remque e m = do {
     (n, p) \<leftarrow> m e;
     m \<leftarrow> (if n \<noteq> 0 then set_prev m n p else Some m);
     (n, p) \<leftarrow> m e;
     if p \<noteq> 0 then set_next m p n else Some m }"

text \<open>The elements \<open>xs\<close> linked in this order, between \<open>prev\<close> and \<open>next\<close>.\<close>

fun linked :: "qstore \<Rightarrow> u64 \<Rightarrow> u64 list \<Rightarrow> u64 \<Rightarrow> bool" where
  "linked m prev [] next \<longleftrightarrow> True"
| "linked m prev (x # xs) next \<longleftrightarrow> x \<noteq> 0 \<and>
     m x = Some (case xs of [] \<Rightarrow> next | y # _ \<Rightarrow> y, prev) \<and> linked m x xs next"

definition queue :: "qstore \<Rightarrow> u64 list \<Rightarrow> bool" where
  "queue m xs \<longleftrightarrow> distinct xs \<and> linked m 0 xs 0"

lemma linked_append:
  "linked m prev (xs @ ys) next \<longleftrightarrow> linked m prev xs (case ys of [] \<Rightarrow> next | y # _ \<Rightarrow> y) \<and>
     linked m (if xs = [] then prev else last xs) ys next"
  by (induction xs arbitrary: prev) (auto split: list.splits)

lemma linked_frame: "(\<forall>x \<in> set xs. m' x = m x) \<Longrightarrow> linked m' prev xs next = linked m prev xs next"
  by (induction xs arbitrary: prev) auto

lemma linked_nonzero: "linked m prev xs next \<Longrightarrow> 0 \<notin> set xs"
  by (induction xs arbitrary: prev) auto

lemma insque_linked:
  assumes "linked m prev (xs @ p # ys) next" "distinct (xs @ p # ys)" "e \<noteq> 0" "e \<notin> set (xs @ p # ys)"
    "m e = Some l" "next = 0"
  shows "\<exists>m'. insque e p m = Some m' \<and> linked m' prev (xs @ p # e # ys) next \<and>
    (\<forall>a. a \<notin> set (xs @ p # e # ys) \<longrightarrow> m' a = m a)"
proof -
  let ?n = "case ys of [] \<Rightarrow> 0 | y # _ \<Rightarrow> y" and ?b = "if xs = [] then prev else last xs"
  from assms have p: "p \<noteq> 0" "m p = Some (?n, ?b)" "linked m prev xs p" "linked m p ys 0" "e \<noteq> p"
    by (auto simp: linked_append split: list.splits)
  obtain ln lp where l: "l = (ln, lp)" by fastforce
  show ?thesis
  proof (cases ys)
    case Nil
    let ?m = "m(e \<mapsto> (0, p), p \<mapsto> (e, ?b))"
    have "insque e p m = Some ?m" using p assms(3,5) Nil l
      by (simp add: insque_def set_next_def set_prev_def fun_upd_twist)
    moreover have "linked ?m prev xs p = linked m prev xs p"
      by (rule linked_frame) (use assms(2,4) in auto)
    ultimately show ?thesis using p assms(3,6) Nil by (auto simp: linked_append)
  next
    case (Cons y zs)
    with p have y: "y \<noteq> 0" "m y = Some (case zs of [] \<Rightarrow> 0 | z # _ \<Rightarrow> z, p)" "linked m y zs 0" by auto
    let ?m = "m(e \<mapsto> (y, p), p \<mapsto> (e, ?b), y \<mapsto> (case zs of [] \<Rightarrow> 0 | z # _ \<Rightarrow> z, e))"
    have ne: "y \<noteq> e" "y \<noteq> p" using assms(2,4) Cons by auto
    have "insque e p m = Some ?m" using p y ne assms(3,5) Cons l
      by (simp add: insque_def set_next_def set_prev_def fun_upd_twist)
    moreover have "linked ?m prev xs p = linked m prev xs p" "linked ?m y zs 0 = linked m y zs 0"
      by (rule linked_frame, (use assms(2,4) Cons in auto)[1])+
    ultimately show ?thesis using p y ne assms(3,6) Cons by (auto simp: linked_append)
  qed
qed

lemma remque_linked:
  assumes "linked m 0 (xs @ e # ys) 0" "distinct (xs @ e # ys)"
  shows "\<exists>m'. remque e m = Some m' \<and> linked m' 0 (xs @ ys) 0 \<and> (\<forall>a. a \<notin> set (xs @ ys) \<longrightarrow> m' a = m a)"
proof -
  let ?n = "case ys of [] \<Rightarrow> 0 | y # _ \<Rightarrow> y"
  from assms have e: "e \<noteq> 0" "m e = Some (?n, if xs = [] then 0 else last xs)" "linked m 0 xs e" "linked m e ys 0"
    by (auto simp: linked_append split: list.splits)
  show ?thesis
  proof (cases xs rule: rev_cases)
    case Nil
    show ?thesis
    proof (cases ys)
      case Nil
      with e \<open>xs = []\<close> show ?thesis by (auto simp: remque_def)
    next
      case (Cons y zs)
      with e have y: "y \<noteq> 0" "m y = Some (case zs of [] \<Rightarrow> 0 | z # _ \<Rightarrow> z, e)" "linked m y zs 0" by auto
      let ?m = "m(y \<mapsto> (case zs of [] \<Rightarrow> 0 | z # _ \<Rightarrow> z, 0))"
      have "linked ?m y zs 0 = linked m y zs 0" by (rule linked_frame) (use assms(2) Cons in auto)
      moreover have "remque e m = Some ?m" using e y \<open>xs = []\<close> Cons assms(2) by (auto simp: remque_def set_prev_def)
      ultimately show ?thesis using y \<open>xs = []\<close> Cons by auto
    qed
  next
    case (snoc ws w)
    with e have w: "w \<noteq> 0" "m w = Some (e, if ws = [] then 0 else last ws)" "linked m 0 ws w"
      by (auto simp: linked_append)
    show ?thesis
    proof (cases ys)
      case Nil
      let ?m = "m(w \<mapsto> (0, if ws = [] then 0 else last ws))"
      have "linked ?m 0 ws w = linked m 0 ws w" by (rule linked_frame) (use assms(2) snoc in auto)
      moreover have "remque e m = Some ?m" using e w snoc Nil by (auto simp: remque_def set_next_def)
      ultimately show ?thesis using w snoc Nil by (auto simp: linked_append)
    next
      case (Cons y zs)
      with e have y: "y \<noteq> 0" "m y = Some (case zs of [] \<Rightarrow> 0 | z # _ \<Rightarrow> z, e)" "linked m y zs 0" by auto
      let ?m = "m(y \<mapsto> (case zs of [] \<Rightarrow> 0 | z # _ \<Rightarrow> z, w), w \<mapsto> (y, if ws = [] then 0 else last ws))"
      have "linked ?m y zs 0 = linked m y zs 0" "linked ?m 0 ws w = linked m 0 ws w"
        by (rule linked_frame, (use assms(2) snoc Cons in auto)[1])+
      moreover have "remque e m = Some ?m"
        using e w y snoc Cons assms(2) by (auto simp: remque_def set_prev_def set_next_def)
      ultimately show ?thesis using w y snoc Cons assms(2) by (auto simp: linked_append)
    qed
  qed
qed

lemma insque_alone:
  assumes "e \<noteq> 0" "m e = Some l"
  shows "\<exists>m'. insque e 0 m = Some m' \<and> queue m' [e] \<and> (\<forall>a. a \<noteq> e \<longrightarrow> m' a = m a)"
  using assms by (cases l) (simp add: insque_def set_next_def set_prev_def queue_def)

lemma insque_queue:
  assumes "queue m (xs @ p # ys)" "e \<noteq> 0" "e \<notin> set (xs @ p # ys)" "m e = Some l"
  shows "\<exists>m'. insque e p m = Some m' \<and> queue m' (xs @ p # e # ys) \<and> (\<forall>a. a \<notin> set (xs @ p # e # ys) \<longrightarrow> m' a = m a)"
proof -
  from assms obtain m' where "insque e p m = Some m'" "linked m' 0 (xs @ p # e # ys) 0"
    "\<forall>a. a \<notin> set (xs @ p # e # ys) \<longrightarrow> m' a = m a"
    using insque_linked [of m 0 xs p ys 0 e l] by (auto simp: queue_def)
  moreover have "distinct (xs @ p # e # ys)" using assms(1,3) by (auto simp: queue_def)
  ultimately show ?thesis by (auto simp: queue_def)
qed

lemma remque_queue:
  assumes "queue m (xs @ e # ys)"
  shows "\<exists>m'. remque e m = Some m' \<and> queue m' (xs @ ys) \<and> (\<forall>a. a \<notin> set (xs @ ys) \<longrightarrow> m' a = m a)"
  using assms remque_linked [of m xs e ys] by (auto simp: queue_def)

subsection \<open>Properties\<close>

text \<open>
  C9. \<open>insque\<close> and \<open>remque\<close> on queues that are not circular, whose ends have null links.  For a writable
  element \<open>e\<close> whose address is not null: \<open>insque\<close> with a null predecessor makes a queue of \<open>e\<close> alone;
  \<open>insque\<close> after an element of a queue that does not hold \<open>e\<close> puts \<open>e\<close> right behind it; and \<open>remque\<close> of \<open>e\<close> at
  any place of a queue, the first and the last included, joins its neighbours.  In each case the
  queue is linked both ways afterwards, in the old order, and no element outside it is written.
\<close>

theorem insque_remque_queue:
  assumes "e \<noteq> 0" "m e = Some l"
  shows "(\<exists>m'. insque e 0 m = Some m' \<and> queue m' [e] \<and> (\<forall>a. a \<noteq> e \<longrightarrow> m' a = m a)) \<and>
    (\<forall>xs p ys. queue m (xs @ p # ys) \<and> e \<notin> set (xs @ p # ys) \<longrightarrow>
      (\<exists>m'. insque e p m = Some m' \<and> queue m' (xs @ p # e # ys) \<and> (\<forall>a. a \<notin> set (xs @ p # e # ys) \<longrightarrow> m' a = m a))) \<and>
    (\<forall>xs ys. queue m (xs @ e # ys) \<longrightarrow>
      (\<exists>m'. remque e m = Some m' \<and> queue m' (xs @ ys) \<and> (\<forall>a. a \<notin> set (xs @ ys) \<longrightarrow> m' a = m a)))"
  using insque_alone [of e m, OF assms] insque_queue [of m _ _ _ e, OF _ assms(1) _ assms(2)] remque_queue [of m _ e]
  by blast

theorem insque_remque_queue_witness:
  "(\<exists>m'. insque 3 0 [1 \<mapsto> (2, 0), 2 \<mapsto> (0, 1), 3 \<mapsto> (7, 7)] = Some m' \<and> queue m' [3]) \<and>
   (\<exists>m'. insque 3 1 [1 \<mapsto> (2, 0), 2 \<mapsto> (0, 1), 3 \<mapsto> (7, 7)] = Some m' \<and> queue m' [1, 3, 2]) \<and>
   (\<exists>m'. remque 1 [1 \<mapsto> (2, 0), 2 \<mapsto> (0, 1), 3 \<mapsto> (7, 7)] = Some m' \<and> queue m' [2])"
proof -
  let ?m = "[1 \<mapsto> (2, 0), 2 \<mapsto> (0, 1), 3 \<mapsto> (7, 7)] :: qstore"
  have q: "queue ?m ([] @ 1 # [2])" "?m 3 = Some (7, 7)" "?m 1 = Some (2, 0)" "(3 :: u64) \<notin> set ([] @ 1 # [2])"
    by (simp_all add: queue_def)
  have nz: "(3 :: u64) \<noteq> 0" "(1 :: u64) \<noteq> 0" by simp_all
  have "\<exists>m'. insque 3 0 ?m = Some m' \<and> queue m' [3]"
    using conjunct1 [OF insque_remque_queue [where m = ?m, OF nz(1) q(2)]] by blast
  moreover have "\<exists>m'. insque 3 1 ?m = Some m' \<and> queue m' ([] @ 1 # 3 # [2])"
    using conjunct1 [OF conjunct2 [OF insque_remque_queue [where m = ?m, OF nz(1) q(2)]], rule_format, OF conjI [OF q(1,4)]] by blast
  moreover have "\<exists>m'. remque 1 ?m = Some m' \<and> queue m' ([] @ [2])"
    using conjunct2 [OF conjunct2 [OF insque_remque_queue [where m = ?m, OF nz(2) q(3)]], rule_format, OF q(1)] by blast
  ultimately show ?thesis by simp
qed

end
