(* ===== verification/Qsort.thy ===== *)
theory Qsort
  imports Comparator "HOL-Library.Multiset"
begin

text \<open>
  \<^verbatim>\<open>src/qsort.c\<close>: \<open>qsort_r\<close>, \<open>qsort\<close> and \<open>bsearch\<close>.  The array is the list of its elements, a pointer
  \<open>base + i * w\<close> the index of an element; comparing or exchanging elements outside the array is a
  fault (\<open>None\<close>).  A sub-array is given, as in the source, by its first index and its length.
  \<open>swap_mem\<close> is the byte-level exchange of two elements, \<open>swap\<close> its effect on the list.
\<close>

subsection \<open>Comparing and exchanging\<close>

definition CMP :: "('a \<Rightarrow> 'a \<Rightarrow> int) \<Rightarrow> 'a list \<Rightarrow> nat \<Rightarrow> nat \<Rightarrow> int option" where
  "CMP cmp xs i j = (if i < length xs \<and> j < length xs then Some (cmp (xs ! i) (xs ! j)) else None)"

definition swap :: "'a list \<Rightarrow> nat \<Rightarrow> nat \<Rightarrow> 'a list option" where
  "swap xs i j = (if i < length xs \<and> j < length xs then Some (xs[i := xs ! j, j := xs ! i]) else None)"

subsection \<open>The sorting routines\<close>

text \<open>The inner loop of the insertion sort moves element \<open>j\<close> down.\<close>

fun insert_down :: "('a \<Rightarrow> 'a \<Rightarrow> int) \<Rightarrow> nat \<Rightarrow> 'a list \<Rightarrow> nat \<Rightarrow> 'a list option" where
  "insert_down cmp base xs 0 = Some xs"
| "insert_down cmp base xs (Suc j) = do {
     c \<leftarrow> CMP cmp xs (base + j) (base + Suc j);
     if c > 0 then do { xs \<leftarrow> swap xs (base + j) (base + Suc j); insert_down cmp base xs j }
     else Some xs }"

fun insertion_from :: "('a \<Rightarrow> 'a \<Rightarrow> int) \<Rightarrow> nat \<Rightarrow> nat \<Rightarrow> nat \<Rightarrow> 'a list \<Rightarrow> 'a list option" where
  "insertion_from cmp base i 0 xs = Some xs"
| "insertion_from cmp base i (Suc k) xs = do {
     xs \<leftarrow> insert_down cmp base xs i; insertion_from cmp base (Suc i) k xs }"

definition insertion :: "('a \<Rightarrow> 'a \<Rightarrow> int) \<Rightarrow> nat \<Rightarrow> nat \<Rightarrow> 'a list \<Rightarrow> 'a list option" where
  "insertion cmp base n xs = insertion_from cmp base 1 (n - 1) xs"

partial_function (option) sift ::
    "('a \<Rightarrow> 'a \<Rightarrow> int) \<Rightarrow> nat \<Rightarrow> nat \<Rightarrow> nat \<Rightarrow> 'a list \<Rightarrow> 'a list option" where
  "sift cmp base root n xs =
     (let child = 2 * root + 1 in
      if child \<ge> n then Some xs
      else do {
        up \<leftarrow> (if child + 1 < n then do {
                c \<leftarrow> CMP cmp xs (base + child) (base + (child + 1)); Some (c < 0) }
              else Some False);
        let child = (if up then child + 1 else child);
        c \<leftarrow> CMP cmp xs (base + root) (base + child);
        if c \<ge> 0 then Some xs
        else do { xs \<leftarrow> swap xs (base + root) (base + child); sift cmp base child n xs } })"

declare sift.simps [code]

fun heap_build :: "('a \<Rightarrow> 'a \<Rightarrow> int) \<Rightarrow> nat \<Rightarrow> nat \<Rightarrow> nat \<Rightarrow> 'a list \<Rightarrow> 'a list option" where
  "heap_build cmp base n 0 xs = Some xs"
| "heap_build cmp base n (Suc i) xs = do { xs \<leftarrow> sift cmp base i n xs; heap_build cmp base n i xs }"

fun heap_drain :: "('a \<Rightarrow> 'a \<Rightarrow> int) \<Rightarrow> nat \<Rightarrow> nat \<Rightarrow> 'a list \<Rightarrow> 'a list option" where
  "heap_drain cmp base 0 xs = Some xs"
| "heap_drain cmp base (Suc end) xs =
     (if end = 0 then Some xs
      else do {
        xs \<leftarrow> swap xs base (base + end);
        xs \<leftarrow> sift cmp base 0 end xs;
        heap_drain cmp base end xs })"

definition heapsort :: "('a \<Rightarrow> 'a \<Rightarrow> int) \<Rightarrow> nat \<Rightarrow> nat \<Rightarrow> 'a list \<Rightarrow> 'a list option" where
  "heapsort cmp base n xs = do { xs \<leftarrow> heap_build cmp base n (n div 2) xs; heap_drain cmp base n xs }"

text \<open>
  The two scans of the partition: \<open>k\<close> elements lie above \<open>i + 1\<close>; \<open>j\<close> going below 0 wraps around and
  reads outside the array.
\<close>

fun scan_up :: "('a \<Rightarrow> 'a \<Rightarrow> int) \<Rightarrow> nat \<Rightarrow> 'a list \<Rightarrow> nat \<Rightarrow> nat \<Rightarrow> nat option" where
  "scan_up cmp base xs i 0 = Some (Suc i)"
| "scan_up cmp base xs i (Suc k) = do {
     c \<leftarrow> CMP cmp xs (base + Suc i) base;
     if c < 0 then scan_up cmp base xs (Suc i) k else Some (Suc i) }"

fun scan_down :: "('a \<Rightarrow> 'a \<Rightarrow> int) \<Rightarrow> nat \<Rightarrow> 'a list \<Rightarrow> nat \<Rightarrow> nat option" where
  "scan_down cmp base xs 0 = None"
| "scan_down cmp base xs (Suc j) = do {
     c \<leftarrow> CMP cmp xs (base + j) base;
     if c > 0 then scan_down cmp base xs j else Some j }"

partial_function (option) partition_loop ::
    "('a \<Rightarrow> 'a \<Rightarrow> int) \<Rightarrow> nat \<Rightarrow> nat \<Rightarrow> nat \<Rightarrow> nat \<Rightarrow> 'a list \<Rightarrow> ('a list \<times> nat) option" where
  "partition_loop cmp base n i j xs = do {
     i \<leftarrow> scan_up cmp base xs i (n - Suc i);
     j \<leftarrow> scan_down cmp base xs j;
     if i \<ge> j then Some (xs, j)
     else do { xs \<leftarrow> swap xs (base + i) (base + j); partition_loop cmp base n i j xs } }"

declare partition_loop.simps [code]

definition median3 :: "('a \<Rightarrow> 'a \<Rightarrow> int) \<Rightarrow> nat \<Rightarrow> nat \<Rightarrow> 'a list \<Rightarrow> 'a list option" where
  "median3 cmp base n xs = do {
     let lo = base; let mid = base + n div 2; let hi = base + (n - 1);
     c \<leftarrow> CMP cmp xs mid lo;
     xs \<leftarrow> (if c < 0 then swap xs mid lo else Some xs);
     c \<leftarrow> CMP cmp xs hi mid;
     xs \<leftarrow> (if c < 0 then do {
         xs \<leftarrow> swap xs hi mid;
         c \<leftarrow> CMP cmp xs mid lo;
         if c < 0 then swap xs mid lo else Some xs }
       else Some xs);
     swap xs base mid }"

fun introsort :: "('a \<Rightarrow> 'a \<Rightarrow> int) \<Rightarrow> nat \<Rightarrow> nat \<Rightarrow> nat \<Rightarrow> 'a list \<Rightarrow> 'a list option" where
  "introsort cmp base n 0 xs = (if n > 16 then heapsort cmp base n xs else insertion cmp base n xs)"
| "introsort cmp base n (Suc depth) xs =
     (if n > 16 then do {
        xs \<leftarrow> median3 cmp base n xs;
        (xs, j) \<leftarrow> partition_loop cmp base n 0 n xs;
        xs \<leftarrow> swap xs base (base + j);
        let left = j; let right = n - j - 1;
        if left < right then do {
          xs \<leftarrow> introsort cmp base left depth xs;
          introsort cmp (base + (j + 1)) right depth xs }
        else do {
          xs \<leftarrow> introsort cmp (base + (j + 1)) right depth xs;
          introsort cmp base left depth xs } }
      else insertion cmp base n xs)"

text \<open>\<open>64 - __builtin_clzl(n)\<close> is the number of bits of \<open>n\<close>.\<close>

fun bit_width :: "nat \<Rightarrow> nat" where
  "bit_width n = (if n = 0 then 0 else Suc (bit_width (n div 2)))"

declare bit_width.simps [simp del]

definition qsort_r :: "('a \<Rightarrow> 'a \<Rightarrow> 'b \<Rightarrow> int) \<Rightarrow> 'b \<Rightarrow> nat \<Rightarrow> 'a list \<Rightarrow> 'a list option" where
  "qsort_r cmp arg w xs =
     (let n = length xs in
      if n < 2 \<or> w = 0 then Some xs
      else introsort (\<lambda>a b. cmp a b arg) 0 n (2 * bit_width n) xs)"

definition call_plain :: "'a \<Rightarrow> 'a \<Rightarrow> ('a \<Rightarrow> 'a \<Rightarrow> int) \<Rightarrow> int" where
  "call_plain a b f = f a b"

definition qsort :: "('a \<Rightarrow> 'a \<Rightarrow> int) \<Rightarrow> nat \<Rightarrow> 'a list \<Rightarrow> 'a list option" where
  "qsort cmp w xs = qsort_r call_plain cmp w xs"

text \<open>The result of \<open>bsearch\<close> is the index of the element, or null.\<close>

partial_function (option) bsearch_loop ::
    "('k \<Rightarrow> 'a \<Rightarrow> int) \<Rightarrow> 'k \<Rightarrow> 'a list \<Rightarrow> nat \<Rightarrow> nat \<Rightarrow> nat option option" where
  "bsearch_loop cmp key xs b n =
     (if n = 0 then Some None
      else do {
        let mid = b + n div 2;
        e \<leftarrow> (if mid < length xs then Some (xs ! mid) else None);
        let r = cmp key e;
        if r = 0 then Some (Some mid)
        else if r > 0 then bsearch_loop cmp key xs (mid + 1) (n - (n div 2 + 1))
        else bsearch_loop cmp key xs b (n div 2) })"

declare bsearch_loop.simps [code]

definition bsearch :: "('k \<Rightarrow> 'a \<Rightarrow> int) \<Rightarrow> 'k \<Rightarrow> 'a list \<Rightarrow> nat option option" where
  "bsearch cmp key xs = bsearch_loop cmp key xs 0 (length xs)"

subsection \<open>Rearranging a part of the array\<close>

definition perm_on :: "nat \<Rightarrow> nat \<Rightarrow> 'a list \<Rightarrow> 'a list \<Rightarrow> bool" where
  "perm_on b n xs ys \<longleftrightarrow> length ys = length xs \<and> take b ys = take b xs \<and>
     drop (b + n) ys = drop (b + n) xs \<and> mset ys = mset xs"

lemma perm_on_refl [simp]: "perm_on b n xs xs"
  by (simp add: perm_on_def)

lemma perm_on_trans: "perm_on b n xs ys \<Longrightarrow> perm_on b n ys zs \<Longrightarrow> perm_on b n xs zs"
  by (simp add: perm_on_def)

lemma perm_on_length: "perm_on b n xs ys \<Longrightarrow> length ys = length xs"
  by (simp add: perm_on_def)

lemma perm_on_mset: "perm_on b n xs ys \<Longrightarrow> mset ys = mset xs"
  by (simp add: perm_on_def)

lemma perm_on_mono:
  assumes "perm_on b n xs ys" "b' \<le> b" "b + n \<le> b' + n'"
  shows "perm_on b' n' xs ys"
proof -
  have "take b ys = take b xs" "drop (b + n) ys = drop (b + n) xs"
    using assms(1) by (simp_all add: perm_on_def)
  then have "take b' ys = take b' xs" "drop (b' + n') ys = drop (b' + n') xs"
    using assms(2,3) by (metis min.absorb1 take_take, metis drop_drop le_add_diff_inverse2)
  with assms(1) show ?thesis by (simp add: perm_on_def)
qed

lemma perm_on_nth:
  assumes "perm_on b n xs ys" "i < b \<or> b + n \<le> i" "i < length xs"
  shows "ys ! i = xs ! i"
proof -
  have "take b ys = take b xs" "drop (b + n) ys = drop (b + n) xs" "length ys = length xs"
    using assms(1) by (simp_all add: perm_on_def)
  note eq = this
  show ?thesis
  proof (cases "i < b")
    case True
    then show ?thesis using arg_cong [OF eq(1), of "\<lambda>zs. zs ! i"] by simp
  next
    case False
    with assms have "b + n + (i - (b + n)) = i" by simp
    then show ?thesis
      using arg_cong [OF eq(2), of "\<lambda>zs. zs ! (i - (b + n))"] eq(3) assms(3) by simp
  qed
qed

lemma perm_on_all:
  assumes "perm_on b n xs ys" "b + n \<le> length xs" "\<forall>i. b \<le> i \<and> i < b + n \<longrightarrow> P (xs ! i)"
  shows "\<forall>i. b \<le> i \<and> i < b + n \<longrightarrow> P (ys ! i)"
proof -
  let ?m = "\<lambda>zs. take n (drop b zs)"
  have split: "zs = take b zs @ ?m zs @ drop (b + n) zs" for zs :: "'a list"
    by (metis append_take_drop_id drop_drop add.commute)
  have "mset (take b xs) + mset (?m xs) + mset (drop (b + n) xs) =
      mset (take b ys) + mset (?m ys) + mset (drop (b + n) ys)"
    using assms(1) split [of xs] split [of ys] by (metis perm_on_mset mset_append add.assoc)
  then have "mset (?m xs) = mset (?m ys)" using assms(1) by (simp add: perm_on_def)
  then have set: "set (?m ys) = set (?m xs)" by (metis set_mset_mset)
  have len: "b + n \<le> length ys" using assms(1,2) by (simp add: perm_on_def)
  have "P x" if "x \<in> set (?m xs)" for x
    using that assms(2,3) by (auto simp: in_set_conv_nth)
  moreover have "ys ! i \<in> set (?m ys)" if "b \<le> i" "i < b + n" for i
  proof -
    have "?m ys ! (i - b) = ys ! i" "i - b < length (?m ys)" using that len by auto
    then show ?thesis by (metis nth_mem)
  qed
  ultimately show ?thesis using set by blast
qed

lemma swap_nth: "swap xs i j = Some ys \<Longrightarrow>
    i < length xs \<and> j < length xs \<and> length ys = length xs \<and>
    ys ! k = (if k = j then xs ! i else if k = i then xs ! j else xs ! k)"
  by (auto simp: swap_def nth_list_update split: if_splits)

lemma swap_perm:
  assumes "b \<le> i" "i < b + n" "b \<le> j" "j < b + n" "b + n \<le> length xs"
  shows "\<exists>ys. swap xs i j = Some ys \<and> perm_on b n xs ys"
proof -
  have "swap xs i j = Some (xs[i := xs ! j, j := xs ! i])" using assms by (simp add: swap_def)
  moreover have "mset (xs[i := xs ! j, j := xs ! i]) = mset xs"
    using assms by (intro mset_swap) simp_all
  ultimately show ?thesis using assms by (auto simp: perm_on_def take_update_cancel drop_update_cancel)
qed

lemma CMP_some [simp]: "i < length xs \<Longrightarrow> j < length xs \<Longrightarrow> CMP cmp xs i j = Some (cmp (xs ! i) (xs ! j))"
  by (simp add: CMP_def)

subsection \<open>Every routine stays inside its part of the array\<close>

lemma insert_down_perm:
  "base + j < length xs \<Longrightarrow> \<exists>ys. insert_down cmp base xs j = Some ys \<and> perm_on base (Suc j) xs ys"
proof (induction j arbitrary: xs)
  case (Suc j)
  show ?case
  proof (cases "cmp (xs ! (base + j)) (xs ! (base + Suc j)) > 0")
    case True
    from swap_perm [of base "base + j" "Suc (Suc j)" "base + Suc j" xs] Suc.prems obtain ys where
      ys: "swap xs (base + j) (base + Suc j) = Some ys" "perm_on base (Suc (Suc j)) xs ys" by auto
    then have "base + j < length ys" using Suc.prems perm_on_length by force
    from Suc.IH [OF this] obtain zs where zs: "insert_down cmp base ys j = Some zs" "perm_on base (Suc j) ys zs" by blast
    have "perm_on base (Suc (Suc j)) ys zs" using zs(2) by (rule perm_on_mono) simp_all
    with ys zs(1) True Suc.prems show ?thesis by (auto intro: perm_on_trans)
  qed (use Suc.prems in auto)
qed simp

lemma insertion_from_perm:
  "base + i + k \<le> length xs \<Longrightarrow> \<exists>ys. insertion_from cmp base i k xs = Some ys \<and> perm_on base (i + k) xs ys"
proof (induction k arbitrary: i xs)
  case (Suc k)
  then have "base + i < length xs" by simp
  from insert_down_perm [OF this] obtain ys where
    ys: "insert_down cmp base xs i = Some ys" "perm_on base (Suc i) xs ys" by blast
  then have "base + Suc i + k \<le> length ys" using Suc.prems perm_on_length by force
  from Suc.IH [OF this] obtain zs where
    zs: "insertion_from cmp base (Suc i) k ys = Some zs" "perm_on base (Suc i + k) ys zs" by blast
  have "perm_on base (i + Suc k) xs ys" using ys(2) by (rule perm_on_mono) simp_all
  with ys zs show ?case by (auto intro: perm_on_trans)
qed simp

lemma insertion_perm:
  "base + n \<le> length xs \<Longrightarrow> \<exists>ys. insertion cmp base n xs = Some ys \<and> perm_on base n xs ys"
  using insertion_from_perm [of base 1 "n - 1" xs cmp]
  by (cases n) (auto simp: insertion_def)

lemma sift_perm:
  "base + n \<le> length xs \<Longrightarrow> \<exists>ys. sift cmp base root n xs = Some ys \<and> perm_on base n xs ys"
proof (induction "n - root" arbitrary: root xs rule: less_induct)
  case less
  show ?case
  proof (cases "2 * root + 1 \<ge> n")
    case True
    then show ?thesis by (subst sift.simps) simp
  next
    case False
    define up where "up = (2 * root + 1 + 1 < n \<and>
      cmp (xs ! (base + (2 * root + 1))) (xs ! (base + (2 * root + 1 + 1))) < 0)"
    define child where "child = (if up then 2 * root + 1 + 1 else 2 * root + 1)"
    have child: "child < n" "root < child" using False by (auto simp: child_def up_def)
    have eq: "sift cmp base root n xs = (if cmp (xs ! (base + root)) (xs ! (base + child)) \<ge> 0 then Some xs
        else do { xs \<leftarrow> swap xs (base + root) (base + child); sift cmp base child n xs })"
      using False less.prems child by (subst sift.simps) (auto simp: child_def up_def Let_def)
    from swap_perm [of base "base + root" n "base + child" xs] child less.prems obtain ys where
      ys: "swap xs (base + root) (base + child) = Some ys" "perm_on base n xs ys" by auto
    have "n - child < n - root" "base + n \<le> length ys" using child ys(2) less.prems perm_on_length by force+
    from less.hyps [OF this] obtain zs where "sift cmp base child n ys = Some zs" "perm_on base n ys zs" by blast
    with eq ys show ?thesis by (auto intro: perm_on_trans)
  qed
qed

lemma heap_build_perm:
  "base + n \<le> length xs \<Longrightarrow> \<exists>ys. heap_build cmp base n i xs = Some ys \<and> perm_on base n xs ys"
proof (induction i arbitrary: xs)
  case (Suc i)
  from sift_perm [OF Suc.prems] obtain ys where ys: "sift cmp base i n xs = Some ys" "perm_on base n xs ys" by blast
  then have "base + n \<le> length ys" using Suc.prems perm_on_length by force
  from Suc.IH [OF this] ys show ?case by (auto intro: perm_on_trans)
qed simp

lemma heap_drain_perm:
  "base + end \<le> length xs \<Longrightarrow> \<exists>ys. heap_drain cmp base end xs = Some ys \<and> perm_on base end xs ys"
proof (induction "end" arbitrary: xs)
  case (Suc k)
  show ?case
  proof (cases "k = 0")
    case False
    from swap_perm [of base base "Suc k" "base + k" xs] Suc.prems obtain ys where
      ys: "swap xs base (base + k) = Some ys" "perm_on base (Suc k) xs ys" by auto
    then have len: "base + k \<le> length ys" using Suc.prems perm_on_length by force
    from sift_perm [OF this] obtain zs where zs: "sift cmp base 0 k ys = Some zs" "perm_on base k ys zs" by blast
    then have "base + k \<le> length zs" using len perm_on_length by force
    from Suc.IH [OF this] obtain us where us: "heap_drain cmp base k zs = Some us" "perm_on base k zs us" by blast
    have "perm_on base (Suc k) ys us"
      using perm_on_trans [OF zs(2) us(2)] by (rule perm_on_mono) simp_all
    with False ys zs us show ?thesis by (auto intro: perm_on_trans)
  qed simp
qed simp

lemma heapsort_perm:
  assumes "base + n \<le> length xs"
  shows "\<exists>ys. heapsort cmp base n xs = Some ys \<and> perm_on base n xs ys"
proof -
  from heap_build_perm [OF assms] obtain ys where ys: "heap_build cmp base n (n div 2) xs = Some ys" "perm_on base n xs ys" by blast
  then have "base + n \<le> length ys" using assms perm_on_length by force
  from heap_drain_perm [OF this] ys show ?thesis by (auto simp: heapsort_def intro: perm_on_trans)
qed

lemma scan_up_range:
  "base + Suc i + k \<le> length xs \<Longrightarrow> \<exists>i'. scan_up cmp base xs i k = Some i' \<and> i < i' \<and> i' \<le> Suc i + k \<and>
     (\<forall>p. i < p \<and> p < i' \<longrightarrow> cmp (xs ! (base + p)) (xs ! base) < 0) \<and>
     (i' < Suc i + k \<longrightarrow> 0 \<le> cmp (xs ! (base + i')) (xs ! base))"
proof (induction k arbitrary: i)
  case (Suc k)
  show ?case
  proof (cases "cmp (xs ! (base + Suc i)) (xs ! base) < 0")
    case True
    from Suc.prems Suc.IH [of "Suc i"] obtain i' where i': "scan_up cmp base xs (Suc i) k = Some i'"
      "Suc i < i'" "i' \<le> Suc (Suc i) + k"
      "\<forall>p. Suc i < p \<and> p < i' \<longrightarrow> cmp (xs ! (base + p)) (xs ! base) < 0"
      "i' < Suc (Suc i) + k \<longrightarrow> 0 \<le> cmp (xs ! (base + i')) (xs ! base)" by auto
    have "cmp (xs ! (base + p)) (xs ! base) < 0" if "i < p" "p < i'" for p
      using that True i'(4) by (cases "p = Suc i") auto
    with True Suc.prems i' show ?thesis by auto
  qed (use Suc.prems in auto)
qed auto

lemma scan_down_range:
  assumes "cmp (xs ! base) (xs ! base) \<le> 0"
  shows "0 < j \<Longrightarrow> base + j \<le> length xs \<Longrightarrow> \<exists>j'. scan_down cmp base xs j = Some j' \<and> j' < j \<and>
     (\<forall>p. j' < p \<and> p < j \<longrightarrow> 0 < cmp (xs ! (base + p)) (xs ! base)) \<and>
     cmp (xs ! (base + j')) (xs ! base) \<le> 0"
proof (induction j)
  case (Suc j)
  show ?case
  proof (cases "cmp (xs ! (base + j)) (xs ! base) > 0")
    case True
    then have "0 < j" using assms by (cases j) auto
    with Suc obtain j' where j': "scan_down cmp base xs j = Some j'" "j' < j"
      "\<forall>p. j' < p \<and> p < j \<longrightarrow> 0 < cmp (xs ! (base + p)) (xs ! base)"
      "cmp (xs ! (base + j')) (xs ! base) \<le> 0" by auto
    have "0 < cmp (xs ! (base + p)) (xs ! base)" if "j' < p" "p < Suc j" for p
      using that True j'(3) by (cases "p = j") auto
    with True Suc.prems j' show ?thesis by auto
  qed (use Suc.prems in auto)
qed simp

text \<open>
  The partition: below \<open>i\<close> nothing is above the pivot, from \<open>j\<close> on nothing below it.
\<close>

definition parted :: "('a \<Rightarrow> 'a \<Rightarrow> int) \<Rightarrow> nat \<Rightarrow> nat \<Rightarrow> 'a list \<Rightarrow> nat \<Rightarrow> nat \<Rightarrow> bool" where
  "parted cmp base n xs i j \<longleftrightarrow>
     (\<forall>p. 0 < p \<and> p \<le> i \<longrightarrow> cmp (xs ! (base + p)) (xs ! base) \<le> 0) \<and>
     (\<forall>p. j \<le> p \<and> p < n \<longrightarrow> 0 \<le> cmp (xs ! (base + p)) (xs ! base))"

lemma partition_perm:
  assumes refl: "\<forall>x. cmp x x \<le> 0"
  shows "i < j \<Longrightarrow> j \<le> n \<Longrightarrow> base + n \<le> length xs \<Longrightarrow> parted cmp base n xs i j \<Longrightarrow>
    \<exists>ys j'. partition_loop cmp base n i j xs = Some (ys, j') \<and> j' < n \<and> perm_on base n xs ys \<and>
      ys ! base = xs ! base \<and> (\<forall>p. 0 < p \<and> p \<le> j' \<longrightarrow> cmp (ys ! (base + p)) (ys ! base) \<le> 0) \<and>
      (\<forall>p. j' < p \<and> p < n \<longrightarrow> 0 \<le> cmp (ys ! (base + p)) (ys ! base))"
proof (induction j arbitrary: i xs rule: less_induct)
  case (less j)
  from less.prems have "base + Suc i + (n - Suc i) \<le> length xs" by simp
  from scan_up_range [OF this, of cmp] less.prems obtain i' where
    i': "scan_up cmp base xs i (n - Suc i) = Some i'" "i < i'" "i' \<le> n"
    "\<forall>p. i < p \<and> p < i' \<longrightarrow> cmp (xs ! (base + p)) (xs ! base) < 0"
    "i' < n \<longrightarrow> 0 \<le> cmp (xs ! (base + i')) (xs ! base)" by auto
  have "0 < j" "base + j \<le> length xs" using less.prems by auto
  from scan_down_range [where cmp = cmp and xs = xs and base = base, OF spec [OF refl] this] obtain j' where
    j': "scan_down cmp base xs j = Some j'" "j' < j"
    "\<forall>p. j' < p \<and> p < j \<longrightarrow> 0 < cmp (xs ! (base + p)) (xs ! base)"
    "cmp (xs ! (base + j')) (xs ! base) \<le> 0" by blast
  have low: "cmp (xs ! (base + p)) (xs ! base) \<le> 0" if "0 < p" "p < i'" for p
    using that i'(4) less.prems(4) by (cases "p \<le> i") (auto simp: parted_def intro: less_imp_le)
  have high: "0 \<le> cmp (xs ! (base + p)) (xs ! base)" if "j' < p" "p < n" for p
    using that j'(3) less.prems(4) by (cases "j \<le> p") (auto simp: parted_def intro: less_imp_le)
  show ?case
  proof (cases "i' \<ge> j'")
    case True
    then have "partition_loop cmp base n i j xs = Some (xs, j')"
      using i'(1) j'(1) by (subst partition_loop.simps) simp
    moreover have "cmp (xs ! (base + p)) (xs ! base) \<le> 0" if "0 < p" "p \<le> j'" for p
      using that low [of p] True j'(4) by (cases "p = j'") auto
    ultimately show ?thesis using high j'(2) less.prems(2) by auto
  next
    case False
    then have ij: "i' < j'" "j' < n" using j'(2) less.prems(2) by auto
    from swap_perm [of base "base + i'" n "base + j'" xs] ij less.prems(3) obtain ys where
      ys: "swap xs (base + i') (base + j') = Some ys" "perm_on base n xs ys" by auto
    have nth: "ys ! (base + p) = (if p = j' then xs ! (base + i') else if p = i' then xs ! (base + j') else xs ! (base + p))" for p
      using swap_nth [OF ys(1), of "base + p"] by simp
    have piv: "ys ! base = xs ! base" using nth [of 0] ij i'(2) by simp
    have pt: "parted cmp base n ys i' j'"
      unfolding parted_def piv nth using low high ij j'(4) i'(2,5) by auto
    have "base + n \<le> length ys" using ys(2) less.prems(3) perm_on_length by force
    from less.IH [OF j'(2) ij(1) less_imp_le [OF ij(2)] this pt] obtain zs k where zs: "partition_loop cmp base n i' j' ys = Some (zs, k)" "k < n" "perm_on base n ys zs"
      "zs ! base = ys ! base" "\<forall>p. 0 < p \<and> p \<le> k \<longrightarrow> cmp (zs ! (base + p)) (zs ! base) \<le> 0"
      "\<forall>p. k < p \<and> p < n \<longrightarrow> 0 \<le> cmp (zs ! (base + p)) (zs ! base)"
      by blast
    have "partition_loop cmp base n i j xs = Some (zs, k)"
      using False i'(1) j'(1) ys(1) zs(1) by (subst partition_loop.simps) simp
    with zs piv perm_on_trans [OF ys(2) zs(3)] show ?thesis by auto
  qed
qed

lemma swap_if_perm:
  assumes "perm_on base n xs zs" "i < n" "j < n" "base + n \<le> length xs"
  shows "\<exists>ys. (if c then swap zs (base + i) (base + j) else Some zs) = Some ys \<and> perm_on base n xs ys"
  using swap_perm [of base "base + i" n "base + j" zs] assms perm_on_length [OF assms(1)]
  by (auto intro: perm_on_trans)

lemma median3_perm:
  assumes "0 < n" "base + n \<le> length xs"
  shows "\<exists>ys. median3 cmp base n xs = Some ys \<and> perm_on base n xs ys"
proof -
  let ?mid = "base + n div 2" and ?hi = "base + (n - 1)"
  have r: "n div 2 < n" "n - 1 < n" "0 < n" using assms(1) by auto
  have in_range: "?mid < length zs" "?hi < length zs" "base < length zs" if "perm_on base n xs zs" for zs
    using perm_on_length [OF that] assms r by auto
  define b1 where "b1 = (cmp (xs ! ?mid) (xs ! base) < 0)"
  obtain x1 where x1: "(if b1 then swap xs ?mid base else Some xs) = Some x1" "perm_on base n xs x1"
    using swap_if_perm [OF perm_on_refl r(1,3) assms(2), of b1, unfolded add_0_right] by blast
  define b2 where "b2 = (cmp (x1 ! ?hi) (x1 ! ?mid) < 0)"
  obtain x2 where x2: "(if b2 then swap x1 ?hi ?mid else Some x1) = Some x2" "perm_on base n xs x2"
    using swap_if_perm [OF x1(2) r(2,1) assms(2), of b2] by blast
  define b3 where "b3 = (b2 \<and> cmp (x2 ! ?mid) (x2 ! base) < 0)"
  obtain x3 where x3: "(if b3 then swap x2 ?mid base else Some x2) = Some x3" "perm_on base n xs x3"
    using swap_if_perm [OF x2(2) r(1,3) assms(2), of b3, unfolded add_0_right] by blast
  obtain x4 where x4: "swap x3 base ?mid = Some x4" "perm_on base n xs x4"
    using swap_if_perm [OF x3(2) r(3,1) assms(2), of True, unfolded add_0_right if_True] by blast
  have "median3 cmp base n xs = Some x4"
    using x1(1) x2(1) x3(1) x4(1) in_range [OF perm_on_refl] in_range [OF x1(2)] in_range [OF x2(2)]
    by (auto simp: median3_def b1_def b2_def b3_def split: if_splits)
  with x4(2) show ?thesis by blast
qed

lemma introsort_perm:
  assumes refl: "\<forall>x. cmp x x \<le> 0"
  shows "base + n \<le> length xs \<Longrightarrow> \<exists>ys. introsort cmp base n depth xs = Some ys \<and> perm_on base n xs ys"
proof (induction depth arbitrary: base n xs)
  case 0
  then show ?case using heapsort_perm insertion_perm by (cases "n > 16") auto
next
  case (Suc depth)
  show ?case
  proof (cases "n > 16")
    case False
    then show ?thesis using insertion_perm [OF Suc.prems] by simp
  next
    case True
    then have "0 < n" by simp
    from median3_perm [OF this Suc.prems] obtain x1 where x1: "median3 cmp base n xs = Some x1" "perm_on base n xs x1" by blast
    have len1: "base + n \<le> length x1" using perm_on_length [OF x1(2)] Suc.prems by simp
    have "parted cmp base n x1 0 n" by (simp add: parted_def)
    from partition_perm [OF refl \<open>0 < n\<close> order_refl len1 this] obtain x2 j where
      x2: "partition_loop cmp base n 0 n x1 = Some (x2, j)" "j < n" "perm_on base n x1 x2" by blast
    have p2: "perm_on base n xs x2" using x1(2) x2(3) by (rule perm_on_trans)
    have len2: "base + n \<le> length x2" using perm_on_length [OF p2] Suc.prems by simp
    from swap_perm [of base base n "base + j" x2] len2 x2(2) obtain x3 where
      x3: "swap x2 base (base + j) = Some x3" "perm_on base n x2 x3" by auto
    have p3: "perm_on base n xs x3" using p2 x3(2) by (rule perm_on_trans)
    have len3: "base + n \<le> length x3" using perm_on_length [OF p3] Suc.prems by simp
    have rec: "\<exists>ys. introsort cmp b k depth zs = Some ys \<and> perm_on base n xs ys"
      if "perm_on base n xs zs" "base \<le> b" "b + k \<le> base + n" for b k zs
    proof -
      have "b + k \<le> length zs" using perm_on_length [OF that(1)] that(3) Suc.prems by simp
      from Suc.IH [OF this] obtain ys where "introsort cmp b k depth zs = Some ys" "perm_on b k zs ys" by blast
      with that perm_on_mono [of b k zs ys base n] show ?thesis by (auto intro: perm_on_trans)
    qed
    have left: "base \<le> base" "base + j \<le> base + n" and right: "base \<le> base + (j + 1)" "base + (j + 1) + (n - j - 1) \<le> base + n"
      using x2(2) by auto
    show ?thesis
    proof (cases "j < n - j - 1")
      case True
      from rec [OF p3 left] obtain x4 where x4: "introsort cmp base j depth x3 = Some x4" "perm_on base n xs x4" by blast
      from rec [OF x4(2) right] obtain x5 where "introsort cmp (base + (j + 1)) (n - j - 1) depth x4 = Some x5" "perm_on base n xs x5" by blast
      with \<open>n > 16\<close> x1(1) x2(1) x3(1) x4(1) True show ?thesis by simp
    next
      case False
      from rec [OF p3 right] obtain x4 where x4: "introsort cmp (base + (j + 1)) (n - j - 1) depth x3 = Some x4" "perm_on base n xs x4" by blast
      from rec [OF x4(2) left] obtain x5 where "introsort cmp base j depth x4 = Some x5" "perm_on base n xs x5" by blast
      with \<open>n > 16\<close> x1(1) x2(1) x3(1) x4(1) False show ?thesis by simp
    qed
  qed
qed

subsection \<open>Sorted parts\<close>

definition sorted_seg :: "('a \<Rightarrow> 'a \<Rightarrow> int) \<Rightarrow> 'a list \<Rightarrow> nat \<Rightarrow> nat \<Rightarrow> bool" where
  "sorted_seg cmp xs b n \<longleftrightarrow> (\<forall>p q. p < q \<and> q < n \<longrightarrow> cmp (xs ! (b + p)) (xs ! (b + q)) \<le> 0)"

definition parent :: "nat \<Rightarrow> nat" where
  "parent c = (c - 1) div 2"

definition heap :: "('a \<Rightarrow> 'a \<Rightarrow> int) \<Rightarrow> 'a list \<Rightarrow> nat \<Rightarrow> nat \<Rightarrow> nat \<Rightarrow> bool" where
  "heap cmp xs b n lo \<longleftrightarrow>
     (\<forall>c. 0 < c \<and> c < n \<and> lo \<le> parent c \<longrightarrow> cmp (xs ! (b + c)) (xs ! (b + parent c)) \<le> 0)"

text \<open>A heap but for the children of \<open>r\<close>, which are still below the parent of \<open>r\<close>.\<close>

definition heap_but :: "('a \<Rightarrow> 'a \<Rightarrow> int) \<Rightarrow> 'a list \<Rightarrow> nat \<Rightarrow> nat \<Rightarrow> nat \<Rightarrow> nat \<Rightarrow> bool" where
  "heap_but cmp xs b n lo r \<longleftrightarrow>
     (\<forall>c. 0 < c \<and> c < n \<and> lo \<le> parent c \<and> parent c \<noteq> r \<longrightarrow> cmp (xs ! (b + c)) (xs ! (b + parent c)) \<le> 0) \<and>
     (\<forall>c. 0 < c \<and> c < n \<and> parent c = r \<and> 0 < r \<and> lo \<le> parent r \<longrightarrow> cmp (xs ! (b + c)) (xs ! (b + parent r)) \<le> 0)"

lemma parent_iff: "0 < c \<Longrightarrow> parent c = r \<longleftrightarrow> c = 2 * r + 1 \<or> c = 2 * r + 2"
  by (auto simp: parent_def)

lemma parent_less: "0 < c \<Longrightarrow> parent c < c"
  by (auto simp: parent_def)

text \<open>The two parts of a partitioned segment, around the pivot at \<open>j\<close>.\<close>

definition split_at :: "('a \<Rightarrow> 'a \<Rightarrow> int) \<Rightarrow> 'a list \<Rightarrow> nat \<Rightarrow> nat \<Rightarrow> nat \<Rightarrow> 'a \<Rightarrow> bool" where
  "split_at cmp xs b n j v \<longleftrightarrow> xs ! (b + j) = v \<and> (\<forall>p < j. cmp (xs ! (b + p)) v \<le> 0) \<and>
     (\<forall>p. j < p \<and> p < n \<longrightarrow> cmp v (xs ! (b + p)) \<le> 0)"

lemma seg_all: "(\<forall>i. b \<le> i \<and> i < b + n \<longrightarrow> P (xs ! i)) \<longleftrightarrow> (\<forall>p < n. P (xs ! (b + p)))"
  by (metis add_less_cancel_left le_add1 le_add_diff_inverse)

lemma perm_seg:
  "perm_on b n xs ys \<Longrightarrow> b + n \<le> length xs \<Longrightarrow> \<forall>p < n. P (xs ! (b + p)) \<Longrightarrow> p < n \<Longrightarrow> P (ys ! (b + p))"
  using perm_on_all [of b n xs ys P] unfolding seg_all by blast

lemma split_at_left:
  assumes "split_at cmp xs b n j v" "perm_on b j xs ys" "j < n" "b + n \<le> length xs"
  shows "split_at cmp ys b n j v"
proof -
  have "cmp (ys ! (b + p)) v \<le> 0" if "p < j" for p
    by (rule perm_seg [OF assms(2)]) (use assms that in \<open>auto simp: split_at_def\<close>)
  moreover have "ys ! (b + p) = xs ! (b + p)" if "j \<le> p" "p < n" for p
    using assms that by (intro perm_on_nth [OF assms(2)]) auto
  ultimately show ?thesis using assms by (simp add: split_at_def)
qed

lemma split_at_right:
  assumes "split_at cmp xs b n j v" "perm_on (b + (j + 1)) (n - j - 1) xs ys" "j < n" "b + n \<le> length xs"
  shows "split_at cmp ys b n j v"
proof -
  have above: "\<forall>q < n - j - 1. cmp v (xs ! (b + (j + 1) + q)) \<le> 0"
  proof (intro allI impI)
    fix q
    assume "q < n - j - 1"
    then have "cmp v (xs ! (b + (j + 1 + q))) \<le> 0"
      using assms(1) by (intro split_at_def [THEN iffD1, THEN conjunct2, THEN conjunct2, rule_format]) auto
    then show "cmp v (xs ! (b + (j + 1) + q)) \<le> 0" by (simp only: add.assoc)
  qed
  have "cmp v (ys ! (b + p)) \<le> 0" if "j < p" "p < n" for p
  proof -
    have "cmp v (ys ! (b + (j + 1) + (p - j - 1))) \<le> 0"
      by (rule perm_seg [OF assms(2) _ above]) (use assms that in auto)
    then show ?thesis using that by simp
  qed
  moreover have "ys ! (b + p) = xs ! (b + p)" if "p \<le> j" for p
    using assms that by (intro perm_on_nth [OF assms(2)]) auto
  ultimately show ?thesis using assms by (simp add: split_at_def)
qed

lemma sorted_seg_outside:
  assumes "sorted_seg cmp xs b n" "perm_on b' n' xs ys" "b + n \<le> b' \<or> b' + n' \<le> b" "b + n \<le> length xs"
  shows "sorted_seg cmp ys b n"
proof -
  have "ys ! (b + p) = xs ! (b + p)" if "p < n" for p
    using assms that by (intro perm_on_nth [OF assms(2)]) auto
  then show ?thesis using assms(1) by (simp add: sorted_seg_def)
qed

context comparator
begin

lemma insert_down_sorted:
  "base + i < length xs \<Longrightarrow> j \<le> i \<Longrightarrow>
    \<forall>p q. p < q \<and> q \<le> i \<and> q \<noteq> j \<longrightarrow> cmp (xs ! (base + p)) (xs ! (base + q)) \<le> 0 \<Longrightarrow>
    insert_down cmp base xs j = Some ys \<Longrightarrow> sorted_seg cmp ys base (Suc i)"
proof (induction j arbitrary: xs)
  case 0
  then show ?case by (auto simp: sorted_seg_def)
next
  case (Suc j)
  let ?le = "\<lambda>zs p q. cmp (zs ! (base + p)) (zs ! (base + q)) \<le> 0"
  have r: "base + j < length xs" "base + Suc j < length xs" using Suc.prems by auto
  show ?case
  proof (cases "cmp (xs ! (base + j)) (xs ! (base + Suc j)) > 0")
    case True
    obtain zs where zs: "swap xs (base + j) (base + Suc j) = Some zs" using r by (simp add: swap_def)
    have nth: "zs ! (base + p) = (if p = Suc j then xs ! (base + j) else if p = j then xs ! (base + Suc j) else xs ! (base + p))" for p
      using swap_nth [OF zs, of "base + p"] by simp
    have "?le zs p q" if pq: "p < q" "q \<le> i" "q \<noteq> j" for p q
    proof (cases "q = Suc j")
      case True
      then show ?thesis
        using pq Suc.prems(3) \<open>cmp (xs ! (base + j)) (xs ! (base + Suc j)) > 0\<close> cmp_flip [of "xs ! (base + j)"]
        by (cases "p = j") (auto simp: nth simp del: add_Suc_right intro: less_imp_le)
    next
      case False
      then show ?thesis using pq Suc.prems(3) by (auto simp: nth simp del: add_Suc_right)
    qed
    moreover have "length zs = length xs" using swap_nth [OF zs] by simp
    moreover have "insert_down cmp base zs j = Some ys" using Suc.prems(4) True zs r by simp
    ultimately show ?thesis using Suc.IH [of zs] Suc.prems(1,2) by simp
  next
    case False
    then have ys: "ys = xs" using Suc.prems(4) r by simp
    have "?le xs p q" if pq: "p < q" "q \<le> i" for p q
    proof (cases "q = Suc j")
      case True
      have "?le xs j (Suc j)" using False by simp
      then show ?thesis
        using True pq Suc.prems(2,3) cmp_trans [of "xs ! (base + p)" "xs ! (base + j)" "xs ! (base + Suc j)"]
        by (cases "p = j") auto
    qed (use pq Suc.prems(3) in auto)
    then show ?thesis by (simp add: ys sorted_seg_def)
  qed
qed

lemma insertion_from_sorted:
  "base + i + k \<le> length xs \<Longrightarrow> sorted_seg cmp xs base i \<Longrightarrow> insertion_from cmp base i k xs = Some ys \<Longrightarrow>
     sorted_seg cmp ys base (i + k)"
proof (induction k arbitrary: i xs)
  case (Suc k)
  then have i: "base + i < length xs" by simp
  from insert_down_perm [OF i, of cmp] obtain zs where
    zs: "insert_down cmp base xs i = Some zs" "perm_on base (Suc i) xs zs" by blast
  have "sorted_seg cmp zs base (Suc i)"
    by (rule insert_down_sorted [OF i order_refl _ zs(1)]) (use Suc.prems(2) in \<open>auto simp: sorted_seg_def\<close>)
  with Suc.IH [of "Suc i" zs] Suc.prems zs perm_on_length [OF zs(2)] show ?case by simp
qed simp

lemma insertion_sorted:
  "base + n \<le> length xs \<Longrightarrow> insertion cmp base n xs = Some ys \<Longrightarrow> sorted_seg cmp ys base n"
  using insertion_from_sorted [of base 1 "n - 1" xs ys]
  by (cases n) (auto simp: insertion_def sorted_seg_def)

lemma sift_heap:
  "base + n \<le> length xs \<Longrightarrow> lo \<le> root \<Longrightarrow> heap_but cmp xs base n lo root \<Longrightarrow>
     sift cmp base root n xs = Some ys \<Longrightarrow> heap cmp ys base n lo"
proof (induction "n - root" arbitrary: root xs rule: less_induct)
  case less
  note but = less.prems(3) [unfolded heap_but_def]
  show ?case
  proof (cases "2 * root + 1 \<ge> n")
    case True
    then have "ys = xs" using less.prems(4) by (subst (asm) sift.simps) simp
    moreover have "parent c \<noteq> root" if "0 < c" "c < n" for c
      using that True parent_iff [of c root] by auto
    ultimately show ?thesis using but by (simp add: heap_def)
  next
    case False
    define up where "up = (2 * root + 1 + 1 < n \<and>
      cmp (xs ! (base + (2 * root + 1))) (xs ! (base + (2 * root + 1 + 1))) < 0)"
    define child where "child = (if up then 2 * root + 1 + 1 else 2 * root + 1)"
    have child: "child < n" "root < child" "parent child = root" "0 < child"
      using False by (auto simp: child_def up_def parent_def)
    have best: "cmp (xs ! (base + c)) (xs ! (base + child)) \<le> 0" if c: "0 < c" "c < n" "parent c = root" for c
    proof -
      consider "c = 2 * root + 1" | "c = 2 * root + 1 + 1" using c parent_iff [of c root] by auto
      then show ?thesis
      proof cases
        case 1
        then show ?thesis by (auto simp: child_def up_def)
      next
        case 2
        with c(2) show ?thesis
          using cmp_flip [of "xs ! (base + (2 * root + 1 + 1))" "xs ! (base + (2 * root + 1))"]
          by (auto simp: child_def up_def)
      qed
    qed
    have eq: "sift cmp base root n xs = (if cmp (xs ! (base + root)) (xs ! (base + child)) \<ge> 0 then Some xs
        else do { xs \<leftarrow> swap xs (base + root) (base + child); sift cmp base child n xs })"
      using False less.prems(1) child by (subst sift.simps) (auto simp: child_def up_def Let_def)
    show ?thesis
    proof (cases "cmp (xs ! (base + root)) (xs ! (base + child)) \<ge> 0")
      case True
      then have ys: "ys = xs" using eq less.prems(4) by simp
      have "cmp (xs ! (base + c)) (xs ! (base + root)) \<le> 0" if "0 < c" "c < n" "parent c = root" for c
        using cmp_trans [OF best [OF that]] True cmp_nonpos by blast
      with but show ?thesis unfolding ys heap_def by metis
    next
      case False
      obtain zs where zs: "swap xs (base + root) (base + child) = Some zs"
        using less.prems(1) child by (simp add: swap_def)
      have nth: "zs ! (base + p) = (if p = child then xs ! (base + root) else if p = root then xs ! (base + child) else xs ! (base + p))" for p
        using swap_nth [OF zs, of "base + p"] by simp
      have "heap_but cmp zs base n lo child"
        unfolding heap_but_def
      proof (intro conjI allI impI)
        fix c
        assume c: "0 < c \<and> c < n \<and> lo \<le> parent c \<and> parent c \<noteq> child"
        show "cmp (zs ! (base + c)) (zs ! (base + parent c)) \<le> 0"
        proof (cases "parent c = root")
          case True
          then show ?thesis using c best [of c] False child by (auto simp: nth)
        next
          case ne: False
          then have "c \<noteq> child" using child by auto
          show ?thesis
          proof (cases "c = root")
            case True
            then show ?thesis using c but child ne by (auto simp: nth)
          next
            case False
            then show ?thesis using c but ne \<open>c \<noteq> child\<close> by (auto simp: nth)
          qed
        qed
      next
        fix c
        assume c: "0 < c \<and> c < n \<and> parent c = child \<and> 0 < child \<and> lo \<le> parent child"
        then have "c \<noteq> child" "c \<noteq> root" using parent_less [of c] child by auto
        moreover have "cmp (xs ! (base + c)) (xs ! (base + parent c)) \<le> 0"
          using but c child less.prems(2) by auto
        ultimately show "cmp (zs ! (base + c)) (zs ! (base + parent child)) \<le> 0"
          using c child by (auto simp: nth)
      qed
      moreover have "length zs = length xs" using swap_nth [OF zs] by simp
      moreover have "sift cmp base child n zs = Some ys" using eq zs False less.prems(4) by simp
      ultimately show ?thesis using less.hyps [of child zs] child less.prems(1,2) by simp
    qed
  qed
qed

lemma heap_build_heap:
  "base + n \<le> length xs \<Longrightarrow> heap cmp xs base n i \<Longrightarrow> heap_build cmp base n i xs = Some ys \<Longrightarrow> heap cmp ys base n 0"
proof (induction i arbitrary: xs)
  case (Suc i)
  from sift_perm [OF Suc.prems(1), of cmp i] obtain zs where
    zs: "sift cmp base i n xs = Some zs" "perm_on base n xs zs" by blast
  have "heap_but cmp xs base n i i"
    using Suc.prems(2) parent_less [of i] by (auto simp: heap_but_def heap_def)
  then have "heap cmp zs base n i" by (rule sift_heap [OF Suc.prems(1) order_refl _ zs(1)])
  with Suc.IH [of zs] Suc.prems zs perm_on_length [OF zs(2)] show ?case by simp
qed simp

lemma heap_top: "heap cmp xs base n 0 \<Longrightarrow> c < n \<Longrightarrow> cmp (xs ! (base + c)) (xs ! base) \<le> 0"
proof (induction c rule: less_induct)
  case (less c)
  show ?case
  proof (cases "c = 0")
    case False
    then have "cmp (xs ! (base + c)) (xs ! (base + parent c)) \<le> 0" using less.prems by (simp add: heap_def)
    moreover have "cmp (xs ! (base + parent c)) (xs ! base) \<le> 0"
      using less.IH [of "parent c"] less.prems parent_less [of c] False by simp
    ultimately show ?thesis by (rule cmp_trans)
  qed simp
qed

lemma heap_drain_sorted:
  "base + N \<le> length xs \<Longrightarrow> k \<le> N \<Longrightarrow> heap cmp xs base k 0 \<Longrightarrow>
    \<forall>p q. p < q \<and> q < N \<and> k \<le> q \<longrightarrow> cmp (xs ! (base + p)) (xs ! (base + q)) \<le> 0 \<Longrightarrow>
    heap_drain cmp base k xs = Some ys \<Longrightarrow> sorted_seg cmp ys base N"
proof (induction k arbitrary: xs)
  case (Suc k)
  show ?case
  proof (cases "k = 0")
    case True
    with Suc.prems show ?thesis by (auto simp: sorted_seg_def)
  next
    case False
    have len: "base + Suc k \<le> length xs" using Suc.prems(1,2) by simp
    from swap_perm [of base base "Suc k" "base + k" xs] len obtain zs where
      zs: "swap xs base (base + k) = Some zs" "perm_on base (Suc k) xs zs" by auto
    have nth: "zs ! (base + p) = (if p = k then xs ! base else if p = 0 then xs ! (base + k) else xs ! (base + p))" for p
      using swap_nth [OF zs(1), of "base + p"] by simp
    have lz: "base + k \<le> length zs" "length zs = length xs" using perm_on_length [OF zs(2)] len by auto
    from sift_perm [OF lz(1), of cmp 0] obtain us where
      us: "sift cmp base 0 k zs = Some us" "perm_on base k zs us" by blast
    have "heap_but cmp zs base k 0 0"
      unfolding heap_but_def
    proof (intro conjI allI impI)
      fix c
      assume c: "0 < c \<and> c < k \<and> 0 \<le> parent c \<and> parent c \<noteq> 0"
      then have "cmp (xs ! (base + c)) (xs ! (base + parent c)) \<le> 0"
        using Suc.prems(3) by (simp add: heap_def)
      moreover have "parent c < k" using c parent_less [of c] by simp
      ultimately show "cmp (zs ! (base + c)) (zs ! (base + parent c)) \<le> 0" using c by (simp add: nth)
    qed simp
    then have "heap cmp us base k 0" by (rule sift_heap [OF lz(1) order_refl _ us(1)])
    moreover have "cmp (us ! (base + p)) (us ! (base + q)) \<le> 0" if pq: "p < q" "q < N" "k \<le> q" for p q
    proof -
      have out: "us ! (base + r) = zs ! (base + r)" if "k \<le> r" "r < N" for r
        using that Suc.prems(1) lz(2) by (intro perm_on_nth [OF us(2)]) auto
      have x: "cmp (xs ! (base + r)) (zs ! (base + q)) \<le> 0" if "r \<le> k" "r < q \<or> q = k" for r
        using that pq heap_top [OF Suc.prems(3), of r] Suc.prems(4) by (auto simp: nth)
      have z: "cmp (zs ! (base + r)) (zs ! (base + q)) \<le> 0" if "r < k \<or> r = k \<and> k < q" for r
        using that pq False x [of 0] x [of r] x [of k] by (auto simp: nth)
      show ?thesis
      proof (cases "p < k")
        case True
        have "cmp (us ! (base + p)) (zs ! (base + q)) \<le> 0"
          by (rule perm_seg [OF us(2) lz(1) _ True]) (use z in auto)
        with out pq show ?thesis by simp
      next
        case False
        then have "cmp (zs ! (base + p)) (zs ! (base + q)) \<le> 0"
          using pq Suc.prems(4) z [of p] by (cases "p = k") (auto simp: nth)
        with out pq False show ?thesis by simp
      qed
    qed
    moreover have "heap_drain cmp base k us = Some ys" using Suc.prems(5) False zs(1) us(1) by simp
    moreover have "base + N \<le> length us" using perm_on_length [OF us(2)] lz(2) Suc.prems(1) by simp
    ultimately show ?thesis using Suc.IH [of us] Suc.prems(2) by simp
  qed
qed (auto simp: sorted_seg_def)

lemma heapsort_sorted:
  assumes "base + n \<le> length xs" "heapsort cmp base n xs = Some ys"
  shows "sorted_seg cmp ys base n"
proof -
  from heap_build_perm [OF assms(1), of cmp "n div 2"] obtain zs where
    zs: "heap_build cmp base n (n div 2) xs = Some zs" "perm_on base n xs zs" by blast
  have "heap cmp xs base n (n div 2)" by (auto simp: heap_def parent_def)
  then have "heap cmp zs base n 0" by (rule heap_build_heap [OF assms(1) _ zs(1)])
  moreover have "heap_drain cmp base n zs = Some ys" using assms(2) zs(1) by (simp add: heapsort_def)
  moreover have "base + n \<le> length zs" using perm_on_length [OF zs(2)] assms(1) by simp
  ultimately show ?thesis by (intro heap_drain_sorted [of base n zs n]) auto
qed

lemma split_sorted:
  assumes "split_at cmp xs b n j v" "sorted_seg cmp xs b j" "sorted_seg cmp xs (b + (j + 1)) (n - j - 1)" "j < n"
  shows "sorted_seg cmp xs b n"
  unfolding sorted_seg_def
proof (intro allI impI)
  fix p q
  assume pq: "p < q \<and> q < n"
  have right: "cmp (xs ! (b + p)) (xs ! (b + q)) \<le> 0" if "j < p"
  proof -
    have "cmp (xs ! (b + (j + 1) + (p - (j + 1)))) (xs ! (b + (j + 1) + (q - (j + 1)))) \<le> 0"
      using assms(3) pq that unfolding sorted_seg_def by (intro assms(3) [unfolded sorted_seg_def, rule_format]) auto
    then show ?thesis using that pq by simp
  qed
  consider "q < j" | "q = j" | "j < q" "p < j" | "j < q" "p = j" | "j < p" by linarith
  then show "cmp (xs ! (b + p)) (xs ! (b + q)) \<le> 0"
    using assms(1,2) pq right cmp_trans [of "xs ! (b + p)" v "xs ! (b + q)"]
    by cases (auto simp: split_at_def sorted_seg_def)
qed

lemma introsort_sorted:
  "base + n \<le> length xs \<Longrightarrow> introsort cmp base n depth xs = Some ys \<Longrightarrow> sorted_seg cmp ys base n"
proof (induction depth arbitrary: base n xs ys)
  case 0
  then show ?case using heapsort_sorted insertion_sorted by (cases "n > 16") auto
next
  case (Suc depth)
  have refl: "\<forall>x. cmp x x \<le> 0" by simp
  note perm = introsort_perm [where cmp = cmp, OF refl]
  show ?case
  proof (cases "n > 16")
    case False
    then show ?thesis using insertion_sorted Suc.prems by simp
  next
    case True
    then have "0 < n" by simp
    from median3_perm [OF this Suc.prems(1)] obtain x1 where x1: "median3 cmp base n xs = Some x1" "perm_on base n xs x1" by blast
    have len1: "base + n \<le> length x1" using perm_on_length [OF x1(2)] Suc.prems by simp
    have "parted cmp base n x1 0 n" by (simp add: parted_def)
    from partition_perm [where cmp = cmp, OF refl \<open>0 < n\<close> order_refl len1 this] obtain x2 j where
      x2: "partition_loop cmp base n 0 n x1 = Some (x2, j)" "j < n" "perm_on base n x1 x2"
      "\<forall>p. 0 < p \<and> p \<le> j \<longrightarrow> cmp (x2 ! (base + p)) (x2 ! base) \<le> 0"
      "\<forall>p. j < p \<and> p < n \<longrightarrow> 0 \<le> cmp (x2 ! (base + p)) (x2 ! base)" by blast
    have len2: "base + n \<le> length x2" using perm_on_length [OF x2(3)] len1 by simp
    from swap_perm [of base base n "base + j" x2] len2 x2(2) obtain x3 where
      x3: "swap x2 base (base + j) = Some x3" "perm_on base n x2 x3" by auto
    have nth: "x3 ! (base + p) = (if p = j then x2 ! base else if p = 0 then x2 ! (base + j) else x2 ! (base + p))" for p
      using swap_nth [OF x3(1), of "base + p"] by simp
    have len3: "base + n \<le> length x3" using perm_on_length [OF x3(2)] len2 by simp
    have sp: "split_at cmp x3 base n j (x2 ! base)"
      using x2(4,5) cmp_nonpos by (auto simp: split_at_def nth)
    have L: "base + j \<le> length x3" and R: "base + (j + 1) + (n - j - 1) \<le> length x3" using len3 x2(2) by auto
    show ?thesis
    proof (cases "j < n - j - 1")
      case True
      from perm [OF L, of depth] obtain x4 where
        x4: "introsort cmp base j depth x3 = Some x4" "perm_on base j x3 x4" by blast
      have R4: "base + (j + 1) + (n - j - 1) \<le> length x4" using R perm_on_length [OF x4(2)] by simp
      from perm [OF R4, of depth] obtain x5 where
        x5: "introsort cmp (base + (j + 1)) (n - j - 1) depth x4 = Some x5" "perm_on (base + (j + 1)) (n - j - 1) x4 x5" by blast
      have ys: "ys = x5" using Suc.prems(2) \<open>n > 16\<close> x1(1) x2(1) x3(1) x4(1) x5(1) True by simp
      have l4: "base + n \<le> length x4" using len3 perm_on_length [OF x4(2)] by simp
      have "split_at cmp x4 base n j (x2 ! base)" by (rule split_at_left [OF sp x4(2) x2(2) len3])
      then have "split_at cmp x5 base n j (x2 ! base)" by (rule split_at_right [OF _ x5(2) x2(2) l4])
      moreover have "sorted_seg cmp x5 base j"
        by (rule sorted_seg_outside [OF Suc.IH [OF L x4(1)] x5(2)]) (use l4 x2(2) in auto)
      moreover have "sorted_seg cmp x5 (base + (j + 1)) (n - j - 1)" by (rule Suc.IH [OF R4 x5(1)])
      ultimately show ?thesis unfolding ys using x2(2) by (rule split_sorted)
    next
      case False
      from perm [OF R, of depth] obtain x4 where
        x4: "introsort cmp (base + (j + 1)) (n - j - 1) depth x3 = Some x4" "perm_on (base + (j + 1)) (n - j - 1) x3 x4" by blast
      have L4: "base + j \<le> length x4" using L perm_on_length [OF x4(2)] by simp
      from perm [OF L4, of depth] obtain x5 where
        x5: "introsort cmp base j depth x4 = Some x5" "perm_on base j x4 x5" by blast
      have ys: "ys = x5" using Suc.prems(2) \<open>n > 16\<close> x1(1) x2(1) x3(1) x4(1) x5(1) False by simp
      have l4: "base + n \<le> length x4" using len3 perm_on_length [OF x4(2)] by simp
      have "split_at cmp x4 base n j (x2 ! base)" by (rule split_at_right [OF sp x4(2) x2(2) len3])
      then have "split_at cmp x5 base n j (x2 ! base)" by (rule split_at_left [OF _ x5(2) x2(2) l4])
      moreover have "sorted_seg cmp x5 base j" by (rule Suc.IH [OF L4 x5(1)])
      moreover have "sorted_seg cmp x5 (base + (j + 1)) (n - j - 1)"
        by (rule sorted_seg_outside [OF Suc.IH [OF R x4(1)] x5(2)]) (use l4 x2(2) in auto)
      ultimately show ?thesis unfolding ys using x2(2) by (rule split_sorted)
    qed
  qed
qed

end

subsection \<open>Binary search\<close>

text \<open>What \<open>bsearch\<close> relies on: the sign of the comparison with the key falls along the array.\<close>

definition falls :: "('k \<Rightarrow> 'a \<Rightarrow> int) \<Rightarrow> 'k \<Rightarrow> 'a list \<Rightarrow> bool" where
  "falls cmp key xs \<longleftrightarrow> (\<forall>i j. i < j \<and> j < length xs \<longrightarrow>
     (cmp key (xs ! j) > 0 \<longrightarrow> cmp key (xs ! i) > 0) \<and> (cmp key (xs ! i) < 0 \<longrightarrow> cmp key (xs ! j) < 0))"

lemma bsearch_loop_ok:
  "b + n \<le> length xs \<Longrightarrow> falls cmp key xs \<Longrightarrow> \<forall>i < b. 0 < cmp key (xs ! i) \<Longrightarrow>
     \<forall>i. b + n \<le> i \<and> i < length xs \<longrightarrow> cmp key (xs ! i) < 0 \<Longrightarrow>
     \<exists>r. bsearch_loop cmp key xs b n = Some r \<and>
       (case r of Some i \<Rightarrow> i < length xs \<and> cmp key (xs ! i) = 0 | None \<Rightarrow> \<forall>x \<in> set xs. cmp key x \<noteq> 0)"
proof (induction n arbitrary: b rule: less_induct)
  case (less n)
  show ?case
  proof (cases "n = 0")
    case True
    have "cmp key (xs ! i) \<noteq> 0" if "i < length xs" for i
      using that less.prems(3) [rule_format, of i] less.prems(4) [rule_format, of i] True by (cases "i < b") auto
    then have "\<forall>x \<in> set xs. cmp key x \<noteq> 0" by (auto simp: in_set_conv_nth)
    with True show ?thesis by (subst bsearch_loop.simps) simp
  next
    case False
    let ?m = "b + n div 2"
    have half: "n div 2 < n" using False by simp
    then have m: "?m < length xs" using less.prems(1) by linarith
    have fall: "(0 < cmp key (xs ! ?m) \<longrightarrow> (\<forall>i \<le> ?m. 0 < cmp key (xs ! i))) \<and>
      (cmp key (xs ! ?m) < 0 \<longrightarrow> (\<forall>i. ?m \<le> i \<and> i < length xs \<longrightarrow> cmp key (xs ! i) < 0))"
      using less.prems(2) m unfolding falls_def by (metis le_neq_implies_less)
    consider "cmp key (xs ! ?m) = 0" | "cmp key (xs ! ?m) > 0" | "cmp key (xs ! ?m) < 0" by linarith
    then show ?thesis
    proof cases
      case 1
      with False m show ?thesis by (subst bsearch_loop.simps) simp
    next
      case 2
      have "\<exists>r. bsearch_loop cmp key xs (?m + 1) (n - (n div 2 + 1)) = Some r \<and>
        (case r of Some i \<Rightarrow> i < length xs \<and> cmp key (xs ! i) = 0 | None \<Rightarrow> \<forall>x \<in> set xs. cmp key x \<noteq> 0)"
        using less.prems half m fall 2 by (intro less.IH) auto
      with 2 False m show ?thesis by (subst bsearch_loop.simps) simp
    next
      case 3
      have "\<exists>r. bsearch_loop cmp key xs b (n div 2) = Some r \<and>
        (case r of Some i \<Rightarrow> i < length xs \<and> cmp key (xs ! i) = 0 | None \<Rightarrow> \<forall>x \<in> set xs. cmp key x \<noteq> 0)"
        using less.prems half m fall 3 by (intro less.IH) auto
      with 3 False m show ?thesis by (subst bsearch_loop.simps) simp
    qed
  qed
qed

subsection \<open>Properties\<close>

lemma sorted_seg_all: "sorted_seg cmp xs 0 (length xs) \<Longrightarrow> sorted_by cmp xs"
  by (simp add: sorted_seg_def sorted_by_def sorted_wrt_iff_nth_less)

text \<open>
  C10. \<open>qsort\<close> with a consistent comparison returns the array sorted: every element is at most the
  ones behind it, and the result is a rearrangement of the input, whatever the length, the depth
  at which the quicksort gives way to the heap sort, and the duplicates.
\<close>

theorem qsort_correct:
  assumes "comparator cmp" "0 < w"
  shows "\<exists>ys. qsort cmp w xs = Some ys \<and> mset ys = mset xs \<and> sorted_by cmp ys"
proof (cases "length xs < 2")
  case True
  then have "sorted_by cmp xs" by (cases xs) (auto simp: sorted_by_def)
  with True show ?thesis by (simp add: qsort_def qsort_r_def)
next
  case False
  have refl: "\<forall>x. cmp x x \<le> 0" using comparator.cmp_refl [OF assms(1)] by simp
  let ?d = "2 * bit_width (length xs)"
  from introsort_perm [where cmp = cmp and base = 0 and n = "length xs" and xs = xs and depth = ?d, OF refl]
  obtain ys where ys: "introsort cmp 0 (length xs) ?d xs = Some ys" "perm_on 0 (length xs) xs ys" by auto
  have "sorted_seg cmp ys 0 (length ys)"
    using comparator.introsort_sorted [OF assms(1) _ ys(1)] perm_on_length [OF ys(2)] by simp
  moreover have "qsort cmp w xs = Some ys"
    using False assms(2) ys(1) by (simp add: qsort_def qsort_r_def call_plain_def)
  ultimately show ?thesis using perm_on_mset [OF ys(2)] sorted_seg_all by blast
qed

theorem qsort_correct_witness:
  "\<exists>ys. qsort (\<lambda>x y. x - y) 4 [3, 1, 2, 1 :: int] = Some ys \<and> mset ys = mset [3, 1, 2, 1] \<and>
     sorted_by (\<lambda>x y. x - y) ys"
  using qsort_correct [OF int_comparator, of 4 "[3, 1, 2, 1]"] by simp

text \<open>
  C11. \<open>qsort\<close> stays inside the array and ends for every comparison function that does not place an
  element above itself, however inconsistent it is otherwise; the result is then still a
  rearrangement of the input.
\<close>

theorem qsort_safe:
  assumes "\<forall>x. cmp x x \<le> 0"
  shows "\<exists>ys. qsort cmp w xs = Some ys \<and> mset ys = mset xs"
proof -
  have "\<exists>ys. introsort cmp 0 (length xs) (2 * bit_width (length xs)) xs = Some ys \<and> perm_on 0 (length xs) xs ys"
    using introsort_perm [where cmp = cmp, OF assms, of 0 "length xs" xs] by simp
  then show ?thesis by (auto simp: qsort_def qsort_r_def call_plain_def Let_def perm_on_def)
qed

theorem qsort_safe_witness:
  "\<exists>ys. qsort (\<lambda>x y :: int. if x = y then 0 else 1) 4 [1, 2, 3] = Some ys \<and> mset ys = mset [1, 2, 3]"
  by (rule qsort_safe) simp

text \<open>
  C12. \<open>bsearch\<close> on an array ordered for the key ends, and returns an element that compares equal
  to it, or null exactly when there is none.
\<close>

theorem bsearch_correct:
  assumes "falls cmp key xs"
  shows "\<exists>r. bsearch cmp key xs = Some r \<and>
    (case r of Some i \<Rightarrow> i < length xs \<and> cmp key (xs ! i) = 0 | None \<Rightarrow> \<forall>x \<in> set xs. cmp key x \<noteq> 0)"
  unfolding bsearch_def using assms by (intro bsearch_loop_ok) auto

theorem bsearch_correct_witness:
  "\<exists>i. bsearch (\<lambda>k x. k - x) 5 [1, 3, 5, 8 :: int] = Some (Some i) \<and> [1, 3, 5, 8] ! i = (5 :: int)"
proof -
  have "falls (\<lambda>k x. k - x) 5 [1, 3, 5, 8 :: int]"
    by (auto simp: falls_def nth_Cons split: nat.splits)
  from bsearch_correct [OF this] obtain r where
    r: "bsearch (\<lambda>k x. k - x) 5 [1, 3, 5, 8 :: int] = Some r"
    "case r of Some i \<Rightarrow> i < length [1, 3, 5, 8 :: int] \<and> 5 - [1, 3, 5, 8] ! i = (0 :: int)
     | None \<Rightarrow> \<forall>x \<in> set [1, 3, 5, 8 :: int]. 5 - x \<noteq> 0" by blast
  then show ?thesis by (cases r) auto
qed

end
