(* ===== verification/Multibyte.thy ===== *)
theory Multibyte
  imports Ctype
begin

text \<open>
  \<^verbatim>\<open>src/multibyte.c\<close>: UTF-8 decoding and encoding.  The conversion state is the pair of words of
  \<open>mbstate_t\<close>, given and returned.  A source buffer is a list of bytes; reading past its end is a
  fault (\<open>None\<close>).  The \<open>size_t\<close> results with a special meaning are constructors of their own.
\<close>

subsection \<open>The decoder\<close>

record mbstate =
  st :: u32
  nn :: u32

definition mbinit :: mbstate where
  "mbinit = \<lparr> st = 0, nn = 0 \<rparr>"

text \<open>A count, \<open>(size_t)-1\<close>, \<open>(size_t)-2\<close> and (in \<^verbatim>\<open>uchar.c\<close>) \<open>(size_t)-3\<close>.\<close>

datatype mbret = MB nat | ILSEQ | INCOMPLETE | PENDING

text \<open>What a call returns: the count, the wide character stored if any, the state, errno if set.\<close>

type_synonym mbresult = "mbret \<times> u32 option \<times> mbstate \<times> errno option"

definition buf_at :: "u8 list \<Rightarrow> nat \<Rightarrow> u8 option" where
  "buf_at s i = (if i < length s then Some (s ! i) else None)"

definition second_ok :: "u32 \<Rightarrow> u32 \<Rightarrow> bool" where
  "second_ok lead b =
     (if lead = 0xe0 then b \<ge> 0xa0 \<and> b \<le> 0xbf
      else if lead = 0xed then b \<ge> 0x80 \<and> b \<le> 0x9f
      else if lead = 0xf0 then b \<ge> 0x90 \<and> b \<le> 0xbf
      else if lead = 0xf4 then b \<ge> 0x80 \<and> b \<le> 0x8f
      else b \<ge> 0x80 \<and> b \<le> 0xbf)"

definition ilseq :: mbresult where
  "ilseq = (ILSEQ, None, mbinit, Some EILSEQ)"

text \<open>The loop over the continuation bytes still needed.\<close>

fun mb_cont :: "u8 list \<Rightarrow> nat \<Rightarrow> nat \<Rightarrow> u32 \<Rightarrow> nat \<Rightarrow> u32 \<Rightarrow> mbresult option" where
  "mb_cont s n i c 0 lead = Some (MB i, Some c, mbinit, None)"
| "mb_cont s n i c (Suc need) lead =
     (if i = n then
        Some (INCOMPLETE, None, \<lparr> st = c, nn = of_nat (Suc need) OR push_bit 8 lead \<rparr>, None)
      else do {
        b \<leftarrow> buf_at s i;
        let b = (ucast b :: u32);
        if (if lead \<noteq> 0 then \<not> second_ok lead b else b AND 0xc0 \<noteq> 0x80) then Some ilseq
        else mb_cont s n (Suc i) (push_bit 6 c OR (b AND 0x3f)) need 0 })"

text \<open>\<open>src\<close> is \<open>None\<close> for a null pointer.\<close>

definition mbrtowc :: "u8 list option \<Rightarrow> nat \<Rightarrow> mbstate \<Rightarrow> mbresult option" where
  "mbrtowc src n ps = (case src of
     None \<Rightarrow> Some (if nn ps \<noteq> 0 then ilseq else (MB 0, None, mbinit, None))
   | Some s \<Rightarrow>
       if n = 0 then Some (INCOMPLETE, None, ps, None)
       else if unat (nn ps AND 7) = 0 then do {
         b \<leftarrow> buf_at s 0;
         let b = (ucast b :: u32);
         if b < 0x80 then Some (MB (if b \<noteq> 0 then 1 else 0), Some b, ps, None)
         else if b \<ge> 0xc2 \<and> b \<le> 0xdf then mb_cont s n 1 (b AND 0x1f) 1 b
         else if b \<ge> 0xe0 \<and> b \<le> 0xef then mb_cont s n 1 (b AND 0x0f) 2 b
         else if b \<ge> 0xf0 \<and> b \<le> 0xf4 then mb_cont s n 1 (b AND 0x07) 3 b
         else Some ilseq }
       else mb_cont s n 0 (st ps) (unat (nn ps AND 7)) (drop_bit 8 (nn ps)))"

definition mbrlen :: "u8 list option \<Rightarrow> nat \<Rightarrow> mbstate \<Rightarrow> mbresult option" where
  "mbrlen s n ps = mbrtowc s n ps"

definition mbsinit :: "mbstate option \<Rightarrow> bool" where
  "mbsinit ps = (case ps of None \<Rightarrow> True | Some p \<Rightarrow> nn p = 0)"

subsection \<open>The encoder\<close>

text \<open>\<open>given\<close>: whether a destination was given; without one the character is NUL.\<close>

definition wcrtomb :: "bool \<Rightarrow> u32 \<Rightarrow> errno + u8 list" where
  "wcrtomb given wc =
     (let c = (if given then wc else 0) in
      if c < 0x80 then Inr [ucast c]
      else if c < 0x800 then
        Inr [ucast (0xc0 OR drop_bit 6 c), ucast (0x80 OR (c AND 0x3f))]
      else if c < 0x10000 then
        (if c - 0xd800 < 0x800 then Inl EILSEQ
         else Inr [ucast (0xe0 OR drop_bit 12 c), ucast (0x80 OR (drop_bit 6 c AND 0x3f)),
                   ucast (0x80 OR (c AND 0x3f))])
      else if c < 0x110000 then
        Inr [ucast (0xf0 OR drop_bit 18 c), ucast (0x80 OR (drop_bit 12 c AND 0x3f)),
             ucast (0x80 OR (drop_bit 6 c AND 0x3f)), ucast (0x80 OR (c AND 0x3f))]
      else Inl EILSEQ)"

subsection \<open>The functions without a state\<close>

text \<open>The result is the int returned, the wide character stored, and errno.\<close>

definition mbtowc :: "u8 list option \<Rightarrow> nat \<Rightarrow> (int \<times> u32 option \<times> errno option) option" where
  "mbtowc s n = (case s of
     None \<Rightarrow> Some (0, None, None)
   | Some s \<Rightarrow> do {
       (r, wc, _, e) \<leftarrow> mbrtowc (Some s) n mbinit;
       Some (case r of MB k \<Rightarrow> (int k, wc, e) | INCOMPLETE \<Rightarrow> (- 1, wc, Some EILSEQ) | _ \<Rightarrow> (- 1, wc, e)) })"

definition mblen :: "u8 list option \<Rightarrow> nat \<Rightarrow> (int \<times> errno option) option" where
  "mblen s n = map_option (\<lambda>(r, _, e). (r, e)) (mbtowc s n)"

definition wctomb :: "bool \<Rightarrow> u32 \<Rightarrow> int \<times> u8 list" where
  "wctomb given wc =
     (if \<not> given then (0, []) else case wcrtomb True wc of Inl _ \<Rightarrow> (- 1, []) | Inr bs \<Rightarrow> (int (length bs), bs))"

definition WEOF :: u32 where
  "WEOF = 0xffffffff"

definition btowc :: "int \<Rightarrow> u32" where
  "btowc c = (if c \<ge> 0 \<and> c < 0x80 then word_of_int c else WEOF)"

definition wctob :: "u32 \<Rightarrow> int" where
  "wctob c = (if c < 0x80 then sint c else - 1)"

subsection \<open>Strings\<close>

text \<open>
  \<open>src\<close> is the string before its NUL, \<open>p\<close> the position in it; \<open>dst\<close> says whether a destination was
  given, \<open>out\<close> is what has been stored there.  The result is the count or \<open>ILSEQ\<close>, the wide
  characters stored, the new value of the source pointer (\<open>None\<close> for null), the state and errno.
\<close>

partial_function (option) mbsrtowcs_loop ::
    "bool \<Rightarrow> u8 list \<Rightarrow> nat \<Rightarrow> nat \<Rightarrow> nat \<Rightarrow> u32 list \<Rightarrow> mbstate \<Rightarrow>
     (mbret \<times> u32 list \<times> nat option \<times> mbstate \<times> errno option) option" where
  "mbsrtowcs_loop dst src n p cnt out ps =
     (if \<not> dst \<or> cnt < n then do {
        (r, wc, ps, e) \<leftarrow> mbrtowc (Some (drop p (src @ [0]))) 4 ps;
        case r of
          MB k \<Rightarrow> do {
            c \<leftarrow> wc;
            let out = (if dst then out @ [c] else out);
            if c = 0 then Some (MB cnt, out, if dst then None else Some 0, ps, None)
            else mbsrtowcs_loop dst src n (p + k) (Suc cnt) out ps }
        | _ \<Rightarrow> Some (ILSEQ, out, Some (if dst then p else 0), ps, Some EILSEQ) }
      else Some (MB cnt, out, Some p, ps, None))"

declare mbsrtowcs_loop.simps [code]

definition mbsrtowcs ::
    "bool \<Rightarrow> u8 list \<Rightarrow> nat \<Rightarrow> mbstate \<Rightarrow> (mbret \<times> u32 list \<times> nat option \<times> mbstate \<times> errno option) option" where
  "mbsrtowcs dst src n ps = mbsrtowcs_loop dst src n 0 0 [] ps"

text \<open>The same for the other direction; the source is the wide string before its NUL.\<close>

fun wcsrtombs_loop ::
    "bool \<Rightarrow> nat \<Rightarrow> u32 list \<Rightarrow> nat \<Rightarrow> u8 list \<Rightarrow> nat \<Rightarrow> mbret \<times> u8 list \<times> nat option \<times> errno option" where
  "wcsrtombs_loop dst n [] w out cnt =
     (if dst \<and> cnt + 1 > n then (MB cnt, out, Some w, None)
      else if dst then (MB cnt, out @ [0], None, None) else (MB cnt, out, Some 0, None))"
| "wcsrtombs_loop dst n (c # cs) w out cnt = (case wcrtomb True c of
     Inl e \<Rightarrow> (ILSEQ, out, Some (if dst then w else 0), Some e)
   | Inr bs \<Rightarrow>
       if dst \<and> cnt + length bs > n then (MB cnt, out, Some w, None)
       else wcsrtombs_loop dst n cs (Suc w) (if dst then out @ bs else out) (cnt + length bs))"

definition wcsrtombs :: "bool \<Rightarrow> u32 list \<Rightarrow> nat \<Rightarrow> mbret \<times> u8 list \<times> nat option \<times> errno option" where
  "wcsrtombs dst src n = wcsrtombs_loop dst n src 0 [] 0"

definition mbstowcs :: "bool \<Rightarrow> u8 list \<Rightarrow> nat \<Rightarrow> (mbret \<times> u32 list) option" where
  "mbstowcs dst s n = map_option (\<lambda>(r, out, _). (r, out)) (mbsrtowcs dst s n mbinit)"

definition wcstombs :: "bool \<Rightarrow> u32 list \<Rightarrow> nat \<Rightarrow> mbret \<times> u8 list" where
  "wcstombs dst ws n = (case wcsrtombs dst ws n of (r, out, _) \<Rightarrow> (r, out))"

subsection \<open>UTF-8 in numbers\<close>

definition scalar :: "nat \<Rightarrow> bool" where
  "scalar c \<longleftrightarrow> c < 0x110000 \<and> \<not> (0xd800 \<le> c \<and> c \<le> 0xdfff)"

definition utf8 :: "nat \<Rightarrow> nat list" where
  "utf8 c =
     (if c < 0x80 then [c]
      else if c < 0x800 then [0xc0 + c div 64, 0x80 + c mod 64]
      else if c < 0x10000 then [0xe0 + c div 4096, 0x80 + c div 64 mod 64, 0x80 + c mod 64]
      else [0xf0 + c div 262144, 0x80 + c div 4096 mod 64, 0x80 + c div 64 mod 64, 0x80 + c mod 64])"

lemma byte_lt: "unat (b :: u8) < 256"
  using unsigned_less [of b, where ?'a = nat] by simp

lemma unat_ucast_8_32 [simp]: "unat (ucast (b :: u8) :: u32) = unat b"
  using byte_lt [of b] by (simp add: unsigned_ucast_eq take_bit_nat_eq_self)

lemma or_lead:
  "unat (x :: u32) < 32 \<Longrightarrow> ucast (0xc0 OR x) = (of_nat (0xc0 + unat x) :: u8)"
  "unat (x :: u32) < 16 \<Longrightarrow> ucast (0xe0 OR x) = (of_nat (0xe0 + unat x) :: u8)"
  "unat (x :: u32) < 8 \<Longrightarrow> ucast (0xf0 OR x) = (of_nat (0xf0 + unat x) :: u8)"
  "unat (x :: u32) < 64 \<Longrightarrow> ucast (0x80 OR x) = (of_nat (0x80 + unat x) :: u8)"
proof -
  have "\<forall>i \<in> set [0..<32]. ucast (0xc0 OR of_nat i :: u32) = (of_nat (0xc0 + i) :: u8)"
    "\<forall>i \<in> set [0..<16]. ucast (0xe0 OR of_nat i :: u32) = (of_nat (0xe0 + i) :: u8)"
    "\<forall>i \<in> set [0..<8]. ucast (0xf0 OR of_nat i :: u32) = (of_nat (0xf0 + i) :: u8)"
    "\<forall>i \<in> set [0..<64]. ucast (0x80 OR of_nat i :: u32) = (of_nat (0x80 + i) :: u8)"
    by code_simp+
  moreover have "of_nat (unat x) = x" for x :: u32 by simp
  ultimately show
    "unat (x :: u32) < 32 \<Longrightarrow> ucast (0xc0 OR x) = (of_nat (0xc0 + unat x) :: u8)"
    "unat (x :: u32) < 16 \<Longrightarrow> ucast (0xe0 OR x) = (of_nat (0xe0 + unat x) :: u8)"
    "unat (x :: u32) < 8 \<Longrightarrow> ucast (0xf0 OR x) = (of_nat (0xf0 + unat x) :: u8)"
    "unat (x :: u32) < 64 \<Longrightarrow> ucast (0x80 OR x) = (of_nat (0x80 + unat x) :: u8)"
    by (metis atLeastLessThan_iff set_upt zero_le)+
qed

lemma unat_drop_bit_32: "unat (drop_bit k (x :: u32)) = unat x div 2 ^ k"
  using unsigned_less [of x, where ?'a = nat]
  by (simp add: unsigned_drop_bit_eq drop_bit_nat_def take_bit_nat_eq_self)

lemma and_mask_32:
  "unat ((x :: u32) AND 0x3f) = unat x mod 64" "unat ((x :: u32) AND 0x1f) = unat x mod 32"
  "unat ((x :: u32) AND 0x0f) = unat x mod 16" "unat ((x :: u32) AND 7) = unat x mod 8"
proof -
  have "(0x3f :: u32) = mask 6" "(0x1f :: u32) = mask 5" "(0x0f :: u32) = mask 4" "(7 :: u32) = mask 3"
    by (simp_all add: mask_eq_exp_minus_1)
  then show "unat (x AND 0x3f) = unat x mod 64" "unat (x AND 0x1f) = unat x mod 32"
    "unat (x AND 0x0f) = unat x mod 16" "unat (x AND 7) = unat x mod 8"
    by (simp_all only: take_bit_eq_mask [symmetric]) (simp_all add: unsigned_take_bit_eq take_bit_nat_def)
qed

lemma wcrtomb_utf8:
  assumes "scalar (unat c)"
  shows "wcrtomb True c = Inr (map of_nat (utf8 (unat c)))"
proof -
  have sur: "c - 0xd800 < 0x800 \<longleftrightarrow> 0xd800 \<le> unat c \<and> unat c \<le> 0xdfff"
    using unsigned_less [of c, where ?'a = nat]
    by (auto simp: word_less_nat_alt unat_sub_if' split: if_splits)
  have "ucast c = (of_nat (unat c) :: u8)" by simp
  then show ?thesis
    using assms sur
    by (auto simp: wcrtomb_def utf8_def scalar_def Let_def word_less_nat_alt or_lead unat_drop_bit_32
        and_mask_32 div_less_iff_less_mult)
qed

lemma wcrtomb_rejects: "\<not> scalar (unat c) \<Longrightarrow> wcrtomb True c = Inl EILSEQ"
  using unsigned_less [of c, where ?'a = nat]
  by (auto simp: wcrtomb_def scalar_def Let_def word_less_nat_alt unat_sub_if' split: if_splits)

lemma cont_byte: "(ucast (b :: u8) AND 0xc0 :: u32) \<noteq> 0x80 \<longleftrightarrow> \<not> (0x80 \<le> unat b \<and> unat b < 0xc0)"
proof -
  have "\<forall>i \<in> set [0..<256]. (ucast (of_nat i :: u8) AND 0xc0 :: u32) \<noteq> 0x80 \<longleftrightarrow> \<not> (0x80 \<le> i \<and> i < 0xc0)"
    by code_simp
  moreover have "unat b \<in> set [0..<256]" "of_nat (unat b) = b" using byte_lt by auto
  ultimately show ?thesis by metis
qed

lemma shift_in:
  assumes "unat (c :: u32) < 2 ^ 26"
  shows "unat (push_bit 6 c OR (ucast (b :: u8) AND 0x3f)) = unat c * 64 + unat b mod 64"
proof -
  have "(0x3f :: u32) = mask 6" by (simp add: mask_eq_exp_minus_1)
  then have t: "(ucast b :: u32) AND 0x3f = take_bit 6 (ucast b)" by (simp only: take_bit_eq_mask)
  have "push_bit 6 c OR take_bit 6 (ucast b :: u32) = push_bit 6 c + take_bit 6 (ucast b)"
    by (rule disjunctive_add_eq_or [symmetric]) (auto simp: bit_eq_iff bit_simps)
  moreover have "unat (push_bit 6 c) = unat c * 64"
    using assms by (simp add: push_bit_eq_mult unat_mult_lem [THEN iffD1])
  moreover have "unat (take_bit 6 (ucast b :: u32)) = unat b mod 64"
    by (simp add: unsigned_take_bit_eq take_bit_nat_def)
  ultimately show ?thesis unfolding t using assms by (simp add: unat_add_lem [THEN iffD1])
qed

subsection \<open>Steps of the decoder\<close>

definition second_lo :: "nat \<Rightarrow> nat" where
  "second_lo lead = (if lead = 0xe0 then 0xa0 else if lead = 0xf0 then 0x90 else 0x80)"

definition second_hi :: "nat \<Rightarrow> nat" where
  "second_hi lead = (if lead = 0xed then 0x9f else if lead = 0xf4 then 0x8f else 0xbf)"

lemma unat_eq_32: "x = y \<longleftrightarrow> unat x = unat (y :: u32)"
  by (metis unsigned_word_eqI)

lemma second_ok_iff:
  "second_ok lead (ucast (b :: u8)) \<longleftrightarrow> second_lo (unat lead) \<le> unat b \<and> unat b \<le> second_hi (unat lead)"
  by (auto simp: second_ok_def second_lo_def second_hi_def word_le_nat_alt unat_eq_32 [of lead])

lemma mb_step:
  assumes "i < n" "i < length s"
    and "if lead \<noteq> 0 then second_lo (unat lead) \<le> unat (s ! i) \<and> unat (s ! i) \<le> second_hi (unat lead)
         else 0x80 \<le> unat (s ! i) \<and> unat (s ! i) < 0xc0"
  shows "mb_cont s n i c (Suc need) lead =
    mb_cont s n (Suc i) (push_bit 6 c OR (ucast (s ! i) AND 0x3f)) need 0"
  using assms by (auto simp: buf_at_def Let_def cont_byte second_ok_iff)

lemma mb_cont_byte: "i < n \<Longrightarrow> i < length s \<Longrightarrow> 0x80 \<le> unat (s ! i) \<Longrightarrow> unat (s ! i) < 0xc0 \<Longrightarrow>
    mb_cont s n i c (Suc need) 0 = mb_cont s n (Suc i) (push_bit 6 c OR (ucast (s ! i) AND 0x3f)) need 0"
  by (rule mb_step) simp_all

lemma mb_bad:
  assumes "i < n" "i < length s"
    and "\<not> (if lead \<noteq> 0 then second_lo (unat lead) \<le> unat (s ! i) \<and> unat (s ! i) \<le> second_hi (unat lead)
         else 0x80 \<le> unat (s ! i) \<and> unat (s ! i) < 0xc0)"
  shows "mb_cont s n i c (Suc need) lead = Some ilseq"
  using assms by (auto simp: buf_at_def Let_def cont_byte second_ok_iff)

text \<open>The lead byte: how many bytes follow, and the bits it holds.\<close>

definition lead_need :: "nat \<Rightarrow> nat" where
  "lead_need b = (if 0xc2 \<le> b \<and> b \<le> 0xdf then 1 else if 0xe0 \<le> b \<and> b \<le> 0xef then 2
     else if 0xf0 \<le> b \<and> b \<le> 0xf4 then 3 else 0)"

definition lead_bits :: "u8 \<Rightarrow> u32" where
  "lead_bits b = (if lead_need (unat b) = 1 then ucast b AND 0x1f else if lead_need (unat b) = 2 then ucast b AND 0x0f
     else ucast b AND 0x07)"

lemma mbrtowc_first:
  assumes "s = b # r" "0 < n"
  shows "mbrtowc (Some s) n mbinit =
    (if unat b < 0x80 then Some (MB (if b \<noteq> 0 then 1 else 0), Some (ucast b), mbinit, None)
     else if lead_need (unat b) = 0 then Some ilseq
     else mb_cont s n 1 (lead_bits b) (lead_need (unat b)) (ucast b))"
proof -
  have "(ucast b :: u32) = 0 \<longleftrightarrow> b = 0" by (simp add: unat_eq_32) (metis unat_eq_zero)
  then show ?thesis using assms
    by (auto simp: mbrtowc_def mbinit_def buf_at_def Let_def lead_need_def lead_bits_def word_le_nat_alt word_less_nat_alt)
qed

text \<open>Decoding two, three and four bytes in numbers.\<close>

lemma unat_of_nat_8: "k < 256 \<Longrightarrow> unat (of_nat k :: u8) = k"
  by (simp add: unat_of_nat take_bit_nat_eq_self)

lemma mod_window: "k * m \<le> B \<Longrightarrow> B < k * m + m \<Longrightarrow> B mod m = B - k * (m :: nat)"
proof -
  assume "k * m \<le> B" "B < k * m + m"
  then have "B = (B - k * m) + k * m" "B - k * m < m" by simp_all
  then show ?thesis by (metis mod_less mod_mult_self1 mult.commute)
qed

lemmas cont_bits = mod_window [of 2 64, simplified]

lemma lead_bits_val:
  assumes "0 < lead_need (unat b)"
  shows "unat (lead_bits b) = unat b - (if lead_need (unat b) = 1 then 0xc0 else if lead_need (unat b) = 2 then 0xe0 else 0xf0)"
  using assms mod_window [of 6 32 "unat b"] mod_window [of 14 16 "unat b"] mod_window [of 30 8 "unat b"]
  by (simp add: lead_bits_def lead_need_def and_mask_32 split: if_splits)

text \<open>\<open>follow c bs\<close>: the value after the continuation bytes \<open>bs\<close>.\<close>

definition follow :: "nat \<Rightarrow> u8 list \<Rightarrow> nat" where
  "follow = foldl (\<lambda>c b. c * 64 + (unat b - 0x80))"

lemma mb_cont_follow:
  assumes "length bs = need" "unat c < 2 ^ (32 - 6 * need)" "need \<le> 3"
    "take need (drop i s) = bs" "i + need \<le> n" "\<forall>b \<in> set bs. 0x80 \<le> unat b \<and> unat b < 0xc0"
    "lead \<noteq> 0 \<and> bs \<noteq> [] \<longrightarrow> second_lo (unat lead) \<le> unat (hd bs) \<and> unat (hd bs) \<le> second_hi (unat lead)"
  shows "\<exists>c'. mb_cont s n i c need lead = Some (MB (i + need), Some c', mbinit, None) \<and>
    unat c' = follow (unat c) bs"
  using assms
proof (induction need arbitrary: bs i c lead)
  case 0
  then show ?case by (simp add: follow_def)
next
  case (Suc need)
  then obtain b bs' where bs: "bs = b # bs'" by (cases bs) auto
  have "Suc need \<le> length (drop i s)" using Suc.prems(1,4) by (metis length_take min.absorb_iff2 min.commute)
  then have i: "i < length s" by simp
  then have d: "drop i s = s ! i # drop (Suc i) s" by (simp add: Cons_nth_drop_Suc)
  have b: "s ! i = b" "take need (drop (Suc i) s) = bs'" using Suc.prems(4) d bs by auto
  let ?c = "push_bit 6 c OR (ucast b AND 0x3f)"
  have "32 - 6 * Suc need \<le> 26" by simp
  then have "(2 :: nat) ^ (32 - 6 * Suc need) \<le> 2 ^ 26" by (rule power_increasing) simp
  then have c26: "unat c < 2 ^ 26" using Suc.prems(2) by linarith
  have c: "unat ?c = unat c * 64 + (unat b - 0x80)"
    using shift_in [OF c26, of b] Suc.prems(6) bs cont_bits [of "unat b"] by simp
  have step: "mb_cont s n i c (Suc need) lead = mb_cont s n (Suc i) ?c need 0"
    unfolding b(1) [symmetric] by (rule mb_step) (use Suc.prems i bs b in auto)
  have small: "unat ?c < 2 ^ (32 - 6 * need)"
  proof -
    have "unat b - 0x80 < 64" using Suc.prems(6) bs by auto
    then have "unat ?c < (unat c + 1) * 64" using c by simp
    also have "\<dots> \<le> 2 ^ (32 - 6 * Suc need) * 64" using Suc.prems(2) by simp
    also have "\<dots> = 2 ^ (32 - 6 * Suc need + 6)" by (simp add: power_add)
    also have "32 - 6 * Suc need + 6 = 32 - 6 * need" using Suc.prems(3) by simp
    finally show ?thesis .
  qed
  from Suc.IH [of bs' ?c "Suc i" 0] Suc.prems bs b small obtain c' where
    "mb_cont s n (Suc i) ?c need 0 = Some (MB (Suc i + need), Some c', mbinit, None)" "unat c' = follow (unat ?c) bs'"
    by auto
  with step c show ?case by (simp add: bs follow_def)
qed

text \<open>The converse: a character is returned for such bytes only.\<close>

lemma mb_cont_sound:
  "mb_cont s n i c need lead = Some (MB k, w, ps, e) \<Longrightarrow> i \<le> n \<Longrightarrow>
     i + need \<le> n \<and> i + need \<le> length s + (if need = 0 then i else 0) \<and>
     (\<forall>b \<in> set (take need (drop i s)). 0x80 \<le> unat b \<and> unat b < 0xc0) \<and>
     (lead \<noteq> 0 \<and> 0 < need \<longrightarrow> second_lo (unat lead) \<le> unat (s ! i) \<and> unat (s ! i) \<le> second_hi (unat lead))"
proof (induction need arbitrary: i c lead)
  case (Suc need)
  have in_: "i \<noteq> n" using Suc.prems(1) by auto
  with Suc.prems have i: "i < n" "i < length s" by (auto simp: buf_at_def split: if_splits)
  have ok: "if lead \<noteq> 0 then second_lo (unat lead) \<le> unat (s ! i) \<and> unat (s ! i) \<le> second_hi (unat lead)
         else 0x80 \<le> unat (s ! i) \<and> unat (s ! i) < 0xc0"
  proof (rule ccontr)
    assume "\<not> ?thesis"
    from mb_bad [OF i this] Suc.prems(1) show False by (simp add: ilseq_def del: mb_cont.simps)
  qed
  from mb_step [OF i ok] Suc.prems(1)
  have rest: "mb_cont s n (Suc i) (push_bit 6 c OR (ucast (s ! i) AND 0x3f)) need 0 = Some (MB k, w, ps, e)" by simp
  have "second_lo (unat lead) \<ge> 0x80" "second_hi (unat lead) < 0xc0" by (simp_all add: second_lo_def second_hi_def)
  then have b: "0x80 \<le> unat (s ! i) \<and> unat (s ! i) < 0xc0" using ok by (auto split: if_splits)
  have "take (Suc need) (drop i s) = s ! i # take need (drop (Suc i) s)" using i by (simp add: Cons_nth_drop_Suc [symmetric])
  with Suc.IH [OF rest] i b ok show ?case by (cases need) (auto split: if_splits)
qed simp

text \<open>The digits of a character and its encoding.\<close>

lemma digit_64: "x < 64 \<Longrightarrow> (a * 64 + x) div 64 = a \<and> (a * 64 + x) mod 64 = (x :: nat)"
  by simp

lemma utf8_digits:
  "2 \<le> a \<Longrightarrow> a < 32 \<Longrightarrow> x < 64 \<Longrightarrow> utf8 (a * 64 + x) = [0xc0 + a, 0x80 + x]"
  "a < 16 \<Longrightarrow> x < 64 \<Longrightarrow> y < 64 \<Longrightarrow> a = 0 \<longrightarrow> 32 \<le> x \<Longrightarrow>
     utf8 ((a * 64 + x) * 64 + y) = [0xe0 + a, 0x80 + x, 0x80 + y]"
  "a < 5 \<Longrightarrow> x < 64 \<Longrightarrow> y < 64 \<Longrightarrow> z < 64 \<Longrightarrow> a = 0 \<longrightarrow> 16 \<le> x \<Longrightarrow>
     utf8 (((a * 64 + x) * 64 + y) * 64 + z) = [0xf0 + a, 0x80 + x, 0x80 + y, 0x80 + z]"
proof -
  show "utf8 (a * 64 + x) = [0xc0 + a, 0x80 + x]" if "2 \<le> a" "a < 32" "x < 64"
    using that by (simp add: utf8_def)
  show "utf8 ((a * 64 + x) * 64 + y) = [0xe0 + a, 0x80 + x, 0x80 + y]"
    if "a < 16" "x < 64" "y < 64" "a = 0 \<longrightarrow> 32 \<le> x"
  proof -
    let ?c = "(a * 64 + x) * 64 + y"
    have "?c div 4096 = ?c div 64 div 64" by (simp add: div_mult2_eq [symmetric])
    moreover have "?c div 64 = a * 64 + x \<and> ?c mod 64 = y" "(a * 64 + x) div 64 = a \<and> (a * 64 + x) mod 64 = x"
      using digit_64 that by blast+
    moreover have "\<not> ?c < 0x800" using that by (cases "a = 0"; simp)
    moreover have "?c < 0x10000" using that(1-3) by simp
    ultimately show ?thesis unfolding utf8_def by simp
  qed
  show "utf8 (((a * 64 + x) * 64 + y) * 64 + z) = [0xf0 + a, 0x80 + x, 0x80 + y, 0x80 + z]"
    if "a < 5" "x < 64" "y < 64" "z < 64" "a = 0 \<longrightarrow> 16 \<le> x"
  proof -
    let ?c = "((a * 64 + x) * 64 + y) * 64 + z"
    have "?c div 4096 = ?c div 64 div 64" "?c div 262144 = ?c div 64 div 64 div 64" by (simp_all add: div_mult2_eq [symmetric])
    moreover have "?c div 64 = (a * 64 + x) * 64 + y \<and> ?c mod 64 = z"
      "((a * 64 + x) * 64 + y) div 64 = a * 64 + x \<and> ((a * 64 + x) * 64 + y) mod 64 = y"
      "(a * 64 + x) div 64 = a \<and> (a * 64 + x) mod 64 = x"
      using digit_64 that by blast+
    moreover have "\<not> ?c < 0x10000" using that by (cases "a = 0"; simp)
    ultimately show ?thesis unfolding utf8_def by simp
  qed
qed

text \<open>A sequence of bytes is accepted when its lead byte and second byte are in range.\<close>

definition wf_seq :: "u8 list \<Rightarrow> bool" where
  "wf_seq bs = (case bs of [] \<Rightarrow> False | b # r \<Rightarrow>
     if unat b < 0x80 then r = []
     else 0 < lead_need (unat b) \<and> length r = lead_need (unat b) \<and> (\<forall>x \<in> set r. 0x80 \<le> unat x \<and> unat x < 0xc0) \<and>
       second_lo (unat b) \<le> unat (hd r) \<and> unat (hd r) \<le> second_hi (unat b))"

definition seq_val :: "u8 list \<Rightarrow> nat" where
  "seq_val bs = (if unat (hd bs) < 0x80 then unat (hd bs)
     else follow (unat (hd bs) - (if lead_need (unat (hd bs)) = 1 then 0xc0 else if lead_need (unat (hd bs)) = 2 then 0xe0 else 0xf0)) (tl bs))"

lemma wf_seq_cases:
  assumes "wf_seq bs"
  obtains b where "bs = [b]" "unat b < 0x80"
  | b x where "bs = [b, x]" "0xc2 \<le> unat b" "unat b \<le> 0xdf" "0x80 \<le> unat x" "unat x < 0xc0"
  | b x y where "bs = [b, x, y]" "0xe0 \<le> unat b" "unat b \<le> 0xef" "0x80 \<le> unat x" "unat x < 0xc0" "0x80 \<le> unat y" "unat y < 0xc0"
      "unat b = 0xe0 \<longrightarrow> 0xa0 \<le> unat x" "unat b = 0xed \<longrightarrow> unat x \<le> 0x9f"
  | b x y z where "bs = [b, x, y, z]" "0xf0 \<le> unat b" "unat b \<le> 0xf4" "0x80 \<le> unat x" "unat x < 0xc0"
      "0x80 \<le> unat y" "unat y < 0xc0" "0x80 \<le> unat z" "unat z < 0xc0"
      "unat b = 0xf0 \<longrightarrow> 0x90 \<le> unat x" "unat b = 0xf4 \<longrightarrow> unat x \<le> 0x8f"
  using assms
  by (fastforce simp: wf_seq_def lead_need_def second_lo_def second_hi_def length_Suc_conv numeral_2_eq_2 numeral_3_eq_3
      split: list.splits if_splits)

subsection \<open>What the decoder accepts\<close>

lemma wf_seq_utf8:
  assumes "wf_seq bs"
  shows "scalar (seq_val bs) \<and> utf8 (seq_val bs) = map unat bs"
  using assms
proof (cases rule: wf_seq_cases)
  case (1 b)
  then show ?thesis by (simp add: seq_val_def scalar_def utf8_def)
next
  case (2 b x)
  then have "seq_val bs = (unat b - 0xc0) * 64 + (unat x - 0x80)" by (simp add: seq_val_def follow_def lead_need_def)
  with 2 show ?thesis using utf8_digits(1) [of "unat b - 0xc0" "unat x - 0x80"] by (auto simp: scalar_def)
next
  case (3 b x y)
  obtain B X Y where d: "unat b = 0xe0 + B" "unat x = 0x80 + X" "unat y = 0x80 + Y"
    using 3 by (metis le_iff_add)
  then have v: "seq_val bs = (B * 64 + X) * 64 + Y" using 3 by (simp add: seq_val_def follow_def lead_need_def)
  have r: "B < 16" "X < 64" "Y < 64" "B = 0 \<longrightarrow> 32 \<le> X" "B = 13 \<longrightarrow> X < 32" using 3 d by auto
  then have "scalar ((B * 64 + X) * 64 + Y)"
    by (cases "B = 13"; cases "B < 13") (auto simp: scalar_def)
  then show ?thesis unfolding v using utf8_digits(2) [OF r(1-4)] 3 d by simp
next
  case (4 b x y z)
  obtain B X Y Z where d: "unat b = 0xf0 + B" "unat x = 0x80 + X" "unat y = 0x80 + Y" "unat z = 0x80 + Z"
    using 4 by (metis le_iff_add)
  then have v: "seq_val bs = ((B * 64 + X) * 64 + Y) * 64 + Z" using 4 by (simp add: seq_val_def follow_def lead_need_def)
  have r: "B < 5" "X < 64" "Y < 64" "Z < 64" "B = 0 \<longrightarrow> 16 \<le> X" "B = 4 \<longrightarrow> X < 16" using 4 d by auto
  then have "scalar (((B * 64 + X) * 64 + Y) * 64 + Z)"
    by (cases "B = 0"; cases "B = 4") (auto simp: scalar_def)
  then show ?thesis unfolding v using utf8_digits(3) [OF r(1-5)] 4 d by simp
qed

lemma scalar_digits:
  assumes "scalar c"
  obtains "c < 0x80"
  | a x where "c = a * 64 + x" "2 \<le> a" "a < 32" "x < 64"
  | a x y where "c = (a * 64 + x) * 64 + y" "a < 16" "x < 64" "y < 64" "a = 0 \<longrightarrow> 32 \<le> x" "a = 13 \<longrightarrow> x < 32"
  | a x y z where "c = ((a * 64 + x) * 64 + y) * 64 + z" "a < 5" "x < 64" "y < 64" "z < 64" "a = 0 \<longrightarrow> 16 \<le> x" "a = 4 \<longrightarrow> x < 16"
proof -
  define z y x1 x2 a1 a2 where "z = c mod 64" and "y = c div 64 mod 64" and "x1 = c div 64" and "x2 = x1 div 64"
    and "a1 = x2 div 64" and "a2 = x2 mod 64"
  have y: "y = x1 mod 64" by (simp add: y_def x1_def)
  have eq: "c = x1 * 64 + z" "x1 = x2 * 64 + y" "x2 = a1 * 64 + a2"
    unfolding z_def y x1_def x2_def a1_def a2_def by simp_all
  have lt: "z < 64" "y < 64" "a2 < 64" by (simp_all add: z_def y_def a2_def)
  consider "c < 0x80" | "0x80 \<le> c" "c < 0x800" | "0x800 \<le> c" "c < 0x10000" | "0x10000 \<le> c" "c < 0x110000"
    using assms by (fastforce simp: scalar_def)
  then show ?thesis
  proof cases
    case 2
    then show ?thesis using that(2) [of x1 z] eq lt by linarith
  next
    case 3
    note eq = 3 eq(1,2) lt(1,2)
    have "x2 < 16" "x2 = 0 \<Longrightarrow> 32 \<le> y" using eq by linarith+
    moreover have "\<not> (0xd800 \<le> c \<and> c \<le> 0xdfff)" using assms by (simp add: scalar_def)
    then have "x2 = 13 \<Longrightarrow> y < 32" using eq by linarith
    ultimately show ?thesis using that(3) [of x2 y z] eq lt by simp
  next
    case 4
    have "a1 = 0 \<Longrightarrow> 16 \<le> a2" "a1 = 4 \<Longrightarrow> a2 < 16" "a1 < 5" using 4 eq lt by linarith+
    then show ?thesis using that(4) [of a1 a2 y z] eq lt by simp
  qed (use that in blast)
qed

lemma utf8_wf_seq:
  assumes "scalar c"
  shows "wf_seq (map of_nat (utf8 c)) \<and> seq_val (map of_nat (utf8 c)) = c"
  using assms
proof (cases rule: scalar_digits)
  case 1
  then show ?thesis by (simp add: utf8_def wf_seq_def seq_val_def unat_of_nat_8)
next
  case (2 a x)
  then have "map of_nat (utf8 c) = [of_nat (0xc0 + a), of_nat (0x80 + x) :: u8]" using utf8_digits(1) by simp
  with 2 show ?thesis
    by (simp add: wf_seq_def seq_val_def unat_of_nat_8 lead_need_def second_lo_def second_hi_def follow_def del: of_nat_add)
next
  case (3 a x y)
  then have "map of_nat (utf8 c) = [of_nat (0xe0 + a), of_nat (0x80 + x), of_nat (0x80 + y) :: u8]"
    using utf8_digits(2) by simp
  with 3 show ?thesis
    by (auto simp: wf_seq_def seq_val_def unat_of_nat_8 lead_need_def second_lo_def second_hi_def follow_def simp del: of_nat_add)
next
  case (4 a x y z)
  then have "map of_nat (utf8 c) = [of_nat (0xf0 + a), of_nat (0x80 + x), of_nat (0x80 + y), of_nat (0x80 + z) :: u8]"
    using utf8_digits(3) by simp
  with 4 show ?thesis
    by (auto simp: wf_seq_def seq_val_def unat_of_nat_8 lead_need_def second_lo_def second_hi_def follow_def simp del: of_nat_add)
qed

lemma mbrtowc_wf:
  assumes "wf_seq bs" "length bs \<le> n"
  shows "mbrtowc (Some (bs @ r)) n mbinit =
    Some (MB (if seq_val bs = 0 then 0 else length bs), Some (of_nat (seq_val bs)), mbinit, None)"
proof -
  obtain b bs' where bs: "bs = b # bs'" using assms(1) by (cases bs) (simp_all add: wf_seq_def)
  then have n: "0 < n" using assms(2) by simp
  note first = mbrtowc_first [of "bs @ r" b "bs' @ r" n, OF _ n]
  have "of_nat (seq_val bs) = of_nat (unat b) \<and> (seq_val bs = 0 \<longleftrightarrow> b = 0)" if "unat b < 0x80"
    using that bs by (simp add: seq_val_def unsigned_eq_0_iff)
  show ?thesis
  proof (cases "unat b < 0x80")
    case True
    then have "bs' = []" "seq_val bs = unat b" using assms(1) bs by (simp_all add: wf_seq_def seq_val_def)
    then show ?thesis using first bs True by (simp add: unsigned_eq_0_iff)
  next
    case False
    let ?need = "lead_need (unat b)"
    have wf: "0 < ?need" "length bs' = ?need" "\<forall>x \<in> set bs'. 0x80 \<le> unat x \<and> unat x < 0xc0"
      "second_lo (unat b) \<le> unat (hd bs')" "unat (hd bs') \<le> second_hi (unat b)"
      using assms(1) bs False by (simp_all add: wf_seq_def)
    have "?need \<le> 3" by (simp add: lead_need_def)
    moreover have "unat (lead_bits b) < 2 ^ (32 - 6 * ?need)"
      using lead_bits_val [OF wf(1)] wf(1) byte_lt [of b] by (auto simp: lead_need_def split: if_splits)
    moreover have "take ?need (drop 1 (bs @ r)) = bs'" using bs wf(2) by simp
    ultimately obtain c where c: "mb_cont (bs @ r) n 1 (lead_bits b) ?need (ucast b) = Some (MB (1 + ?need), Some c, mbinit, None)"
      "unat c = follow (unat (lead_bits b)) bs'"
      using mb_cont_follow [of bs' ?need "lead_bits b" 1 "bs @ r" n "ucast b"] wf assms(2) bs by auto
    have v: "unat c = seq_val bs" unfolding c(2) seq_val_def using lead_bits_val [OF wf(1)] bs False by simp
    have "c = of_nat (unat c)" by simp
    then have "c = of_nat (seq_val bs)" unfolding v .
    moreover have "seq_val bs \<noteq> 0"
    proof
      assume "seq_val bs = 0"
      then have "utf8 0 = map unat bs" using wf_seq_utf8 [OF assms(1)] by simp
      then show False using False bs by (simp add: utf8_def)
    qed
    ultimately show ?thesis using first c(1) bs False wf by simp
  qed
qed

lemma mbrtowc_sound:
  assumes "mbrtowc (Some s) n mbinit = Some (MB k, w, ps, e)"
  obtains bs r where "s = bs @ r" "wf_seq bs" "length bs \<le> n"
proof -
  have n: "0 < n" using assms by (auto simp: mbrtowc_def split: if_splits)
  obtain b r where s: "s = b # r" using assms n by (cases s) (auto simp: mbrtowc_def mbinit_def buf_at_def)
  note first = mbrtowc_first [OF s n]
  show thesis
  proof (cases "unat b < 0x80")
    case True
    then show thesis using that [of "[b]" r] s n by (simp add: wf_seq_def)
  next
    case False
    let ?need = "lead_need (unat b)"
    have need: "0 < ?need" using assms first False by (auto simp: ilseq_def split: if_splits)
    then have c: "mb_cont s n 1 (lead_bits b) ?need (ucast b) = Some (MB k, w, ps, e)" using assms first False by simp
    have "1 \<le> n" using n by simp
    note p = mb_cont_sound [OF c this]
    have "(ucast b :: u32) \<noteq> 0" using False by (auto simp: unat_eq_32)
    moreover have "1 + ?need \<le> length s" using p need by simp
    moreover have "hd (take ?need r) = s ! 1" using need s \<open>1 + ?need \<le> length s\<close> by (cases r) (auto simp: take_Cons')
    ultimately have "wf_seq (b # take ?need r)" using p need s False by (auto simp: wf_seq_def)
    then show thesis using that [of "b # take ?need r" "drop ?need r"] conjunct1 [OF p] s by simp
  qed
qed

subsection \<open>Decoding in pieces\<close>

text \<open>The states the decoder leaves: at most three bytes are awaited, and the lead byte is kept above.\<close>

definition wf_mbstate :: "mbstate \<Rightarrow> bool" where
  "wf_mbstate ps \<longleftrightarrow> unat (nn ps AND 7) \<le> 3 \<and> unat (drop_bit 8 (nn ps)) < 256"

definition shift_ret :: "nat \<Rightarrow> mbresult \<Rightarrow> mbresult" where
  "shift_ret i = (\<lambda>(r, rest). (case r of MB k \<Rightarrow> MB (i + k) | r \<Rightarrow> r, rest))"

lemma pack_state:
  assumes "need \<le> 3" "unat (lead :: u32) < 256"
  shows "unat ((of_nat need OR push_bit 8 lead) AND 7) = need" "drop_bit 8 (of_nat need OR push_bit 8 lead) = lead"
proof -
  have need: "need \<in> set [0, 1, 2, 3]" using assms(1) by auto
  have small: "\<forall>k \<in> set [0, 1, 2, 3]. unat ((of_nat k :: u32) AND 7) = k \<and> drop_bit 8 (of_nat k :: u32) = 0" by code_simp
  have "take_bit 3 (push_bit 8 lead) = 0" by (simp add: take_bit_push_bit)
  moreover have "(7 :: u32) = mask 3" by (simp add: mask_eq_exp_minus_1)
  ultimately have "push_bit 8 lead AND 7 = 0" by (simp only: take_bit_eq_mask)
  then have "(of_nat need OR push_bit 8 lead) AND 7 = of_nat need AND 7" by (simp add: bit.conj_disj_distrib2)
  then show "unat ((of_nat need OR push_bit 8 lead) AND 7) = need" using small need by metis
  have "take_bit 24 lead = lead" using assms(2) by (simp add: take_bit_eq_mod word_unat_eq_iff unat_mod)
  moreover have "drop_bit 8 (push_bit 8 lead) = take_bit 24 lead"
    by (rule bit_word_eqI) (auto simp: bit_simps)
  moreover have "drop_bit 8 (of_nat need :: u32) = 0" using small need by metis
  ultimately show "drop_bit 8 (of_nat need OR push_bit 8 lead) = lead" by (simp add: drop_bit_or)
qed

lemma mb_cont_shift:
  "mb_cont (s1 @ s2) (length s1 + n) (length s1 + i) c need lead =
     map_option (shift_ret (length s1)) (mb_cont s2 n i c need lead)"
proof (induction need arbitrary: i c lead)
  case (Suc need)
  then show ?case using Suc.IH [of "Suc i"]
    by (auto simp: buf_at_def Let_def shift_ret_def ilseq_def nth_append)
qed (simp add: shift_ret_def)

lemma mb_cont_incomplete:
  "mb_cont s1 (length s1) i c need lead = Some (INCOMPLETE, w, ps', e) \<Longrightarrow> i \<le> length s1 \<Longrightarrow> length s1 \<le> n \<Longrightarrow>
   \<exists>need' c' lead'. 0 < need' \<and> need' \<le> need \<and> (lead' = lead \<or> lead' = 0) \<and>
     ps' = \<lparr> st = c', nn = of_nat need' OR push_bit 8 lead' \<rparr> \<and> w = None \<and> e = None \<and>
     mb_cont (s1 @ s2) n i c need lead = mb_cont (s1 @ s2) n (length s1) c' need' lead'"
proof (induction need arbitrary: i c lead)
  case (Suc need)
  show ?case
  proof (cases "i = length s1")
    case True
    then show ?thesis using Suc.prems by (intro exI [of _ "Suc need"] exI [of _ c] exI [of _ lead]) auto
  next
    case False
    then have i: "i < length s1" using Suc.prems by simp
    let ?c = "push_bit 6 c OR (ucast (s1 ! i) AND 0x3f)"
    have a: "mb_cont s1 (length s1) i c (Suc need) lead = mb_cont s1 (length s1) (Suc i) ?c need 0"
      "mb_cont (s1 @ s2) n i c (Suc need) lead = mb_cont (s1 @ s2) n (Suc i) ?c need 0"
      using Suc.prems i by (auto simp: buf_at_def Let_def ilseq_def nth_append split: if_splits)
    from Suc.IH [of "Suc i" ?c 0] Suc.prems i a obtain need' c' lead' where
      "0 < need'" "need' \<le> need" "lead' = 0" "ps' = \<lparr> st = c', nn = of_nat need' OR push_bit 8 lead' \<rparr>" "w = None" "e = None"
      "mb_cont (s1 @ s2) n (Suc i) ?c need 0 = mb_cont (s1 @ s2) n (length s1) c' need' lead'" by auto
    then show ?thesis unfolding a(2) by (intro exI [of _ need'] exI [of _ c'] exI [of _ lead']) auto
  qed
qed simp

lemma resume_cont:
  assumes "mb_cont s1 (length s1) i c need lead = Some (INCOMPLETE, w, ps', e)" "i \<le> length s1"
    "need \<le> 3" "unat lead < 256" "0 < n"
  shows "wf_mbstate ps' \<and> w = None \<and> e = None \<and> mb_cont (s1 @ s2) (length s1 + n) i c need lead =
    map_option (shift_ret (length s1)) (mbrtowc (Some s2) n ps')"
proof -
  obtain need' c' lead' where p: "0 < need'" "need' \<le> need" "lead' = lead \<or> lead' = 0"
    "ps' = \<lparr> st = c', nn = of_nat need' OR push_bit 8 lead' \<rparr>" "w = None" "e = None"
    "mb_cont (s1 @ s2) (length s1 + n) i c need lead = mb_cont (s1 @ s2) (length s1 + n) (length s1) c' need' lead'"
    using mb_cont_incomplete [OF assms(1,2), of "length s1 + n" s2] by auto
  have "need' \<le> 3" "unat lead' < 256" using p(2,3) assms(3,4) by auto
  note pack = pack_state [OF this]
  have "wf_mbstate ps'" using p(4) pack \<open>need' \<le> 3\<close> \<open>unat lead' < 256\<close> by (simp add: wf_mbstate_def)
  moreover have "mbrtowc (Some s2) n ps' = mb_cont s2 n 0 c' need' lead'"
    using pack p(1,4) assms(5) by (simp add: mbrtowc_def)
  moreover have "mb_cont (s1 @ s2) (length s1 + n) (length s1) c' need' lead' =
      map_option (shift_ret (length s1)) (mb_cont s2 n 0 c' need' lead')"
    using mb_cont_shift [of s1 s2 n 0] by simp
  ultimately show ?thesis using p by simp
qed

subsection \<open>Properties\<close>

lemma scalar_zero: "scalar 0" "utf8 0 = [0]"
  by (simp_all add: scalar_def utf8_def)

lemma unat_of_scalar: "scalar c \<Longrightarrow> unat (of_nat c :: u32) = c"
  by (simp add: scalar_def unat_of_nat take_bit_nat_eq_self)

text \<open>
  C17.  Round trip: for every Unicode scalar value \<open>wcrtomb\<close> stores its shortest UTF-8 form, and
  \<open>mbrtowc\<close>, given at least as many bytes as were stored, reads exactly that character back,
  consumes exactly those bytes (0 for NUL) and leaves the initial state, whatever follows.
\<close>
theorem mbrtowc_wcrtomb:
  assumes "scalar (unat c)"
  shows "\<exists>bs. wcrtomb True c = Inr bs \<and> bs = map of_nat (utf8 (unat c)) \<and>
    (\<forall>n r. length bs \<le> n \<longrightarrow>
       mbrtowc (Some (bs @ r)) n mbinit = Some (MB (if c = 0 then 0 else length bs), Some c, mbinit, None))"
  using wcrtomb_utf8 [OF assms] utf8_wf_seq [OF assms] mbrtowc_wf [where bs = "map of_nat (utf8 (unat c))"]
  by (auto simp: unsigned_eq_0_iff)

theorem mbrtowc_wcrtomb_witness:
  "scalar (unat (0x20ac :: u32)) \<and> wcrtomb True 0x20ac = Inr [0xe2, 0x82, 0xac] \<and>
   mbrtowc (Some ([0xe2, 0x82, 0xac] @ [0x21])) 4 mbinit = Some (MB 3, Some 0x20ac, mbinit, None)"
proof -
  have "scalar (unat (0x20ac :: u32))" by (simp add: scalar_def)
  moreover have "map of_nat (utf8 (unat (0x20ac :: u32))) = [0xe2, 0x82, 0xac :: u8]" by (simp add: utf8_def)
  ultimately show ?thesis using mbrtowc_wcrtomb [of "0x20ac"] by fastforce
qed

text \<open>
  C18.  Strictness: when \<open>mbrtowc\<close>, started in the initial state, returns a character, that
  character is a Unicode scalar value (no surrogate, nothing above U+10FFFF) and the bytes read are
  its shortest encoding: overlong forms, stray continuation bytes and truncated sequences are never
  accepted.  No more than \<open>n\<close> bytes are consumed and the state is the initial one again.
\<close>
theorem mbrtowc_strict:
  assumes "mbrtowc (Some s) n mbinit = Some (MB k, w, ps, e)"
  shows "\<exists>c. w = Some c \<and> scalar (unat c) \<and> ps = mbinit \<and> e = None \<and>
    k = (if c = 0 then 0 else length (utf8 (unat c))) \<and> length (utf8 (unat c)) \<le> n \<and>
    take (length (utf8 (unat c))) s = map of_nat (utf8 (unat c))"
proof -
  obtain bs r where s: "s = bs @ r" "wf_seq bs" "length bs \<le> n" using mbrtowc_sound [OF assms] .
  note v = wf_seq_utf8 [OF s(2)]
  have u: "unat (of_nat (seq_val bs) :: u32) = seq_val bs" using v unat_of_scalar by blast
  have l: "length (utf8 (seq_val bs)) = length bs" "map of_nat (utf8 (seq_val bs)) = bs" using v by (simp_all add: o_def)
  have "mbrtowc (Some s) n mbinit =
      Some (MB (if seq_val bs = 0 then 0 else length bs), Some (of_nat (seq_val bs)), mbinit, None)"
    unfolding s(1) by (rule mbrtowc_wf [OF s(2,3)])
  then have r: "k = (if seq_val bs = 0 then 0 else length bs)" "w = Some (of_nat (seq_val bs))" "ps = mbinit" "e = None"
    using assms by simp_all
  have "(of_nat (seq_val bs) :: u32) = 0 \<longleftrightarrow> seq_val bs = 0" by (simp add: unat_eq_32 u)
  then show ?thesis unfolding r using u v l s by simp
qed

theorem mbrtowc_strict_witness:
  "mbrtowc (Some [0xc3, 0xa9]) 2 mbinit = Some (MB 2, Some 0xe9, mbinit, None) \<and>
   take (length (utf8 0xe9)) [0xc3, 0xa9 :: u8] = map of_nat (utf8 0xe9) \<and> mbrtowc (Some [0xc0, 0xa9]) 2 mbinit = Some ilseq"
proof -
  have e: "mbrtowc (Some [0xc3, 0xa9]) 2 mbinit = Some (MB 2, Some 0xe9, mbinit, None)"
    "mbrtowc (Some [0xc0, 0xa9]) 2 mbinit = Some ilseq" by code_simp+
  from mbrtowc_strict [OF e(1)] e show ?thesis by (auto split: if_splits)
qed

text \<open>
  C19.  Decoding in pieces: when the first piece of the input ends inside a character, so that
  \<open>mbrtowc\<close> answers \<open>(size_t)-2\<close>, then the next call on the second piece, with the state that was
  left, gives the same character, error or want of bytes as one call on the two pieces together
  (the count is that of the second piece), and the state left is well-formed again.
\<close>
theorem mbrtowc_resume:
  assumes "wf_mbstate ps" "mbrtowc (Some s1) (length s1) ps = Some (INCOMPLETE, w, ps', e)" "0 < n"
  shows "w = None \<and> e = None \<and> wf_mbstate ps' \<and>
    mbrtowc (Some (s1 @ s2)) (length s1 + n) ps = map_option (shift_ret (length s1)) (mbrtowc (Some s2) n ps')"
proof (cases s1)
  case Nil
  then have "ps' = ps" "w = None" "e = None" using assms(2) by (simp_all add: mbrtowc_def)
  moreover have "shift_ret 0 r = r" for r by (cases r; cases "fst r") (simp_all add: shift_ret_def)
  then have "map_option (shift_ret 0) x = x" for x by (cases x) simp_all
  ultimately show ?thesis using Nil assms(1) by simp
next
  case (Cons b s)
  let ?need = "unat (nn ps AND 7)"
  show ?thesis
  proof (cases "?need = 0")
    case False
    then have "mb_cont s1 (length s1) 0 (st ps) ?need (drop_bit 8 (nn ps)) = Some (INCOMPLETE, w, ps', e)"
      using assms(2) Cons by (simp add: mbrtowc_def)
    from resume_cont [OF this _ _ _ assms(3), of s2] assms(1) False Cons assms(3)
    show ?thesis by (simp add: wf_mbstate_def mbrtowc_def)
  next
    case True
    define need where "need = lead_need (unat b)"
    have step: "mbrtowc (Some (b # t)) (Suc m) ps = (if unat b < 0x80 then Some (MB (if b \<noteq> 0 then 1 else 0), Some (ucast b), ps, None)
        else if need = 0 then Some ilseq else mb_cont (b # t) (Suc m) 1 (lead_bits b) need (ucast b))" for t m
      using True unat_eq_32 [of "ucast b" 0] unsigned_eq_0_iff [of b]
      by (auto simp: mbrtowc_def buf_at_def Let_def lead_need_def lead_bits_def need_def word_le_nat_alt word_less_nat_alt)
    have "\<not> unat b < 0x80 \<and> need \<noteq> 0"
      using assms(2) step [of s "length s"] Cons by (auto simp: ilseq_def split: if_splits)
    moreover from this have "mb_cont s1 (length s1) 1 (lead_bits b) need (ucast b) = Some (INCOMPLETE, w, ps', e)"
      using assms(2) step [of s "length s"] Cons by simp
    moreover have "need \<le> 3" by (simp add: need_def lead_need_def)
    ultimately show ?thesis
      using resume_cont [of s1 1 "lead_bits b" need "ucast b" w ps' e n s2] assms(3) Cons byte_lt [of b]
        step [of "s @ s2" "length s + n"] by simp
  qed
qed

theorem mbrtowc_resume_witness:
  "wf_mbstate mbinit \<and> mbrtowc (Some [0xf0, 0x9f]) 2 mbinit = Some (INCOMPLETE, None, \<lparr> st = 0x1f, nn = 2 \<rparr>, None) \<and>
   mbrtowc (Some ([0xf0, 0x9f] @ [0x98, 0x80])) 4 mbinit =
     map_option (shift_ret 2) (mbrtowc (Some [0x98, 0x80]) 2 \<lparr> st = 0x1f, nn = 2 \<rparr>)"
proof -
  have "wf_mbstate mbinit" by code_simp
  moreover have e: "mbrtowc (Some [0xf0, 0x9f]) (length [0xf0, 0x9f :: u8]) mbinit = Some (INCOMPLETE, None, \<lparr> st = 0x1f, nn = 2 \<rparr>, None)"
    by code_simp
  ultimately show ?thesis using mbrtowc_resume [OF _ e, of 2 "[0x98, 0x80]"] by (simp add: eval_nat_numeral)
qed

subsection \<open>Whole strings\<close>

text \<open>The NUL at the end of a string stops the decoder: it reads nothing after it.\<close>

lemma mb_cont_string:
  "i \<le> length s \<Longrightarrow> \<exists>r w ps e. mb_cont (s @ [0]) n i c need lead = Some (r, w, ps, e) \<and>
     (\<forall>k. r = MB k \<longrightarrow> i \<le> k \<and> k \<le> length s \<and> k = i + need \<and> ps = mbinit \<and> w \<noteq> None)"
proof (induction need arbitrary: i c lead)
  case (Suc need)
  show ?case
  proof (cases "i = n")
    case False
    let ?b = "(s @ [0]) ! i"
    have at: "buf_at (s @ [0]) i = Some ?b" using Suc.prems by (simp add: buf_at_def)
    show ?thesis
    proof (cases "if lead \<noteq> 0 then \<not> second_ok lead (ucast ?b) else (ucast ?b :: u32) AND 0xc0 \<noteq> 0x80")
      case True
      then show ?thesis using False at by (simp add: Let_def ilseq_def)
    next
      case ok: False
      have "i \<noteq> length s"
      proof
        assume "i = length s"
        then have "?b = 0" by simp
        then show False using ok cont_byte [of 0] second_ok_iff [of lead 0] by (auto simp: second_lo_def split: if_splits)
      qed
      then have "Suc i \<le> length s" using Suc.prems by simp
      from Suc.IH [OF this, of "push_bit 6 c OR (ucast ?b AND 0x3f)" 0] ok False at show ?thesis
        by (auto simp: Let_def split: if_splits)
    qed
  qed simp
qed simp

lemma mbrtowc_string:
  assumes "0 \<notin> set s" "0 < n"
  shows "\<exists>r w ps' e. mbrtowc (Some (s @ [0])) n ps = Some (r, w, ps', e) \<and>
    (\<forall>k. r = MB k \<longrightarrow> (\<exists>c. w = Some c \<and> k \<le> length s \<and> (c \<noteq> 0 \<longrightarrow> 0 < k)))"
proof (cases "unat (nn ps AND 7) = 0")
  case False
  then show ?thesis using mb_cont_string [of 0 s n "st ps" "unat (nn ps AND 7)" "drop_bit 8 (nn ps)"] assms(2)
    by (auto simp: mbrtowc_def)
next
  case True
  show ?thesis
  proof (cases s)
    case Nil
    then show ?thesis using True assms(2) by (simp add: mbrtowc_def buf_at_def)
  next
    case (Cons b t)
    define good :: "mbresult option \<Rightarrow> bool" where "good x \<longleftrightarrow> (\<exists>r w ps' e. x = Some (r, w, ps', e) \<and>
        (\<forall>k. r = MB k \<longrightarrow> (\<exists>c. w = Some c \<and> k \<le> length s \<and> (c \<noteq> 0 \<longrightarrow> 0 < k))))" for x
    have "good (mb_cont (s @ [0]) n 1 c k l)" for c k l
      using mb_cont_string [of 1 s n c k l] Cons by (auto simp: good_def)
    moreover have "good (Some ilseq)" by (simp add: good_def ilseq_def)
    moreover have "good (Some (MB (if (ucast b :: u32) \<noteq> 0 then 1 else 0), Some (ucast b), ps, None))" using Cons by (simp add: good_def)
    moreover have "buf_at (s @ [0]) 0 = Some b" using Cons by (simp add: buf_at_def)
    ultimately have "good (mbrtowc (Some (s @ [0])) n ps)" using True assms(2) by (simp add: mbrtowc_def Let_def del: mb_cont.simps)
    then show ?thesis by (simp only: good_def)
  qed
qed

lemma mbsrtowcs_loop_total:
  "0 \<notin> set src \<Longrightarrow> p \<le> length src \<Longrightarrow> \<exists>r. mbsrtowcs_loop dst src n p cnt out ps = Some r"
proof (induction "length src - p" arbitrary: p cnt out ps rule: less_induct)
  case less
  have d: "drop p (src @ [0]) = drop p src @ [0]" using less.prems(2) by simp
  have "0 \<notin> set (drop p src)" using less.prems(1) by (meson in_set_dropD)
  from mbrtowc_string [OF this, of 4 ps] obtain r w ps' e where
    r: "mbrtowc (Some (drop p (src @ [0]))) 4 ps = Some (r, w, ps', e)"
    "\<forall>k. r = MB k \<longrightarrow> (\<exists>c. w = Some c \<and> k \<le> length (drop p src) \<and> (c \<noteq> 0 \<longrightarrow> 0 < k))" unfolding d by auto
  show ?case
  proof (cases r)
    case (MB k)
    then obtain c where c: "w = Some c" "k \<le> length src - p" "c \<noteq> 0 \<longrightarrow> 0 < k" using r(2) by auto
    have "\<exists>x. mbsrtowcs_loop dst src n (p + k) cnt' out' ps' = Some x" if "c \<noteq> 0" for cnt' out'
    proof (rule less.hyps)
      show "length src - (p + k) < length src - p" "p + k \<le> length src" using c that less.prems(2) by auto
    qed (rule less.prems(1))
    then show ?thesis using r(1) c MB by (subst mbsrtowcs_loop.simps) (auto simp: Let_def)
  qed (use r in \<open>subst mbsrtowcs_loop.simps; simp\<close>)+
qed

definition enc :: "u32 \<Rightarrow> u8 list" where
  "enc c = map of_nat (utf8 (unat c))"

lemma mbrtowc_enc:
  assumes "scalar (unat c)" "c \<noteq> 0" "4 \<le> n"
  shows "mbrtowc (Some (enc c @ r)) n mbinit = Some (MB (length (enc c)), Some c, mbinit, None)"
proof -
  have "length (utf8 (unat c)) \<le> 4" by (simp add: utf8_def)
  then show ?thesis
    using mbrtowc_wf [of "enc c" n r] utf8_wf_seq [OF assms(1)] assms(2,3) by (simp add: enc_def unsigned_eq_0_iff)
qed

lemma mbsrtowcs_loop_enc:
  "\<forall>c \<in> set cs. scalar (unat c) \<and> c \<noteq> 0 \<Longrightarrow> src = pre @ concat (map enc cs) \<Longrightarrow> cnt \<le> n \<Longrightarrow>
   mbsrtowcs_loop True src n (length pre) cnt out mbinit =
     (if cnt + length cs < n then Some (MB (cnt + length cs), out @ cs @ [0], None, mbinit, None)
      else Some (MB n, out @ take (n - cnt) cs, Some (length pre + length (concat (map enc (take (n - cnt) cs)))), mbinit, None))"
proof (induction cs arbitrary: pre cnt out)
  case Nil
  have "mbrtowc (Some [0]) 4 mbinit = Some (MB 0, Some 0, mbinit, None)" by code_simp
  then show ?case using Nil by (subst mbsrtowcs_loop.simps) (auto simp: Let_def)
next
  case (Cons c cs)
  show ?case
  proof (cases "cnt < n")
    case True
    have src: "src = (pre @ enc c) @ concat (map enc cs)" "drop (length pre) (src @ [0]) = enc c @ (concat (map enc cs) @ [0])"
      using Cons.prems(2) by simp_all
    have "mbrtowc (Some (drop (length pre) (src @ [0]))) 4 mbinit = Some (MB (length (enc c)), Some c, mbinit, None)"
      unfolding src(2) by (rule mbrtowc_enc) (use Cons.prems in auto)
    moreover have "n - cnt = Suc (n - Suc cnt)" using True by simp
    ultimately show ?thesis
      using Cons.IH [OF _ src(1), of "Suc cnt" "out @ [c]"] Cons.prems True
      by (subst mbsrtowcs_loop.simps) (simp add: Let_def add.assoc)
  next
    case False
    then show ?thesis using Cons.prems by (subst mbsrtowcs_loop.simps) simp
  qed
qed

lemma wcsrtombs_loop_enc:
  "\<forall>c \<in> set cs. scalar (unat c) \<Longrightarrow> cnt + length (concat (map enc cs)) < n \<Longrightarrow>
   wcsrtombs_loop True n cs w out cnt =
     (MB (cnt + length (concat (map enc cs))), out @ concat (map enc cs) @ [0], None, None)"
  by (induction cs arbitrary: w out cnt) (auto simp: wcrtomb_utf8 enc_def [symmetric])

lemma enc_nonzero: "scalar (unat c) \<Longrightarrow> c \<noteq> 0 \<Longrightarrow> 0 \<notin> set (enc c)"
proof -
  assume "scalar (unat c)" "c \<noteq> 0"
  moreover from this have "utf8 (unat c) = map unat (enc c)"
    using wf_seq_utf8 [of "enc c"] utf8_wf_seq [of "unat c"] by (simp add: enc_def)
  moreover have "0 \<notin> set (utf8 (unat c))" using \<open>c \<noteq> 0\<close> by (auto simp: utf8_def unsigned_eq_0_iff)
  ultimately show ?thesis by (metis imageI list.set_map unsigned_0)
qed

text \<open>
  C20.  Strings round trip: \<open>wcsrtombs\<close> with enough room turns a wide string of non-zero scalar
  values into a NUL-terminated multibyte string without an inner NUL, and \<open>mbsrtowcs\<close> turns that
  string back into the wide string: all of it with its terminator when there is room, its first
  \<open>n\<close> characters and the pointer to the next one otherwise.
\<close>
theorem mbsrtowcs_wcsrtombs:
  assumes "\<forall>c \<in> set cs. scalar (unat c) \<and> c \<noteq> 0" "length (concat (map enc cs)) < m"
  shows "\<exists>bs. wcsrtombs True cs m = (MB (length bs), bs @ [0], None, None) \<and> 0 \<notin> set bs \<and>
    mbsrtowcs True bs n mbinit =
      (if length cs < n then Some (MB (length cs), cs @ [0], None, mbinit, None)
       else Some (MB n, take n cs, Some (length (concat (map enc (take n cs)))), mbinit, None))"
proof -
  have "0 \<notin> set (concat (map enc cs))" using assms(1) enc_nonzero by fastforce
  then show ?thesis
    using wcsrtombs_loop_enc [of cs 0 m 0 "[]"] mbsrtowcs_loop_enc [of cs "concat (map enc cs)" "[]" 0 n "[]"] assms
    by (auto simp: wcsrtombs_def mbsrtowcs_def)
qed

theorem mbsrtowcs_wcsrtombs_witness:
  "wcsrtombs True [0x41, 0xe9] 8 = (MB 3, [0x41, 0xc3, 0xa9, 0], None, None) \<and>
   mbsrtowcs True [0x41, 0xc3, 0xa9] 8 mbinit = Some (MB 2, [0x41, 0xe9, 0], None, mbinit, None)"
proof -
  have a: "\<forall>c \<in> set [0x41, 0xe9 :: u32]. scalar (unat c) \<and> c \<noteq> 0" by (simp add: scalar_def)
  have e: "map enc [0x41, 0xe9] = [[0x41], [0xc3, 0xa9]]" by (simp add: enc_def utf8_def)
  have l: "length (concat (map enc [0x41, 0xe9])) < 8" unfolding e by simp
  have w: "wcsrtombs True [0x41, 0xe9] 8 = (MB 3, [0x41, 0xc3, 0xa9, 0], None, None)" by code_simp
  from mbsrtowcs_wcsrtombs [OF a l, of 8] w show ?thesis by auto
qed

text \<open>
  C21.  \<open>mbsrtowcs\<close> always ends and stays inside the string: on every NUL-terminated string of
  bytes, valid or not, from every state and with every limit it returns, without reading a byte
  after the terminator.
\<close>
theorem mbsrtowcs_total:
  assumes "0 \<notin> set src"
  shows "\<exists>r. mbsrtowcs dst src n ps = Some r"
  unfolding mbsrtowcs_def using mbsrtowcs_loop_total [OF assms] by simp

theorem mbsrtowcs_total_witness:
  "0 \<notin> set [0xe2, 0x82 :: u8] \<and> (\<exists>r. mbsrtowcs True [0xe2, 0x82] 5 mbinit = Some r) \<and>
   map_option fst (mbsrtowcs True [0xe2, 0x82] 5 mbinit) = Some ILSEQ"
proof -
  have "0 \<notin> set [0xe2, 0x82 :: u8]" by simp
  moreover from mbsrtowcs_total [OF this] have "\<exists>r. mbsrtowcs True [0xe2, 0x82] 5 mbinit = Some r" .
  moreover have "map_option fst (mbsrtowcs True [0xe2, 0x82] 5 mbinit) = Some ILSEQ" by code_simp
  ultimately show ?thesis by blast
qed

end
