(* ===== verification/Uchar.thy ===== *)
theory Uchar
  imports Multibyte
begin

text \<open>
  \<^verbatim>\<open>src/uchar.c\<close>: conversions between UTF-8 and the units of UTF-8, UTF-16 and UTF-32, one unit per
  call.  What is still to be returned, or has been given so far, is kept in the state under one of
  four flags.  The conventions are those of the theory of \<^verbatim>\<open>multibyte.c\<close>: the unit of a result is
  what is stored when a destination was given.
\<close>

subsection \<open>UTF-32\<close>

definition PEND_LOW :: u32 where "PEND_LOW = 0x80000000"
definition PEND_HIGH :: u32 where "PEND_HIGH = 0x40000000"
definition PEND_C8OUT :: u32 where "PEND_C8OUT = 0x20000000"
definition PEND_C8IN :: u32 where "PEND_C8IN = 0x10000000"

lemmas pend_defs = PEND_LOW_def PEND_HIGH_def PEND_C8OUT_def PEND_C8IN_def

text \<open>Whether a result, as a \<open>size_t\<close>, is at most 4.\<close>

fun small_ret :: "mbret \<Rightarrow> bool" where
  "small_ret (MB k) = (k \<le> 4)"
| "small_ret _ = False"

definition mbrtoc32 :: "u8 list option \<Rightarrow> nat \<Rightarrow> mbstate \<Rightarrow> mbresult option" where
  "mbrtoc32 src n ps = (case src of
     None \<Rightarrow> map_option (\<lambda>(r, _, ps, e). (r, None, ps, e)) (mbrtowc (Some [0]) 1 ps)
   | Some s \<Rightarrow> do {
       (r, wc, ps, e) \<leftarrow> mbrtowc (Some s) n ps;
       Some (r, if small_ret r then wc else None, ps, e) })"

definition c32rtomb :: "bool \<Rightarrow> u32 \<Rightarrow> errno + u8 list" where
  "c32rtomb given c =
     (if c > 0x10ffff \<or> (c \<ge> 0xd800 \<and> c \<le> 0xdfff) then Inl EILSEQ else wcrtomb given c)"

subsection \<open>UTF-16\<close>

definition mbrtoc16_char :: "u8 list \<Rightarrow> nat \<Rightarrow> mbstate \<Rightarrow> (mbret \<times> u16 option \<times> mbstate \<times> errno option) option" where
  "mbrtoc16_char s n ps = do {
     (r, wc, ps, e) \<leftarrow> mbrtowc (Some s) n ps;
     if \<not> small_ret r then Some (r, None, ps, e)
     else do {
       wc \<leftarrow> wc;
       if wc \<ge> 0x10000 then
         let v = wc - 0x10000 in
         Some (r, Some (ucast (0xd800 OR drop_bit 10 v)), \<lparr> st = 0xdc00 OR (v AND 0x3ff), nn = PEND_LOW \<rparr>, e)
       else Some (r, Some (ucast wc), ps, e) } }"

definition mbrtoc16 :: "u8 list option \<Rightarrow> nat \<Rightarrow> mbstate \<Rightarrow> (mbret \<times> u16 option \<times> mbstate \<times> errno option) option" where
  "mbrtoc16 src n ps =
     (if nn ps AND PEND_LOW \<noteq> 0 then Some (PENDING, Some (ucast (st ps)), mbinit, None)
      else case src of
        None \<Rightarrow> map_option (\<lambda>(r, _, ps, e). (r, None, ps, e)) (mbrtoc16_char [0] 1 ps)
      | Some s \<Rightarrow> mbrtoc16_char s n ps)"

definition c16rtomb :: "bool \<Rightarrow> u16 \<Rightarrow> mbstate \<Rightarrow> (errno + u8 list) \<times> mbstate" where
  "c16rtomb given u ps =
     (let c = (if given then u else 0) in
      if nn ps AND PEND_HIGH \<noteq> 0 then
        (if c < 0xdc00 \<or> c > 0xdfff then (Inl EILSEQ, mbinit)
         else
           let v = 0x10000 + push_bit 10 (st ps - 0xd800) + (ucast c - 0xdc00) in
           (wcrtomb True v, mbinit))
      else if c \<ge> 0xd800 \<and> c \<le> 0xdbff then (Inr [], \<lparr> st = ucast c, nn = PEND_HIGH \<rparr>)
      else if c \<ge> 0xdc00 \<and> c \<le> 0xdfff then (Inl EILSEQ, ps)
      else (wcrtomb True (ucast c), ps))"

subsection \<open>UTF-8\<close>

text \<open>The bytes \<open>b[1] .. b[len - 1]\<close> packed into the state, the first one lowest.\<close>

definition pack_bytes :: "u8 list \<Rightarrow> u32" where
  "pack_bytes bs = foldr (\<lambda>b w. push_bit 8 w OR ucast b) bs 0"

definition mbrtoc8_char :: "u8 list \<Rightarrow> nat \<Rightarrow> mbstate \<Rightarrow> (mbret \<times> u8 option \<times> mbstate \<times> errno option) option" where
  "mbrtoc8_char s n ps = do {
     (r, wc, ps, e) \<leftarrow> mbrtowc (Some s) n ps;
     if \<not> small_ret r then Some (r, None, ps, e)
     else do {
       wc \<leftarrow> wc;
       case wcrtomb True wc of
         Inl _ \<Rightarrow> None
       | Inr b \<Rightarrow>
           Some (r, Some (hd b),
             if length b > 1 then \<lparr> st = pack_bytes (tl b), nn = PEND_C8OUT OR of_nat (length b - 1) \<rparr> else ps, e) } }"

definition mbrtoc8 :: "u8 list option \<Rightarrow> nat \<Rightarrow> mbstate \<Rightarrow> (mbret \<times> u8 option \<times> mbstate \<times> errno option) option" where
  "mbrtoc8 src n ps =
     (if nn ps AND PEND_C8OUT \<noteq> 0 then
        let k = (nn ps AND 3) - 1; rest = drop_bit 8 (st ps) in
        Some (PENDING, Some (ucast (st ps AND 0xff)),
          if k \<noteq> 0 then \<lparr> st = rest, nn = PEND_C8OUT OR k \<rparr> else mbinit, None)
      else case src of
        None \<Rightarrow> map_option (\<lambda>(r, _, ps, e). (r, None, ps, e)) (mbrtoc8_char [0] 1 ps)
      | Some s \<Rightarrow> mbrtoc8_char s n ps)"

text \<open>
  The result of \<open>c8rtomb\<close> is the error or the count with the bytes stored.
\<close>

definition c8rtomb :: "bool \<Rightarrow> u8 \<Rightarrow> mbstate \<Rightarrow> ((errno + nat \<times> u8 list) \<times> mbstate) option" where
  "c8rtomb given c ps =
     (if \<not> given then
        Some (if nn ps AND PEND_C8IN \<noteq> 0 then (Inl EILSEQ, mbinit) else (Inr (1, []), mbinit))
      else
        let have = (if nn ps AND PEND_C8IN \<noteq> 0 then unat (nn ps AND 3) else 0) in
        if have = 0 then
          Some (if c < 0x80 then (Inr (1, [c]), ps)
                else if c < 0xc2 \<or> c > 0xf4 then (Inl EILSEQ, ps)
                else (Inr (0, []), \<lparr> st = ucast c, nn = PEND_C8IN OR 1 \<rparr>))
        else
          let b = map (\<lambda>i. ucast (drop_bit (8 * i) (st ps))) [0..<have] @ [c];
              need = (if hd b < 0xe0 then 2 else if hd b < 0xf0 then 3 else 4) in
          do {
            (r, _) \<leftarrow> mbrtowc (Some b) (have + 1) mbinit;
            if r = ILSEQ then Some (Inl EILSEQ, mbinit)
            else if have + 1 < need then
              Some (Inr (0, []),
                \<lparr> st = st ps OR push_bit (8 * have) (ucast c), nn = PEND_C8IN OR of_nat (have + 1) \<rparr>)
            else if length b < need then None
            else Some (Inr (need, take need b), mbinit) })"

subsection \<open>UTF-16 in numbers\<close>

definition utf16 :: "nat \<Rightarrow> nat list" where
  "utf16 c = (if c < 0x10000 then [c] else [0xd800 + (c - 0x10000) div 1024, 0xdc00 + (c - 0x10000) mod 1024])"

lemma or_low10:
  assumes "take_bit 10 (a :: u32) = 0" "unat x < 1024"
  shows "a OR x = a + x"
proof -
  have "take_bit 10 x = x" using assms(2) by (simp add: unat_eq_32 unsigned_take_bit_eq take_bit_nat_eq_self)
  moreover have "a AND take_bit 10 x = take_bit 10 a AND x" by (rule bit_word_eqI) (auto simp: bit_simps)
  ultimately have "a AND x = 0" using assms(1) by simp
  then show ?thesis by (rule disjunctive_add_eq_or [symmetric])
qed

lemma ucast_of_nat_32: "k < 2 ^ 32 \<Longrightarrow> ucast (of_nat k :: u32) = (of_nat k :: 'a :: len word)"
  by (simp add: unsigned_of_nat take_bit_nat_eq_self)

lemma surrogates:
  assumes "0x10000 \<le> unat (c :: u32)" "unat c < 0x110000"
  shows "ucast (0xd800 OR drop_bit 10 (c - 0x10000)) = (of_nat (0xd800 + (unat c - 0x10000) div 1024) :: u16)"
    "0xdc00 OR ((c - 0x10000) AND 0x3ff) = (of_nat (0xdc00 + (unat c - 0x10000) mod 1024) :: u32)"
proof -
  let ?v = "c - 0x10000"
  have v: "unat ?v = unat c - 0x10000" using assms(1) by (simp add: unat_sub_if')
  have d: "unat (drop_bit 10 ?v) = (unat c - 0x10000) div 1024" by (simp add: unat_drop_bit_32 v)
  have "(0x3ff :: u32) = mask 10" by (simp add: mask_eq_exp_minus_1)
  then have m: "unat (?v AND 0x3ff) = (unat c - 0x10000) mod 1024"
    by (simp only: take_bit_eq_mask [symmetric]) (simp add: unsigned_take_bit_eq take_bit_nat_def v)
  have h: "(unat c - 0x10000) div 1024 < 1024" using assms(2) by (simp add: div_less_iff_less_mult)
  have "0xd800 OR drop_bit 10 ?v = 0xd800 + drop_bit 10 ?v"
    by (rule or_low10) (simp_all add: d h)
  also have "\<dots> = of_nat (0xd800 + (unat c - 0x10000) div 1024)" by (simp add: d [symmetric])
  finally have "0xd800 OR drop_bit 10 ?v = of_nat (0xd800 + (unat c - 0x10000) div 1024)" .
  then show "ucast (0xd800 OR drop_bit 10 ?v) = (of_nat (0xd800 + (unat c - 0x10000) div 1024) :: u16)"
    using ucast_of_nat_32 [of "0xd800 + (unat c - 0x10000) div 1024"] h by (simp del: of_nat_add)
  have "0xdc00 OR (?v AND 0x3ff) = 0xdc00 + (?v AND 0x3ff)"
    by (rule or_low10) (simp_all add: m)
  then show "0xdc00 OR (?v AND 0x3ff) = (of_nat (0xdc00 + (unat c - 0x10000) mod 1024) :: u32)"
    by (simp add: m [symmetric])
qed

lemma unat_of_nat_16: "k < 2 ^ 16 \<Longrightarrow> unat (of_nat k :: u16) = k"
  by (simp add: unat_of_nat take_bit_nat_eq_self)

lemma unat_ucast_16_32: "unat (ucast (x :: u16) :: u32) = unat x"
proof -
  have "unat x < 2 ^ 16" using unsigned_less [of x, where ?'a = nat] by simp
  then show ?thesis by (simp add: unsigned_ucast_eq take_bit_nat_eq_self)
qed

lemma c16rtomb_pair:
  assumes "h < 1024" "l < 1024"
  shows "c16rtomb True (of_nat (0xd800 + h)) mbinit = (Inr [], \<lparr> st = of_nat (0xd800 + h), nn = PEND_HIGH \<rparr>)"
    "c16rtomb True (of_nat (0xdc00 + l)) \<lparr> st = of_nat (0xd800 + h), nn = PEND_HIGH \<rparr> =
       (wcrtomb True (of_nat (0x10000 + h * 1024 + l)), mbinit)"
proof -
  have u: "unat (of_nat (0xd800 + h) :: u16) = 0xd800 + h" "unat (of_nat (0xdc00 + l) :: u16) = 0xdc00 + l"
    using assms unat_of_nat_16 [of "0xd800 + h"] unat_of_nat_16 [of "0xdc00 + l"] by (simp_all del: of_nat_add)
  have e: "(ucast (of_nat (0xd800 + h) :: u16) :: u32) = of_nat (0xd800 + h)"
    "(ucast (of_nat (0xdc00 + l) :: u16) :: u32) = of_nat (0xdc00 + l)"
    using assms u by (simp_all add: unat_eq_32 unat_ucast_16_32 unat_of_nat take_bit_nat_eq_self del: of_nat_add)
  show "c16rtomb True (of_nat (0xd800 + h)) mbinit = (Inr [], \<lparr> st = of_nat (0xd800 + h), nn = PEND_HIGH \<rparr>)"
    using assms u e by (simp add: c16rtomb_def mbinit_def word_le_nat_alt del: of_nat_add)
  have "push_bit 10 (of_nat (0xd800 + h) - 0xd800 :: u32) = of_nat (h * 1024)"
    by (simp add: push_bit_eq_mult)
  then show "c16rtomb True (of_nat (0xdc00 + l)) \<lparr> st = of_nat (0xd800 + h), nn = PEND_HIGH \<rparr> =
       (wcrtomb True (of_nat (0x10000 + h * 1024 + l)), mbinit)"
    using assms u e by (simp add: c16rtomb_def word_less_nat_alt pend_defs)
qed

text \<open>
  C22.  UTF-16 round trip, character by character: \<open>mbrtoc16\<close> on the UTF-8 form of a scalar value
  returns its UTF-16 units in order, the second one of a pair by \<open>(size_t)-3\<close> from the state alone,
  and the state is the initial one after the last unit; \<open>c16rtomb\<close> on those units stores nothing for
  a high surrogate and the same UTF-8 bytes after the last unit.
\<close>
theorem mbrtoc16_c16rtomb:
  assumes "scalar (unat c)" "length (enc c) \<le> n"
  shows "if unat c < 0x10000
    then utf16 (unat c) = [unat c] \<and>
      mbrtoc16 (Some (enc c @ r)) n mbinit = Some (MB (if c = 0 then 0 else length (enc c)), Some (of_nat (unat c)), mbinit, None) \<and>
      c16rtomb True (of_nat (unat c)) mbinit = (Inr (enc c), mbinit)
    else \<exists>hi lo ps ps'. utf16 (unat c) = [unat hi, unat lo] \<and>
      mbrtoc16 (Some (enc c @ r)) n mbinit = Some (MB 4, Some hi, ps, None) \<and>
      mbrtoc16 src m ps = Some (PENDING, Some lo, mbinit, None) \<and>
      c16rtomb True hi mbinit = (Inr [], ps') \<and> c16rtomb True lo ps' = (Inr (enc c), mbinit)"
proof -
  have small: "length (enc c) \<le> 4" by (simp add: enc_def utf8_def)
  have dec: "mbrtowc (Some (enc c @ r)) n mbinit = Some (MB (if c = 0 then 0 else length (enc c)), Some c, mbinit, None)"
    using mbrtowc_wf [of "enc c" n r] utf8_wf_seq [OF assms(1)] assms(2) by (simp add: enc_def unsigned_eq_0_iff)
  have encode: "wcrtomb True c = Inr (enc c)" using wcrtomb_utf8 [OF assms(1)] by (simp add: enc_def)
  have z: "nn mbinit AND PEND_LOW = 0" "nn mbinit AND PEND_HIGH = 0" by (simp_all add: mbinit_def)
  have c32: "of_nat (unat c) = c" by simp
  show ?thesis
  proof (cases "unat c < 0x10000")
    case True
    let ?u = "of_nat (unat c) :: u16"
    have u: "unat ?u = unat c" "ucast ?u = c" using True unat_of_nat_16 [of "unat c"] by (simp_all add: unat_eq_32 unat_ucast_16_32)
    have "\<not> (0xd800 \<le> unat c \<and> unat c \<le> 0xdfff)" using assms(1) by (simp add: scalar_def)
    then have "c16rtomb True ?u mbinit = (Inr (enc c), mbinit)"
      using u encode z unfolding c16rtomb_def Let_def by (auto simp: word_le_nat_alt)
    moreover have "mbrtoc16 (Some (enc c @ r)) n mbinit =
        Some (MB (if c = 0 then 0 else length (enc c)), Some (of_nat (unat c)), mbinit, None)"
      using dec z small True by (simp add: mbrtoc16_def mbrtoc16_char_def word_le_nat_alt)
    ultimately show ?thesis using True by (simp add: utf16_def)
  next
    case False
    define h l where "h = (unat c - 0x10000) div 1024" and "l = (unat c - 0x10000) mod 1024"
    have range: "0x10000 \<le> unat c" "unat c < 0x110000" using False assms(1) by (simp_all add: scalar_def)
    have lt: "h < 1024" "l < 1024" using range by (simp_all add: h_def l_def div_less_iff_less_mult)
    have "unat c = 0x10000 + (h * 1024 + l)" using False unfolding h_def l_def div_mult_mod_eq by simp
    then have c: "of_nat (0x10000 + h * 1024 + l) = c" by (metis add.assoc c32)
    note su = surrogates [OF range, folded h_def l_def]
    define ps where "ps = \<lparr> st = of_nat (0xdc00 + l), nn = PEND_LOW \<rparr>"
    have "length (enc c) = 4" "c \<noteq> 0" using range by (auto simp: enc_def utf8_def)
    then have "mbrtoc16 (Some (enc c @ r)) n mbinit = Some (MB 4, Some (of_nat (0xd800 + h)), ps, None)"
      using dec z range su by (simp add: mbrtoc16_def mbrtoc16_char_def word_le_nat_alt ps_def Let_def del: of_nat_add)
    moreover have "mbrtoc16 src m ps = Some (PENDING, Some (of_nat (0xdc00 + l)), mbinit, None)"
      using ucast_of_nat_32 [of "0xdc00 + l", where 'a = 16] lt by (simp add: mbrtoc16_def ps_def PEND_LOW_def del: of_nat_add)
    moreover have "utf16 (unat c) = [unat (of_nat (0xd800 + h) :: u16), unat (of_nat (0xdc00 + l) :: u16)]"
      using False lt unat_of_nat_16 by (simp add: utf16_def h_def l_def del: of_nat_add)
    moreover note c16rtomb_pair [OF lt, unfolded c encode]
    ultimately show ?thesis using False by auto
  qed
qed

theorem mbrtoc16_c16rtomb_witness:
  "scalar (unat (0x1f600 :: u32)) \<and> enc 0x1f600 = [0xf0, 0x9f, 0x98, 0x80] \<and> utf16 0x1f600 = [0xd83d, 0xde00] \<and>
   (\<exists>hi lo ps ps'. utf16 0x1f600 = [unat hi, unat lo] \<and>
      mbrtoc16 (Some (enc 0x1f600 @ [])) 4 mbinit = Some (MB 4, Some hi, ps, None) \<and>
      mbrtoc16 None 0 ps = Some (PENDING, Some lo, mbinit, None) \<and>
      c16rtomb True hi mbinit = (Inr [], ps') \<and> c16rtomb True lo ps' = (Inr (enc 0x1f600), mbinit))"
proof -
  have s: "scalar (unat (0x1f600 :: u32))" "enc 0x1f600 = [0xf0, 0x9f, 0x98, 0x80]" "utf16 0x1f600 = [0xd83d, 0xde00]"
    by (simp_all add: scalar_def enc_def utf8_def utf16_def)
  then have "length (enc 0x1f600) \<le> 4" by simp
  from mbrtoc16_c16rtomb [OF s(1) this, of "[]" None 0] s show ?thesis by simp
qed

subsection \<open>UTF-8 units\<close>

text \<open>\<open>c8rtomb\<close> on the bytes one after another, and the pending bytes of \<open>mbrtoc8\<close>.\<close>

fun c8_run :: "mbstate \<Rightarrow> u8 list \<Rightarrow> ((errno + nat \<times> u8 list) list \<times> mbstate) option" where
  "c8_run ps [] = Some ([], ps)"
| "c8_run ps (b # bs) = do {
     (r, ps) \<leftarrow> c8rtomb True b ps;
     (rs, ps) \<leftarrow> c8_run ps bs;
     Some (r # rs, ps) }"

fun c8_pending :: "nat \<Rightarrow> mbstate \<Rightarrow> ((mbret \<times> u8 option) list \<times> mbstate) option" where
  "c8_pending 0 ps = Some ([], ps)"
| "c8_pending (Suc k) ps = do {
     (r, b, ps, _) \<leftarrow> mbrtoc8 None 0 ps;
     (rs, ps) \<leftarrow> c8_pending k ps;
     Some ((r, b) # rs, ps) }"

lemma unpack_bytes:
  "ucast (ucast (a :: u8) :: u32) = a"
  "ucast (ucast (a :: u8) OR push_bit 8 (ucast (b :: u8)) :: u32) = a"
  "ucast (drop_bit 8 (ucast (a :: u8) OR push_bit 8 (ucast (b :: u8)) :: u32)) = b"
  "ucast ((ucast (a :: u8) OR push_bit 8 (ucast (b :: u8))) OR push_bit 16 (ucast (c :: u8)) :: u32) = a"
  "ucast (drop_bit 8 ((ucast (a :: u8) OR push_bit 8 (ucast (b :: u8))) OR push_bit 16 (ucast (c :: u8)) :: u32)) = b"
  "ucast (drop_bit 16 ((ucast (a :: u8) OR push_bit 8 (ucast (b :: u8))) OR push_bit 16 (ucast (c :: u8)) :: u32)) = c"
  by (rule bit_word_eqI, auto simp: bit_simps dest: bit_imp_le_length)+

lemma flag_bits:
  "(PEND_C8IN OR 1) AND PEND_C8IN \<noteq> 0" "(PEND_C8IN OR 2) AND PEND_C8IN \<noteq> 0" "(PEND_C8IN OR 3) AND PEND_C8IN \<noteq> 0"
  "unat ((PEND_C8IN OR 1) AND 3) = 1" "unat ((PEND_C8IN OR 2) AND 3) = 2" "unat ((PEND_C8IN OR 3) AND 3) = 3"
  by (simp_all add: PEND_C8IN_def)

lemma nat_2_3_4: "(2 :: nat) = Suc (Suc 0)" "(3 :: nat) = Suc (Suc (Suc 0))" "(4 :: nat) = Suc (Suc (Suc (Suc 0)))"
  by simp_all

text \<open>A byte after the first, when what has been given so far is a prefix of a sequence.\<close>

lemma c8rtomb_next:
  assumes "nn ps = PEND_C8IN OR of_nat (length bs)" "1 \<le> length bs" "length bs \<le> 3"
    "map (\<lambda>i. ucast (drop_bit (8 * i) (st ps))) [0..<length bs] = bs"
    "need = (if unat (hd bs) < 0xe0 then 2 else if unat (hd bs) < 0xf0 then 3 else 4)"
    "mbrtowc (Some (bs @ [c])) (length bs + 1) mbinit = Some (r, w)" "length bs + 1 \<le> need"
  shows "c8rtomb True c ps = Some (if r = ILSEQ then (Inl EILSEQ, mbinit)
    else if length bs + 1 < need then
      (Inr (0, []), \<lparr> st = st ps OR push_bit (8 * length bs) (ucast c), nn = PEND_C8IN OR of_nat (length bs + 1) \<rparr>)
    else (Inr (need, bs @ [c]), mbinit))"
proof -
  consider "length bs = 1" | "length bs = 2" | "length bs = 3" using assms(2,3) by linarith
  then have "nn ps AND PEND_C8IN \<noteq> 0 \<and> unat (nn ps AND 3) = length bs"
    by cases (use assms(1) flag_bits in auto)
  moreover have "hd (bs @ [c]) = hd bs" "bs \<noteq> []" using assms(2) by (cases bs; simp)+
  ultimately show ?thesis
    using assms unfolding c8rtomb_def by (auto simp: Let_def word_less_nat_alt split: prod.splits)
qed

text \<open>A proper prefix of a sequence is incomplete, not wrong.\<close>

lemma mb_cont_short:
  "length bs < need \<Longrightarrow> i \<le> length s \<Longrightarrow> drop i s = bs \<Longrightarrow> \<forall>b \<in> set bs. 0x80 \<le> unat b \<and> unat b < 0xc0 \<Longrightarrow>
   (lead \<noteq> 0 \<and> bs \<noteq> [] \<longrightarrow> second_lo (unat lead) \<le> unat (hd bs) \<and> unat (hd bs) \<le> second_hi (unat lead)) \<Longrightarrow>
   \<exists>ps. mb_cont s (length s) i c need lead = Some (INCOMPLETE, None, ps, None)"
proof (induction bs arbitrary: i c need lead)
  case Nil
  then show ?case by (cases need) auto
next
  case (Cons b bs)
  obtain m where need: "need = Suc m" using Cons.prems(1) by (cases need) auto
  have i: "i < length s" using Cons.prems(3) by (metis drop_all linorder_not_le list.distinct(1))
  then have b: "s ! i = b" "drop (Suc i) s = bs" using Cons.prems(3) by (simp_all add: Cons_nth_drop_Suc [symmetric])
  have "mb_cont s (length s) i c (Suc m) lead =
      mb_cont s (length s) (Suc i) (push_bit 6 c OR (ucast (s ! i) AND 0x3f)) m 0"
    by (rule mb_step [OF i i]) (use Cons.prems b in auto)
  then show ?case unfolding need using Cons.IH [of m "Suc i" 0] Cons.prems b i need by auto
qed

lemma wf_seq_prefix:
  assumes "wf_seq (p @ q)" "p \<noteq> []" "q \<noteq> []"
  shows "\<exists>ps. mbrtowc (Some p) (length p) mbinit = Some (INCOMPLETE, None, ps, None)"
proof -
  obtain b bs where p: "p = b # bs" using assms(2) by (cases p) auto
  have wf: "\<not> unat b < 0x80" "0 < lead_need (unat b)" "length (bs @ q) = lead_need (unat b)"
    "\<forall>x \<in> set (bs @ q). 0x80 \<le> unat x \<and> unat x < 0xc0"
    "second_lo (unat b) \<le> unat (hd (bs @ q))" "unat (hd (bs @ q)) \<le> second_hi (unat b)"
    using assms(1,3) p by (auto simp: wf_seq_def split: if_splits)
  moreover have "length bs < lead_need (unat b)" using wf(3) assms(3) by (cases q) auto
  moreover have "bs \<noteq> [] \<longrightarrow> hd (bs @ q) = hd bs" by simp
  ultimately have "\<exists>ps. mb_cont p (length p) 1 (lead_bits b) (lead_need (unat b)) (ucast b) = Some (INCOMPLETE, None, ps, None)"
    using p by (intro mb_cont_short [where bs = bs]) auto
  then show ?thesis using mbrtowc_first [OF p, of "length p"] p wf(1,2) by simp
qed

lemma c8_run_wf:
  assumes "wf_seq bs"
  shows "c8_run mbinit bs = Some (replicate (length bs - 1) (Inr (0, [])) @ [Inr (length bs, bs)], mbinit)"
proof -
  have whole: "\<exists>w k. mbrtowc (Some bs) (length bs) mbinit = Some (MB k, w)"
    using mbrtowc_wf [OF assms, of "length bs" "[]"] by auto
  have zero: "nn mbinit AND PEND_C8IN = 0" by (simp add: mbinit_def)
  from assms show ?thesis
  proof (cases rule: wf_seq_cases)
    case (1 b)
    then show ?thesis using zero by (simp add: c8rtomb_def word_less_nat_alt)
  next
    case (2 b x)
    have "c8rtomb True b mbinit = Some (Inr (0, []), \<lparr> st = ucast b, nn = PEND_C8IN OR 1 \<rparr>)"
      using 2 zero by (simp add: c8rtomb_def word_less_nat_alt)
    moreover obtain w k where "mbrtowc (Some [b, x]) 2 mbinit = Some (MB k, w)" using whole 2 by (auto simp: nat_2_3_4)
    then have "c8rtomb True x \<lparr> st = ucast b, nn = PEND_C8IN OR 1 \<rparr> = Some (Inr (2, [b, x]), mbinit)"
      using c8rtomb_next [of "\<lparr> st = ucast b, nn = PEND_C8IN OR 1 \<rparr>" "[b]" 2 x "MB k" w] 2 by (simp add: unpack_bytes nat_2_3_4 upt_rec del: drop_bit_or)
    ultimately show ?thesis using 2 by (simp add: nat_2_3_4)
  next
    case (3 b x y)
    let ?s1 = "\<lparr> st = ucast b, nn = PEND_C8IN OR 1 \<rparr>"
    let ?s2 = "\<lparr> st = ucast b OR push_bit 8 (ucast x), nn = PEND_C8IN OR 2 \<rparr>"
    have "c8rtomb True b mbinit = Some (Inr (0, []), ?s1)"
      using 3 zero by (simp add: c8rtomb_def word_less_nat_alt)
    moreover obtain w where "mbrtowc (Some [b, x]) 2 mbinit = Some (INCOMPLETE, w)"
      using wf_seq_prefix [of "[b, x]" "[y]"] assms 3 by (auto simp: nat_2_3_4)
    then have "c8rtomb True x ?s1 = Some (Inr (0, []), ?s2)"
      using c8rtomb_next [of ?s1 "[b]" 3 x INCOMPLETE w] 3 by (simp add: unpack_bytes nat_2_3_4 upt_rec del: drop_bit_or)
    moreover obtain w k where "mbrtowc (Some [b, x, y]) 3 mbinit = Some (MB k, w)" using whole 3 by (auto simp: nat_2_3_4)
    then have "c8rtomb True y ?s2 = Some (Inr (3, [b, x, y]), mbinit)"
      using c8rtomb_next [of ?s2 "[b, x]" 3 y "MB k" w] 3 by (simp add: unpack_bytes nat_2_3_4 upt_rec del: drop_bit_or)
    ultimately show ?thesis using 3 by (simp add: nat_2_3_4)
  next
    case (4 b x y z)
    let ?s1 = "\<lparr> st = ucast b, nn = PEND_C8IN OR 1 \<rparr>"
    let ?s2 = "\<lparr> st = ucast b OR push_bit 8 (ucast x), nn = PEND_C8IN OR 2 \<rparr>"
    let ?s3 = "\<lparr> st = (ucast b OR push_bit 8 (ucast x)) OR push_bit 16 (ucast y), nn = PEND_C8IN OR 3 \<rparr>"
    have "c8rtomb True b mbinit = Some (Inr (0, []), ?s1)"
      using 4 zero by (simp add: c8rtomb_def word_less_nat_alt)
    moreover obtain w where "mbrtowc (Some [b, x]) 2 mbinit = Some (INCOMPLETE, w)"
      using wf_seq_prefix [of "[b, x]" "[y, z]"] assms 4 by (auto simp: nat_2_3_4)
    then have "c8rtomb True x ?s1 = Some (Inr (0, []), ?s2)"
      using c8rtomb_next [of ?s1 "[b]" 4 x INCOMPLETE w] 4 by (simp add: unpack_bytes nat_2_3_4 upt_rec del: drop_bit_or)
    moreover obtain w where "mbrtowc (Some [b, x, y]) 3 mbinit = Some (INCOMPLETE, w)"
      using wf_seq_prefix [of "[b, x, y]" "[z]"] assms 4 by (auto simp: nat_2_3_4)
    then have "c8rtomb True y ?s2 = Some (Inr (0, []), ?s3)"
      using c8rtomb_next [of ?s2 "[b, x]" 4 y INCOMPLETE w] 4 by (simp add: unpack_bytes nat_2_3_4 upt_rec del: drop_bit_or)
    moreover obtain w k where "mbrtowc (Some [b, x, y, z]) 4 mbinit = Some (MB k, w)" using whole 4 by (auto simp: nat_2_3_4)
    then have "c8rtomb True z ?s3 = Some (Inr (4, [b, x, y, z]), mbinit)"
      using c8rtomb_next [of ?s3 "[b, x, y]" 4 z "MB k" w] 4 by (simp add: unpack_bytes nat_2_3_4 upt_rec del: drop_bit_or)
    ultimately show ?thesis using 4 by (simp add: nat_2_3_4)
  qed
qed

lemma byte_in:
  assumes "unat (w :: u32) < 2 ^ 24"
  shows "unat (push_bit 8 w OR ucast (b :: u8)) = unat w * 256 + unat b"
proof -
  have "push_bit 8 w OR ucast b = push_bit 8 w + (ucast b :: u32)"
    by (rule disjunctive_add_eq_or [symmetric]) (auto simp: bit_eq_iff bit_simps dest: bit_imp_le_length)
  moreover have "unat (push_bit 8 w) = unat w * 256"
    using assms by (simp add: push_bit_eq_mult unat_mult_lem [THEN iffD1])
  ultimately show ?thesis using assms byte_lt [of b] by (simp add: unat_add_lem [THEN iffD1])
qed

lemma pack_bytes_pending:
  "bs \<noteq> [] \<Longrightarrow> length bs \<le> 3 \<Longrightarrow>
   c8_pending (length bs) \<lparr> st = pack_bytes bs, nn = PEND_C8OUT OR of_nat (length bs) \<rparr> =
     Some (map (\<lambda>b. (PENDING, Some b)) bs, mbinit)"
proof (induction bs)
  case (Cons b bs)
  have low: "ucast ((push_bit 8 w OR ucast b :: u32) AND 0xff) = b" "drop_bit 8 (push_bit 8 (w :: u32) OR ucast b) = w"
    if "unat w < 2 ^ 24" for w
  proof -
    have "(0xff :: u32) = mask 8" by (simp add: mask_eq_exp_minus_1)
    then have "(push_bit 8 w OR ucast b :: u32) AND 0xff = ucast b"
      by (simp only: take_bit_eq_mask [symmetric]) (rule bit_word_eqI, auto simp: bit_simps dest: bit_imp_le_length)
    then show "ucast ((push_bit 8 w OR ucast b :: u32) AND 0xff) = b" by (simp add: unpack_bytes)
    have "take_bit 24 w = w" using that by (simp add: unat_eq_32 unsigned_take_bit_eq take_bit_nat_eq_self)
    moreover have "drop_bit 8 (push_bit 8 w OR ucast b) = take_bit 24 w"
      by (rule bit_word_eqI) (auto simp: bit_simps dest: bit_imp_le_length)
    ultimately show "drop_bit 8 (push_bit 8 w OR ucast b) = w" by simp
  qed
  have small: "length bs \<le> k \<Longrightarrow> k \<le> 3 \<Longrightarrow> unat (pack_bytes bs) < 2 ^ (8 * k)" for bs k
  proof (induction bs arbitrary: k)
    case (Cons b bs)
    then obtain m where k: "k = Suc m" by (cases k) auto
    have w: "unat (pack_bytes bs) < 2 ^ (8 * m)" using Cons k by simp
    also have "(2 :: nat) ^ (8 * m) \<le> 2 ^ 24" by (rule power_increasing) (use Cons.prems k in auto)
    finally have "unat (pack_bytes (b # bs)) = unat (pack_bytes bs) * 256 + unat b"
      using byte_in by (simp add: pack_bytes_def)
    also have "\<dots> < (unat (pack_bytes bs) + 1) * 256" using byte_lt [of b] by simp
    also have "\<dots> \<le> 2 ^ (8 * m) * 256" using w by simp
    finally show ?case using k by (simp add: power_add)
  qed (simp add: pack_bytes_def)
  have w: "unat (pack_bytes bs) < 2 ^ 24" using small [of bs 3] Cons.prems(2) by simp
  have p: "pack_bytes (b # bs) = push_bit 8 (pack_bytes bs) OR ucast b" by (simp add: pack_bytes_def)
  consider "bs = []" | "length bs = 1" | "length bs = 2" 
    using Cons.prems(2) by (cases "length bs" rule: nat.exhaust) (auto simp: le_Suc_eq numeral_3_eq_3 numeral_2_eq_2)
  then show ?case
  proof cases
    case 1
    then show ?thesis using low [OF w] p by (simp add: mbrtoc8_def PEND_C8OUT_def Let_def)
  next
    case 2
    then have "bs \<noteq> []" by auto
    then show ?thesis using Cons low [OF w] p \<open>length bs = _\<close> by (simp add: mbrtoc8_def PEND_C8OUT_def Let_def del: drop_bit_or)
  next
    case 3
    then have "bs \<noteq> []" by auto
    then show ?thesis using Cons low [OF w] p c8_pending.simps(2) [of 2] \<open>length bs = _\<close> by (simp add: mbrtoc8_def PEND_C8OUT_def Let_def del: drop_bit_or)
  qed
qed simp

text \<open>
  C23.  UTF-8 units: given the bytes of the UTF-8 form of a scalar value one by one, \<open>c8rtomb\<close>
  stores nothing for all but the last and the whole form with the last; \<open>mbrtoc8\<close> on the form
  returns its first byte and then the others in order by \<open>(size_t)-3\<close>.  Both end in the initial state.
\<close>
theorem mbrtoc8_c8rtomb:
  assumes "scalar (unat c)" "length (enc c) \<le> n"
  shows "c8_run mbinit (enc c) =
      Some (replicate (length (enc c) - 1) (Inr (0, [])) @ [Inr (length (enc c), enc c)], mbinit) \<and>
    (\<exists>ps. mbrtoc8 (Some (enc c @ r)) n mbinit =
        Some (MB (if c = 0 then 0 else length (enc c)), Some (hd (enc c)), ps, None) \<and>
      c8_pending (length (enc c) - 1) ps = Some (map (\<lambda>b. (PENDING, Some b)) (tl (enc c)), mbinit))"
proof -
  have wf: "wf_seq (enc c)" "seq_val (enc c) = unat c" using utf8_wf_seq [OF assms(1)] by (simp_all add: enc_def)
  have len: "enc c \<noteq> []" "length (enc c) \<le> 4" by (simp_all add: enc_def utf8_def)
  have dec: "mbrtowc (Some (enc c @ r)) n mbinit = Some (MB (if c = 0 then 0 else length (enc c)), Some c, mbinit, None)"
    using mbrtowc_wf [OF wf(1) assms(2), of r] wf(2) by (simp add: unsigned_eq_0_iff)
  have "wcrtomb True c = Inr (enc c)" using wcrtomb_utf8 [OF assms(1)] by (simp add: enc_def)
  moreover have "nn mbinit AND PEND_C8OUT = 0" by (simp add: mbinit_def)
  moreover define ps where "ps = (if length (enc c) > 1
      then \<lparr> st = pack_bytes (tl (enc c)), nn = PEND_C8OUT OR of_nat (length (enc c) - 1) \<rparr> else mbinit)"
  ultimately have "mbrtoc8 (Some (enc c @ r)) n mbinit =
      Some (MB (if c = 0 then 0 else length (enc c)), Some (hd (enc c)), ps, None)"
    using dec len by (simp add: mbrtoc8_def mbrtoc8_char_def)
  moreover have "c8_pending (length (enc c) - 1) ps = Some (map (\<lambda>b. (PENDING, Some b)) (tl (enc c)), mbinit)"
  proof (cases "tl (enc c) = []")
    case True
    then show ?thesis using len by (cases "enc c") (simp_all add: ps_def)
  next
    case False
    then have "length (enc c) > 1" by (cases "enc c") auto
    then show ?thesis using pack_bytes_pending [OF False] len by (simp add: ps_def)
  qed
  ultimately show ?thesis using c8_run_wf [OF wf(1)] by blast
qed

theorem mbrtoc8_c8rtomb_witness:
  "scalar (unat (0xe9 :: u32)) \<and> enc 0xe9 = [0xc3, 0xa9] \<and>
   c8_run mbinit (enc 0xe9) = Some ([Inr (0, []), Inr (2, enc 0xe9)], mbinit)"
proof -
  have s: "scalar (unat (0xe9 :: u32))" "enc 0xe9 = [0xc3, 0xa9]" by (simp_all add: scalar_def enc_def utf8_def)
  then have "length (enc 0xe9) \<le> 4" by simp
  from mbrtoc8_c8rtomb [OF s(1) this] s show ?thesis by simp
qed

text \<open>
  Without a destination \<open>c32rtomb\<close> still inspects the character: for a character that is no
  scalar value it reports \<open>EILSEQ\<close>, where \<open>wcrtomb\<close>, \<open>c16rtomb\<close> and \<open>c8rtomb\<close> with a null
  destination ignore the character and encode NUL or reset.
\<close>
lemma c32rtomb_null_destination:
  "c32rtomb False 0xd800 = Inl EILSEQ \<and> wcrtomb False 0xd800 = Inr [0] \<and>
   c16rtomb False 0xd800 mbinit = (Inr [0], mbinit) \<and> c8rtomb False 0xff mbinit = Some (Inr (1, []), mbinit)"
  by code_simp

end
