(* ===== verification/Environ.thy ===== *)
theory Environ
  imports Prelude "HOL-Library.Multiset"
begin

text \<open>
  \<^verbatim>\<open>src/env.c\<close>: the environment.  The state holds the live C strings by address, the arrays of
  string pointers by address (all their slots, the terminating null and what lies behind it
  included), the pointer \<open>__environ\<close>, the array the library itself allocated with its capacity, and
  the list of strings \<open>setenv\<close> allocated.  Freeing removes an address from the state, so touching a
  freed or unknown string or a slot past an array is a fault (\<open>None\<close>).  What the allocator answers is
  an argument of the operations; \<open>fill\<close> is what an allocated array holds before it is written.
\<close>

subsection \<open>State and operations\<close>

record env =
  strs :: "u64 \<Rightarrow> u8 list option"
  arrs :: "u64 \<Rightarrow> u64 list option"
  environ :: u64
  env_alloc :: u64
  env_cap :: nat
  owned :: "u64 list"
  owned_cap :: nat

definition eq_sign :: u8 where "eq_sign = 61"

definition name_len :: "u8 list \<Rightarrow> nat" where
  "name_len s = length (takeWhile (\<lambda>c. c \<noteq> eq_sign) s)"

text \<open>
  \<open>!strncmp(s, e, l) && e[l] == '='\<close>, for a string \<open>s\<close> of at least \<open>l\<close> bytes.
\<close>

definition is_entry :: "u8 list \<Rightarrow> nat \<Rightarrow> u8 list \<Rightarrow> bool" where
  "is_entry s l e \<longleftrightarrow> take l e = take l s \<and> l < length e \<and> e ! l = eq_sign"

text \<open>
  The loop over the slots of the array: the position of the first entry with the name and whether
  there is one, or the position of the terminator.
\<close>

fun find_entry :: "(u64 \<Rightarrow> u8 list option) \<Rightarrow> u8 list \<Rightarrow> nat \<Rightarrow> u64 list \<Rightarrow> nat \<Rightarrow> (nat \<times> u64 option) option" where
  "find_entry S s l [] n = None"
| "find_entry S s l (p # ps) n =
     (if p = 0 then Some (n, None)
      else do {
        e \<leftarrow> S p;
        if is_entry s l e then Some (n, Some p) else find_entry S s l ps (Suc n) })"

text \<open>The value is the string that starts after the sign.\<close>

definition getenv :: "env \<Rightarrow> u8 list \<Rightarrow> u8 list option option" where
  "getenv st name =
     (let l = name_len name in
      if l = 0 \<or> l \<noteq> length name \<or> environ st = 0 then Some None
      else do {
        a \<leftarrow> arrs st (environ st);
        (_, p) \<leftarrow> find_entry (strs st) name l a 0;
        case p of
          None \<Rightarrow> Some None
        | Some p \<Rightarrow> do { e \<leftarrow> strs st p; Some (Some (drop (l + 1) e)) } })"

definition secure_getenv :: "bool \<Rightarrow> env \<Rightarrow> u8 list \<Rightarrow> u8 list option option" where
  "secure_getenv secure st name = (if secure then Some None else getenv st name)"

fun is_owned :: "u64 list \<Rightarrow> u64 \<Rightarrow> nat option" where
  "is_owned [] s = None"
| "is_owned (p # ps) s = (if p = s then Some 0 else map_option Suc (is_owned ps s))"

definition release :: "u64 \<Rightarrow> env \<Rightarrow> env" where
  "release s st =
     (if s = 0 then st
      else case is_owned (owned st) s of
        None \<Rightarrow> st
      | Some i \<Rightarrow> st \<lparr> owned := butlast ((owned st)[i := last (owned st)]), strs := (strs st)(s := None) \<rparr>)"

text \<open>\<open>reallocarray\<close>: the new array, or \<open>None\<close>.\<close>

type_synonym array_alloc = "(u64 \<times> (nat \<Rightarrow> u64)) option"

definition grow_array :: "env \<Rightarrow> nat \<Rightarrow> u64 \<Rightarrow> (nat \<Rightarrow> u64) \<Rightarrow> env option" where
  "grow_array st n ne fill =
     (let cap = (if n + 2 > 16 then (n + 2) * 2 else 16) in
      if environ st = env_alloc st then do {
        old \<leftarrow> (if env_alloc st = 0 then Some [] else arrs st (env_alloc st));
        let new = take cap (old @ map fill [length old..<cap]);
        Some (st \<lparr> arrs := (arrs st)(env_alloc st := None, ne := Some new),
                   env_alloc := ne, env_cap := cap, environ := ne \<rparr>) }
      else do {
        src \<leftarrow> (if n = 0 then Some [] else arrs st (environ st));
        if n \<le> length src \<and> n \<le> cap then
          Some (st \<lparr> arrs := (arrs st)(ne := Some (take n src @ map fill [n..<cap])),
                     env_alloc := ne, env_cap := cap, environ := ne \<rparr>)
        else None })"

text \<open>The int returned, \<open>*old\<close> and the state.\<close>

definition env_put :: "env \<Rightarrow> u64 \<Rightarrow> u8 list \<Rightarrow> nat \<Rightarrow> bool \<Rightarrow> array_alloc \<Rightarrow> (int \<times> u64 \<times> env) option" where
  "env_put st p s l overwrite ra = do {
     (n, found) \<leftarrow> (if environ st \<noteq> 0 then do { a \<leftarrow> arrs st (environ st); find_entry (strs st) s l a 0 } else Some (0, None));
     case found of
       Some e \<Rightarrow>
         if overwrite then do {
           a \<leftarrow> arrs st (environ st);
           Some (0, e, st \<lparr> arrs := (arrs st)(environ st := Some (a[n := p])) \<rparr>) }
         else Some (0, 0, st)
     | None \<Rightarrow>
         if environ st \<noteq> env_alloc st \<or> n + 2 > env_cap st then
           case ra of
             None \<Rightarrow> Some (- 1, 0, st)
           | Some (ne, fill) \<Rightarrow> do {
               st \<leftarrow> grow_array st n ne fill;
               a \<leftarrow> arrs st (environ st);
               if n + 1 < length a then Some (0, 0, st \<lparr> arrs := (arrs st)(environ st := Some (a[n := p, n + 1 := 0])) \<rparr>)
               else None }
         else do {
           a \<leftarrow> arrs st (environ st);
           if n + 1 < length a then Some (0, 0, st \<lparr> arrs := (arrs st)(environ st := Some (a[n := p, n + 1 := 0])) \<rparr>)
           else None } }"

text \<open>
  \<open>ms\<close>: the answer of \<open>malloc\<close>; \<open>mo\<close>: whether the list of owned strings can grow; \<open>ra\<close>: the answer for
  the array.
\<close>

definition setenv ::
    "env \<Rightarrow> u8 list \<Rightarrow> u8 list \<Rightarrow> bool \<Rightarrow> u64 option \<Rightarrow> bool \<Rightarrow> array_alloc \<Rightarrow> (int \<times> errno option \<times> env) option" where
  "setenv st name value overwrite ms mo ra =
     (let l = name_len name in
      if l = 0 \<or> l \<noteq> length name then Some (- 1, Some EINVAL, st)
      else do {
        there \<leftarrow> (if overwrite then Some None else getenv st name);
        if there \<noteq> None then Some (0, None, st)
        else case ms of
          None \<Rightarrow> Some (- 1, Some ENOMEM, st)
        | Some p \<Rightarrow> do {
            let s = take l name @ eq_sign # value;
            let st1 = st \<lparr> strs := (strs st)(p := Some s) \<rparr>;
            let grow = (length (owned st) = owned_cap st);
            if grow \<and> \<not> mo then Some (- 1, Some ENOMEM, st1 \<lparr> strs := (strs st1)(p := None) \<rparr>)
            else do {
              let st2 = (if grow then st1 \<lparr> owned_cap := (if owned_cap st \<noteq> 0 then owned_cap st * 2 else 16) \<rparr> else st1);
              (r, old, st3) \<leftarrow> env_put st2 p s l True ra;
              if r \<noteq> 0 then Some (- 1, Some ENOMEM, st3 \<lparr> strs := (strs st3)(p := None) \<rparr>)
              else Some (0, None, release old (st3 \<lparr> owned := owned st3 @ [p] \<rparr>)) } } })"





fun release_all :: "u64 list \<Rightarrow> env \<Rightarrow> env option" where
  "release_all [] st = None"
| "release_all (p # ps) st = (if p = 0 then Some st else release_all ps (release p st))"

definition clearenv :: "env \<Rightarrow> (int \<times> env) option" where
  "clearenv st = do {
     st \<leftarrow> (if environ st \<noteq> 0 then do { a \<leftarrow> arrs st (environ st); release_all a st } else Some st);
     Some (0, st \<lparr> arrs := (if env_alloc st = 0 then arrs st else (arrs st)(env_alloc st := None)),
                  env_alloc := 0, env_cap := 0, environ := 0 \<rparr>) }"

definition setprogname :: "u8 list \<Rightarrow> u8 list" where
  "setprogname name = rev (takeWhile (\<lambda>c. c \<noteq> 47) (rev name))"

subsection \<open>The entries and their contents\<close>

abbreviation entries :: "u64 list \<Rightarrow> u64 list" where
  "entries a \<equiv> takeWhile (\<lambda>p. p \<noteq> 0) a"

definition env_entries :: "env \<Rightarrow> u64 list" where
  "env_entries st = (if environ st = 0 then [] else case arrs st (environ st) of None \<Rightarrow> [] | Some a \<Rightarrow> entries a)"

definition contents :: "env \<Rightarrow> u8 list list" where
  "contents st = map (\<lambda>p. the (strs st p)) (env_entries st)"

text \<open>The reference: a list of strings with replacement of the first entry of a name.\<close>

fun put_entry :: "u8 list \<Rightarrow> nat \<Rightarrow> u8 list list \<Rightarrow> u8 list list" where
  "put_entry s l [] = [s]"
| "put_entry s l (c # cs) = (if is_entry s l c then s # cs else c # put_entry s l cs)"

definition lookup_entry :: "u8 list \<Rightarrow> u8 list list \<Rightarrow> u8 list option" where
  "lookup_entry name cs = map_option (drop (length name + 1)) (List.find (is_entry name (length name)) cs)"

definition valid_name :: "u8 list \<Rightarrow> bool" where
  "valid_name n \<longleftrightarrow> n \<noteq> [] \<and> eq_sign \<notin> set n"

lemma valid_name_len: "valid_name n \<longleftrightarrow> \<not> (name_len n = 0 \<or> name_len n \<noteq> length n)"
proof -
  have "length (takeWhile P n) = length n \<longleftrightarrow> (\<forall>c \<in> set n. P c)" for P
    by (metis takeWhile_eq_all_conv takeWhile_eq_take take_all_iff nle_le)
  then have "name_len n = length n \<longleftrightarrow> eq_sign \<notin> set n" by (auto simp: name_len_def)
  moreover have "name_len n \<le> length n" by (simp add: name_len_def length_takeWhile_le)
  ultimately show ?thesis by (auto simp: valid_name_def)
qed

lemma name_len_valid: "valid_name n \<Longrightarrow> name_len n = length n"
  using valid_name_len by blast

lemma entry_unique:
  assumes "valid_name n" "valid_name n'" "is_entry n (length n) e" "is_entry n' (length n') e"
  shows "n = n'"
proof -
  have n: "take (length n) e = n" "e ! length n = eq_sign" "length n < length e"
    "take (length n') e = n'" "e ! length n' = eq_sign" "length n' < length e"
    using assms(3,4) by (simp_all add: is_entry_def)
  have "\<not> length n < length n'" "\<not> length n' < length n"
    using assms(1,2) n by (metis nth_mem nth_take valid_name_def)+
  then have "length n = length n'" by simp
  then show ?thesis using n by metis
qed

lemma is_entry_name: "valid_name n \<Longrightarrow> is_entry (n @ eq_sign # v) (length n) e \<longleftrightarrow> is_entry n (length n) e"
  by (simp add: is_entry_def)

lemma is_entry_own: "is_entry n (length n) (n @ eq_sign # v)"
  by (simp add: is_entry_def)

lemma lookup_put_entry:
  assumes "valid_name n" "valid_name n'"
  shows "lookup_entry n' (put_entry (n @ eq_sign # v) (length n) cs) = (if n' = n then Some v else lookup_entry n' cs)"
proof (induction cs)
  case Nil
  show ?case using assms entry_unique [of n' n] is_entry_own [of n v]
    by (auto simp: lookup_entry_def)
next
  case (Cons c cs)
  show ?case
    using Cons entry_unique [OF assms(2,1), of c] entry_unique [OF assms(2,1), of "n @ eq_sign # v"] is_entry_own [of n v]
    by (auto simp: lookup_entry_def is_entry_name [OF assms(1)])
qed


lemma put_entry_idx:
  "put_entry s l cs = (let i = length (takeWhile (\<lambda>c. \<not> is_entry s l c) cs) in
     if i < length cs then cs[i := s] else cs @ [s])"
  by (induction cs) (auto simp: Let_def)

lemma find_idx:
  "List.find P cs = (let i = length (takeWhile (\<lambda>c. \<not> P c) cs) in if i < length cs then Some (cs ! i) else None)"
  by (induction cs) (auto simp: Let_def)

lemma find_entry_idx:
  assumes "0 \<in> set a" "\<forall>p \<in> set (entries a). S p \<noteq> None"
  shows "find_entry S s l a n = (let i = length (takeWhile (\<lambda>c. \<not> is_entry s l c) (map (\<lambda>p. the (S p)) (entries a))) in
    Some (n + i, if i < length (entries a) then Some (entries a ! i) else None))"
  using assms
proof (induction a arbitrary: n)
  case (Cons p a)
  show ?case
  proof (cases "p = 0")
    case False
    then obtain e where "S p = Some e" using Cons.prems(2) by auto
    moreover have "0 \<in> set a" "\<forall>p \<in> set (entries a). S p \<noteq> None" using Cons.prems False by auto
    ultimately show ?thesis using Cons.IH [of "Suc n"] False by (simp add: Let_def)
  qed simp
qed simp

subsection \<open>The list of owned strings\<close>

lemma is_owned_Some: "is_owned xs s = Some i \<Longrightarrow> i < length xs \<and> xs ! i = s"
  by (induction xs arbitrary: i) (auto split: if_splits)

lemma is_owned_None: "is_owned xs s = None \<longleftrightarrow> s \<notin> set xs"
  by (induction xs) auto

lemma swap_remove: "i < length xs \<Longrightarrow> mset (butlast (xs[i := last xs])) = mset xs - {#xs ! i#}"
proof (cases xs rule: rev_cases)
  case (snoc ys y)
  assume i: "i < length xs"
  show ?thesis
  proof (cases "i = length ys")
    case False
    then have "i < length ys" using i snoc by simp
    then show ?thesis using snoc by (simp add: list_update_append nth_append mset_update add_mset_commute)
  qed (simp add: snoc)
qed simp

lemma release_facts [simp]:
  "arrs (release p st) = arrs st" "environ (release p st) = environ st" "env_alloc (release p st) = env_alloc st"
  "env_cap (release p st) = env_cap st" "owned_cap (release p st) = owned_cap st" "env_entries (release p st) = env_entries st"
  by (auto simp: release_def env_entries_def split: option.splits)

lemma release_owned:
  "0 \<notin> set (owned st) \<Longrightarrow> mset (owned (release p st)) = mset (owned st) - {#p#} \<and>
     strs (release p st) = (if p \<in> set (owned st) then (strs st)(p := None) else strs st)"
  using is_owned_None [of "owned st" p] is_owned_Some [of "owned st" p] swap_remove [of _ "owned st"]
  by (auto simp: release_def diff_single_trivial split: option.splits)

text \<open>The strings the library does not own.\<close>

definition foreign :: "env \<Rightarrow> u64 \<Rightarrow> u8 list option" where
  "foreign st q = (if q \<in> set (owned st) then None else strs st q)"

lemma release_foreign: "0 \<notin> set (owned st) \<Longrightarrow> foreign (release p st) = foreign st"
proof
  fix q
  assume "0 \<notin> set (owned st)"
  note r = release_owned [OF this, of p]
  have "q \<noteq> p \<Longrightarrow> count (mset (owned (release p st))) q = count (mset (owned st)) q" using r by simp
  then have "q \<noteq> p \<Longrightarrow> q \<in> set (owned (release p st)) \<longleftrightarrow> q \<in> set (owned st)" by (metis count_mset_0_iff)
  moreover have "set (owned (release p st)) \<subseteq> set (owned st)"
    using r by (metis diff_subset_eq_self mset_subset_eqD set_mset_mset subsetI)
  ultimately show "foreign (release p st) q = foreign st q" using r by (cases "q = p") (auto simp: foreign_def)
qed

subsection \<open>The invariant\<close>

text \<open>
  The arrays: \<open>__environ\<close> is null or a terminated array, and \<open>env_cap\<close> is the size of the array the
  library owns.
\<close>

definition wf_arrays :: "env \<Rightarrow> bool" where
  "wf_arrays st \<longleftrightarrow>
     (environ st \<noteq> 0 \<longrightarrow> (\<exists>a. arrs st (environ st) = Some a \<and> 0 \<in> set a)) \<and>
     (if env_alloc st = 0 then env_cap st = 0 else \<exists>a. arrs st (env_alloc st) = Some a \<and> length a = env_cap st)"

text \<open>
  Every entry is a live string, and every string the library allocated and has not freed is exactly
  one entry: nothing is freed twice, used after it was freed, or lost.
\<close>

definition wf_env :: "env \<Rightarrow> bool" where
  "wf_env st \<longleftrightarrow> wf_arrays st \<and> (\<forall>p \<in> set (env_entries st). strs st p \<noteq> None) \<and>
     0 \<notin> set (owned st) \<and> length (owned st) \<le> owned_cap st \<and>
     (\<forall>p \<in> set (owned st). count (mset (owned st)) p = 1 \<and> count (mset (env_entries st)) p = 1)"

lemma env_entries_arr: "environ st \<noteq> 0 \<Longrightarrow> arrs st (environ st) = Some a \<Longrightarrow> env_entries st = entries a"
  by (simp add: env_entries_def)

lemma entries_lt: "0 \<in> set a \<Longrightarrow> length (entries a) < length a"
  by (induction a) auto

lemma entries_take: "take (length (entries a)) a = entries a"
  by (rule takeWhile_eq_take [symmetric])

lemma entries_update: "i < length (entries a) \<Longrightarrow> p \<noteq> 0 \<Longrightarrow> entries (a[i := p]) = (entries a)[i := p]"
  by (induction a arbitrary: i) (auto split: nat.splits if_splits)

lemma entries_append:
  assumes "\<forall>q \<in> set (take n a). q \<noteq> 0" "n + 1 < length a" "p \<noteq> 0"
  shows "entries (a[n := p, n + 1 := 0]) = take n a @ [p]"
proof -
  have "a[n := p, n + 1 := 0] = take n a @ p # 0 # drop (n + 2) a"
    using assms(2) by (simp add: upd_conv_take_nth_drop take_Suc_conv_app_nth list_update_append)
  then show ?thesis using assms(1,3) by (simp add: takeWhile_append2)
qed

lemma getenv_contents:
  assumes "wf_env st" "valid_name name"
  shows "getenv st name = Some (lookup_entry name (contents st))"
proof (cases "environ st = 0")
  case True
  then show ?thesis by (simp add: getenv_def contents_def env_entries_def lookup_entry_def Let_def)
next
  case False
  then obtain a where a: "arrs st (environ st) = Some a" "0 \<in> set a"
    using assms(1) by (auto simp: wf_env_def wf_arrays_def)
  have e: "env_entries st = entries a" by (rule env_entries_arr [OF False a(1)])
  have live: "\<forall>p \<in> set (entries a). strs st p \<noteq> None" using assms(1) e by (simp add: wf_env_def)
  define i where "i = length (takeWhile (\<lambda>c. \<not> is_entry name (length name) c) (map (\<lambda>p. the (strs st p)) (entries a)))"
  have find: "find_entry (strs st) name (length name) a 0 = Some (i, if i < length (entries a) then Some (entries a ! i) else None)"
    "List.find (is_entry name (length name)) (contents st) =
       (if i < length (entries a) then Some (the (strs st (entries a ! i))) else None)"
    using find_entry_idx [OF a(2) live, of name "length name" 0]
    by (simp_all add: find_idx contents_def e i_def Let_def)
  have name: "name_len name = length name" "length name \<noteq> 0" using name_len_valid [OF assms(2)] assms(2) by (simp_all add: valid_name_def)
  show ?thesis
  proof (cases "i < length (entries a)")
    case True
    then obtain v where "strs st (entries a ! i) = Some v" using live nth_mem by blast
    then show ?thesis using a(1) False find True name by (simp add: getenv_def lookup_entry_def)
  next
    case no: False
    then show ?thesis using a(1) False find name by (simp add: getenv_def lookup_entry_def)
  qed
qed

subsection \<open>Adding an entry\<close>

lemma grow_array_ok:
  assumes "wf_arrays st" "n = length (env_entries st)" "environ st \<noteq> env_alloc st \<or> n + 2 > env_cap st"
  shows "\<exists>st' a. grow_array st n ne fill = Some st' \<and> arrs st' ne = Some a \<and> environ st' = ne \<and> env_alloc st' = ne \<and>
    env_cap st' = length a \<and> n + 2 \<le> length a \<and> take n a = env_entries st \<and>
    strs st' = strs st \<and> owned st' = owned st \<and> owned_cap st' = owned_cap st"
proof -
  define cap where "cap = (if n + 2 > 16 then (n + 2) * 2 else 16)"
  have cap: "n + 2 \<le> cap" by (simp add: cap_def)
  show ?thesis
  proof (cases "environ st = env_alloc st")
    case own: True
    obtain old where old: "(if env_alloc st = 0 then Some [] else arrs st (env_alloc st)) = Some old"
      "n \<le> length old" "length old \<le> n + 1" "take n old = env_entries st"
    proof (cases "env_alloc st = 0")
      case True
      then show thesis using that [of "[]"] own assms(2) by (simp add: env_entries_def)
    next
      case False
      then obtain a where a: "arrs st (env_alloc st) = Some a" "length a = env_cap st" "0 \<in> set a"
        using assms(1) own by (auto simp: wf_arrays_def)
      then have "env_entries st = entries a" using env_entries_arr own False by metis
      then show thesis using that [of a] a False assms(2,3) own entries_lt [of a] entries_take [of a] by simp
    qed
    let ?new = "take cap (old @ map fill [length old..<cap])"
    have "length old \<le> cap" using old(3) cap by simp
    then have new: "?new = old @ map fill [length old..<cap]" by simp
    have "length ?new = cap" "take n ?new = env_entries st" unfolding new using old(2-4) \<open>length old \<le> cap\<close> by simp_all
    then show ?thesis unfolding grow_array_def cap_def [symmetric] Let_def using own old(1) cap new by simp
  next
    case other: False
    obtain src where src: "(if n = 0 then Some [] else arrs st (environ st)) = Some src"
      "n \<le> length src" "take n src = env_entries st"
    proof (cases "n = 0")
      case True
      then show thesis using that [of "[]"] assms(2) by simp
    next
      case False
      then have "environ st \<noteq> 0" using assms(2) by (auto simp: env_entries_def)
      then obtain a where a: "arrs st (environ st) = Some a" "0 \<in> set a" using assms(1) by (auto simp: wf_arrays_def)
      have "env_entries st = entries a" by (rule env_entries_arr [OF \<open>environ st \<noteq> 0\<close> a(1)])
      then show thesis using that [of a] a False assms(2) entries_lt [OF a(2)] entries_take [of a] by simp
    qed
    then show ?thesis unfolding grow_array_def cap_def [symmetric] Let_def using other cap assms(2) by simp
  qed
qed

text \<open>Where the entry of the name is, or would be.\<close>

definition entry_index :: "env \<Rightarrow> u8 list \<Rightarrow> nat \<Rightarrow> nat" where
  "entry_index st s l = length (takeWhile (\<lambda>c. \<not> is_entry s l c) (contents st))"

lemma env_put_ok:
  assumes "wf_arrays st" "\<forall>q \<in> set (env_entries st). strs st q \<noteq> None" "p \<noteq> 0"
    and ra: "\<And>ne fill. ra = Some (ne, fill) \<Longrightarrow> ne \<noteq> 0"
  shows "\<exists>r old st'. env_put st p s l True ra = Some (r, old, st') \<and>
    (r = 0 \<or> r = - 1 \<and> ra = None \<and> st' = st) \<and>
    (r = - 1 \<longleftrightarrow> ra = None \<and> entry_index st s l = length (env_entries st) \<and>
      (environ st \<noteq> env_alloc st \<or> length (env_entries st) + 2 > env_cap st)) \<and>
    wf_arrays st' \<and> strs st' = strs st \<and> owned st' = owned st \<and> owned_cap st' = owned_cap st \<and>
    (r = 0 \<longrightarrow> (if entry_index st s l < length (env_entries st)
       then env_entries st' = (env_entries st)[entry_index st s l := p] \<and> old = env_entries st ! entry_index st s l
       else env_entries st' = env_entries st @ [p] \<and> old = 0))"
proof -
  let ?i = "entry_index st s l" and ?n = "length (env_entries st)"
  have le: "?i \<le> ?n" by (simp add: entry_index_def contents_def length_takeWhile_le order_trans [OF length_takeWhile_le])
  have find: "(if environ st \<noteq> 0 then do { a \<leftarrow> arrs st (environ st); find_entry (strs st) s l a 0 } else Some (0, None)) =
      Some (?i, if ?i < ?n then Some (env_entries st ! ?i) else None)"
  proof (cases "environ st = 0")
    case True
    then show ?thesis by (simp add: entry_index_def contents_def env_entries_def)
  next
    case False
    then obtain a where a: "arrs st (environ st) = Some a" "0 \<in> set a" using assms(1) by (auto simp: wf_arrays_def)
    have e: "env_entries st = entries a" by (rule env_entries_arr [OF False a(1)])
    show ?thesis using find_entry_idx [OF a(2), of "strs st" s l 0] assms(2) a False
      by (simp add: e entry_index_def contents_def Let_def)
  qed
  have append: "\<exists>st'. Some (0, 0, t \<lparr> arrs := (arrs t)(environ t := Some (a[?n := p, ?n + 1 := 0])) \<rparr>) = Some (0, 0, st') \<and>
      wf_arrays st' \<and> strs st' = strs t \<and> owned st' = owned t \<and> owned_cap st' = owned_cap t \<and> env_entries st' = env_entries st @ [p]"
    if "arrs t (environ t) = Some a" "environ t \<noteq> 0" "environ t = env_alloc t" "env_cap t = length a" "?n + 2 \<le> length a"
      "take ?n a = env_entries st" for t a
  proof -
    have "\<forall>q \<in> set (take ?n a). q \<noteq> 0" using that(6) by (auto simp: env_entries_def split: if_splits option.splits dest: set_takeWhileD)
    then have "entries (a[?n := p, ?n + 1 := 0]) = take ?n a @ [p]" using entries_append assms(3) that(5) by simp
    moreover have "0 \<in> set (a[?n := p, ?n + 1 := 0])" using that(5) by (intro set_update_memI) simp
    ultimately show ?thesis using that by (auto simp: wf_arrays_def env_entries_def)
  qed
  show ?thesis
  proof (cases "?i < ?n")
    case True
    then have env: "environ st \<noteq> 0" by (auto simp: env_entries_def)
    then obtain a where a: "arrs st (environ st) = Some a" "0 \<in> set a" using assms(1) by (auto simp: wf_arrays_def)
    have e: "env_entries st = entries a" by (rule env_entries_arr [OF env a(1)])
    let ?st' = "st \<lparr> arrs := (arrs st)(environ st := Some (a[?i := p])) \<rparr>"
    have "0 \<in> set (a[?i := p])"
      using a(2) True e takeWhile_holds [of ?i "\<lambda>p. p \<noteq> 0" a] by (metis in_set_conv_nth length_list_update nth_list_update_neq)
    then have "wf_arrays ?st'" using assms(1) a by (auto simp: wf_arrays_def)
    moreover have "env_entries ?st' = (env_entries st)[?i := p]"
      using entries_update [of ?i a p] True e env assms(3) by (simp add: env_entries_def)
    ultimately show ?thesis using True find a(1) unfolding env_put_def by simp
  next
    case False
    then have n: "?i = ?n" using le by simp
    show ?thesis
    proof (cases "environ st \<noteq> env_alloc st \<or> ?n + 2 > env_cap st")
      case True
      show ?thesis
      proof (cases ra)
        case None
        then show ?thesis using True find n assms(1) unfolding env_put_def by simp
      next
        case (Some x)
        obtain ne fill where x: "x = (ne, fill)" by (cases x)
        then have ne: "ne \<noteq> 0" using ra Some by simp
        obtain t a where t: "grow_array st ?n ne fill = Some t" "arrs t ne = Some a" "environ t = ne" "env_alloc t = ne"
          "env_cap t = length a" "?n + 2 \<le> length a" "take ?n a = env_entries st"
          "strs t = strs st" "owned t = owned st" "owned_cap t = owned_cap st"
          using grow_array_ok [OF assms(1) refl True, of ne fill] by blast
        from append [of t a] t ne obtain st' where st': "st' = t \<lparr> arrs := (arrs t)(environ t := Some (a[?n := p, ?n + 1 := 0])) \<rparr>"
          "wf_arrays st'" "strs st' = strs t" "owned st' = owned t" "owned_cap st' = owned_cap t" "env_entries st' = env_entries st @ [p]"
          by auto
        have "env_put st p s l True ra = Some (0, 0, st')"
          using True find n t(1-3,6) Some x unfolding env_put_def by (simp add: st'(1))
        moreover have "ra \<noteq> None" using Some by simp
        ultimately show ?thesis using st' n t by auto
      qed
    next
      case fit: False
      then have "env_alloc st \<noteq> 0" using assms(1) by (auto simp: wf_arrays_def)
      then obtain a where a: "arrs st (environ st) = Some a" "length a = env_cap st" "environ st \<noteq> 0"
        using assms(1) fit by (auto simp: wf_arrays_def)
      have e: "env_entries st = entries a" by (rule env_entries_arr [OF a(3,1)])
      from append [of st a] a fit obtain st' where st': "st' = st \<lparr> arrs := (arrs st)(environ st := Some (a[?n := p, ?n + 1 := 0])) \<rparr>"
          "wf_arrays st'" "strs st' = strs st" "owned st' = owned st" "owned_cap st' = owned_cap st" "env_entries st' = env_entries st @ [p]"
        using e entries_take [of a] by auto
      have "env_put st p s l True ra = Some (0, 0, st')"
        using fit find n a unfolding env_put_def by (simp add: st'(1))
      then show ?thesis using st' n fit by auto
    qed
  qed
qed

subsection \<open>Replacing an entry\<close>

definition owned_ok :: "env \<Rightarrow> bool" where
  "owned_ok st \<longleftrightarrow> 0 \<notin> set (owned st) \<and>
     (\<forall>p \<in> set (owned st). count (mset (owned st)) p = 1 \<and> count (mset (env_entries st)) p = 1)"

lemma wf_env_alt: "wf_env st \<longleftrightarrow> wf_arrays st \<and> (\<forall>p \<in> set (env_entries st). strs st p \<noteq> None) \<and>
    length (owned st) \<le> owned_cap st \<and> owned_ok st"
  by (auto simp: wf_env_def owned_ok_def)

lemma entry_index_put:
  "put_entry s l (contents st) = (if entry_index st s l < length (env_entries st)
     then (contents st)[entry_index st s l := s] else contents st @ [s])"
  by (simp add: put_entry_idx entry_index_def Let_def) (simp add: contents_def)

text \<open>
  After \<open>env_put\<close> has stored \<open>p\<close>, the string it replaced is released; \<open>X\<close> is what \<open>setenv\<close> adds to the
  owned strings before.
\<close>

lemma put_release:
  assumes live: "\<forall>q \<in> set (env_entries t). strs t q \<noteq> None" and own: "owned_ok t"
    and p: "p \<noteq> 0" "strs t p = Some s" "p \<notin> set (owned t)"
    and X: "X = [] \<or> X = [p] \<and> p \<notin> set (env_entries t)"
    and same: "strs t' = strs t" "owned t' = owned t"
    and put: "if entry_index t s l < length (env_entries t)
       then env_entries t' = (env_entries t)[entry_index t s l := p] \<and> old = env_entries t ! entry_index t s l
       else env_entries t' = env_entries t @ [p] \<and> old = 0"
    and u: "u = release old (t' \<lparr> owned := owned t @ X \<rparr>)"
  shows "(\<forall>q \<in> set (env_entries u). strs u q \<noteq> None) \<and> owned_ok u \<and> contents u = put_entry s l (contents t) \<and>
    length (owned u) \<le> length (owned t) + length X"
proof -
  let ?i = "entry_index t s l" and ?w = "t' \<lparr> owned := owned t @ X \<rparr>"
  have w: "env_entries ?w = env_entries t'" "strs ?w = strs t" "owned ?w = owned t @ X"
    using same by (simp_all add: env_entries_def)
  have zero: "0 \<notin> set (owned ?w)" using own X p by (auto simp: owned_ok_def w)
  note r = release_owned [OF zero, of old, unfolded w(2,3)]
  have e: "env_entries u = env_entries t'" using u w(1) by simp
  have len: "length (owned u) \<le> length (owned t) + length X"
    using r u size_Diff_submset [of "{#old#}" "mset (owned t @ X)"]
    by (metis diff_size_le_size_Diff diff_subset_eq_self length_append size_mset size_mset_mono)
  show ?thesis
  proof (cases "?i < length (env_entries t)")
    case False
    then have "old = 0" "env_entries t' = env_entries t @ [p]" using put by simp_all
    then have "strs u = strs t" "mset (owned u) = mset (owned t @ X)" using r zero u w by (auto simp: diff_single_trivial release_def)
    moreover from this(2) have "set (owned u) = set (owned t) \<union> set X" by (metis set_append set_mset_mset)
    ultimately show ?thesis
      using False live own p X e len \<open>env_entries t' = _\<close> entry_index_put [of s l t]
      by (auto simp: owned_ok_def contents_def)
  next
    case True
    then have old: "old = env_entries t ! ?i" "env_entries t' = (env_entries t)[?i := p]" "old \<in> set (env_entries t)" using put by simp_all
    have m: "mset (env_entries t') = add_mset p (mset (env_entries t) - {#old#})"
      using old(1,2) True by (simp add: mset_update)
    have cnt: "count (mset (env_entries t')) q = (if q = p then 1 else 0) + count (mset (env_entries t)) q - (if q = old then 1 else 0)" for q
      using old(3) unfolding m by (auto simp: Suc_le_eq)
    have gone: "old \<notin> set (env_entries t')" if "old \<in> set (owned t)"
      using that cnt [of old] own p(3) by (auto simp: owned_ok_def count_eq_zero_iff split: if_splits)
    have oldX: "old \<in> set (owned t @ X) \<longleftrightarrow> old \<in> set (owned t)" using X old(3) by auto
    have su: "strs u = (if old \<in> set (owned t) then (strs t)(old := None) else strs t)" using r u oldX by simp
    have sub: "set (env_entries t') \<subseteq> insert p (set (env_entries t))" unfolding old(2) by (rule set_update_subset_insert)
    have livu: "\<forall>q \<in> set (env_entries u). strs u q \<noteq> None"
    proof
      fix q assume q: "q \<in> set (env_entries u)"
      then have "strs t q \<noteq> None" using sub live p(2) e by auto
      moreover have "\<not> (old \<in> set (owned t) \<and> q = old)" using gone q e by auto
      ultimately show "strs u q \<noteq> None" using su by auto
    qed
    have c0: "q \<notin> set xs \<Longrightarrow> count (mset xs) q = 0" for q and xs :: "u64 list" by (metis count_mset_0_iff)
    have ou: "mset (owned u) = mset (owned t @ X) - {#old#}" using r u by simp
    have "owned_ok u"
      unfolding owned_ok_def
    proof (intro conjI ballI)
      have "set (owned u) \<subseteq> set (owned t @ X)" using ou by (metis diff_subset_eq_self mset_subset_eqD set_mset_mset subsetI)
      then show "0 \<notin> set (owned u)" using zero w(3) by auto
      fix q assume q: "q \<in> set (owned u)"
      then have qm: "0 < count (mset (owned t @ X) - {#old#}) q" unfolding ou [symmetric] by simp
      have one: "count (mset (owned t @ X)) q \<le> 1"
        using own X p(3) by (cases "q \<in> set (owned t)") (auto simp: owned_ok_def c0)
      have ne: "q \<noteq> old" using qm one by auto
      have "0 < count (mset (owned u)) q" using q by (metis count_mset_0_iff gr0I)
      moreover have "count (mset (owned u)) q \<le> count (mset (owned t @ X)) q" unfolding ou by (simp only: count_diff diff_le_self)
      ultimately show "count (mset (owned u)) q = 1" using one by linarith
      have "q \<in> set (owned t) \<or> X = [p] \<and> q = p" using \<open>set (owned u) \<subseteq> _\<close> q X by auto
      then show "count (mset (env_entries u)) q = 1"
        unfolding e using cnt [of q] ne own X p(3) by (auto simp: owned_ok_def c0)
    qed
    moreover have "contents u = put_entry s l (contents t)"
    proof -
      have "contents u = map (\<lambda>q. the (strs t q)) ((env_entries t)[?i := p])"
        unfolding contents_def e old(2) [symmetric] using su gone by auto
      also have "\<dots> = (contents t)[?i := s]" using p(2) by (simp add: map_update contents_def)
      finally show ?thesis using entry_index_put [of s l t] True by simp
    qed
    ultimately show ?thesis using livu len by blast
  qed
qed

subsection \<open>Removing entries\<close>

lemma fold_release_fields [simp]:
  "arrs (fold release ps st) = arrs st" "environ (fold release ps st) = environ st"
  "env_alloc (fold release ps st) = env_alloc st" "env_cap (fold release ps st) = env_cap st"
  "owned_cap (fold release ps st) = owned_cap st" "env_entries (fold release ps st) = env_entries st"
  by (induction ps arbitrary: st) simp_all

lemma fold_release:
  "0 \<notin> set (owned st) \<Longrightarrow> mset (owned (fold release ps st)) = mset (owned st) - mset ps \<and>
     strs (fold release ps st) = (\<lambda>q. if q \<in> set ps \<and> q \<in> set (owned st) then None else strs st q)"
proof (induction ps arbitrary: st)
  case (Cons p ps)
  note r = release_owned [OF Cons.prems, of p]
  have mem: "q \<in> set xs \<longleftrightarrow> count (mset xs) q \<noteq> 0" for q and xs :: "u64 list" by (simp only: count_mset_0_iff not_not)
  have sub: "q \<noteq> p \<Longrightarrow> q \<in> set (owned (release p st)) \<longleftrightarrow> q \<in> set (owned st)" for q
    unfolding mem conjunct1 [OF r] by simp
  have le: "set (owned (release p st)) \<subseteq> set (owned st)"
    using r by (metis diff_subset_eq_self mset_subset_eqD set_mset_mset subsetI)
  then have "0 \<notin> set (owned (release p st))" using Cons.prems by auto
  note ih = Cons.IH [OF this]
  have "strs (fold release (p # ps) st) q = (if q \<in> set (p # ps) \<and> q \<in> set (owned st) then None else strs st q)" for q
    using ih r sub [of q] le by (cases "q = p") auto
  moreover have "mset (owned (fold release (p # ps) st)) = mset (owned st) - mset (p # ps)" using ih r by simp
  ultimately show ?case by blast
qed simp




lemma release_all_fold: "0 \<in> set a \<Longrightarrow> release_all a st = Some (fold release (entries a) st)"
  by (induction a arbitrary: st) auto


subsection \<open>Properties\<close>

lemma env_entries_live_nonzero: "p \<in> set (env_entries st) \<Longrightarrow> p \<noteq> 0"
  by (auto simp: env_entries_def split: if_splits option.splits dest: set_takeWhileD)

lemma setenv_cases:
  assumes "valid_name name" "(if ow then Some None else getenv st name) = Some there"
  shows "there \<noteq> None \<Longrightarrow> setenv st name value ow ms mo ra = Some (0, None, st)"
    "there = None \<Longrightarrow> ms = None \<Longrightarrow> setenv st name value ow ms mo ra = Some (- 1, Some ENOMEM, st)"
    "there = None \<Longrightarrow> ms = Some p \<Longrightarrow> strs st p = None \<Longrightarrow> length (owned st) = owned_cap st \<Longrightarrow> \<not> mo \<Longrightarrow>
       setenv st name value ow ms mo ra = Some (- 1, Some ENOMEM, st)"
    "there = None \<Longrightarrow> ms = Some p \<Longrightarrow> \<not> (length (owned st) = owned_cap st \<and> \<not> mo) \<Longrightarrow>
     st2 = st \<lparr> strs := (strs st)(p := Some (name @ eq_sign # value)),
       owned_cap := (if length (owned st) = owned_cap st then (if owned_cap st \<noteq> 0 then owned_cap st * 2 else 16) else owned_cap st) \<rparr> \<Longrightarrow>
     env_put st2 p (name @ eq_sign # value) (length name) True ra = Some (r, old, st3) \<Longrightarrow>
     setenv st name value ow ms mo ra = Some
       (if r \<noteq> 0 then (- 1, Some ENOMEM, st3 \<lparr> strs := (strs st3)(p := None) \<rparr>)
        else (0, None, release old (st3 \<lparr> owned := owned st3 @ [p] \<rparr>)))"
proof -
  have valid: "name_len name \<noteq> 0" "name_len name = length name" using assms(1) name_len_valid [OF assms(1)] by (simp_all add: valid_name_def)
  have eq: "setenv st name value ow ms mo ra =
      (if there \<noteq> None then Some (0, None, st)
       else case ms of
          None \<Rightarrow> Some (- 1, Some ENOMEM, st)
        | Some p \<Rightarrow> do {
            let s = name @ eq_sign # value;
            let st1 = st \<lparr> strs := (strs st)(p := Some s) \<rparr>;
            let grow = (length (owned st) = owned_cap st);
            if grow \<and> \<not> mo then Some (- 1, Some ENOMEM, st1 \<lparr> strs := (strs st1)(p := None) \<rparr>)
            else do {
              let st2 = (if grow then st1 \<lparr> owned_cap := (if owned_cap st \<noteq> 0 then owned_cap st * 2 else 16) \<rparr> else st1);
              (r, old, st3) \<leftarrow> env_put st2 p s (length name) True ra;
              if r \<noteq> 0 then Some (- 1, Some ENOMEM, st3 \<lparr> strs := (strs st3)(p := None) \<rparr>)
              else Some (0, None, release old (st3 \<lparr> owned := owned st3 @ [p] \<rparr>)) } })"
    unfolding setenv_def Let_def assms(2) valid(2) using valid(1) [unfolded valid(2)]
    by (simp only: simp_thms if_False bind.bind_lunit take_all order_refl)
  show "there \<noteq> None \<Longrightarrow> setenv st name value ow ms mo ra = Some (0, None, st)"
    "there = None \<Longrightarrow> ms = None \<Longrightarrow> setenv st name value ow ms mo ra = Some (- 1, Some ENOMEM, st)"
    unfolding eq by simp_all
  show "there = None \<Longrightarrow> ms = Some p \<Longrightarrow> strs st p = None \<Longrightarrow> length (owned st) = owned_cap st \<Longrightarrow> \<not> mo \<Longrightarrow>
       setenv st name value ow ms mo ra = Some (- 1, Some ENOMEM, st)"
    unfolding eq by (simp add: fun_upd_idem)
  show "setenv st name value ow ms mo ra = Some
       (if r \<noteq> 0 then (- 1, Some ENOMEM, st3 \<lparr> strs := (strs st3)(p := None) \<rparr>)
        else (0, None, release old (st3 \<lparr> owned := owned st3 @ [p] \<rparr>)))"
    if h: "there = None" "ms = Some p" "\<not> (length (owned st) = owned_cap st \<and> \<not> mo)"
      "st2 = st \<lparr> strs := (strs st)(p := Some (name @ eq_sign # value)),
         owned_cap := (if length (owned st) = owned_cap st then (if owned_cap st \<noteq> 0 then owned_cap st * 2 else 16) else owned_cap st) \<rparr>"
      "env_put st2 p (name @ eq_sign # value) (length name) True ra = Some (r, old, st3)"
  proof -
    let ?st1 = "st \<lparr> strs := (strs st)(p := Some (name @ eq_sign # value)) \<rparr>"
    have st2: "(if length (owned st) = owned_cap st then ?st1 \<lparr> owned_cap := (if owned_cap st \<noteq> 0 then owned_cap st * 2 else 16) \<rparr> else ?st1) = st2"
      using h(4) by simp
    show ?thesis unfolding eq Let_def unfolding h(2) option.case st2 using h(1,3,5) by auto
  qed
qed

lemma setenv_put:
  fixes X :: "(int \<times> errno option \<times> env) option"
  assumes "wf_env st" "valid_name name" "p \<noteq> 0" "strs st p = None" "\<forall>ne fill. ra = Some (ne, fill) \<longrightarrow> ne \<noteq> 0"
    and run: "\<And>r old st3. env_put (st \<lparr> strs := (strs st)(p := Some (name @ eq_sign # value)),
       owned_cap := (if length (owned st) = owned_cap st then (if owned_cap st \<noteq> 0 then owned_cap st * 2 else 16) else owned_cap st) \<rparr>)
         p (name @ eq_sign # value) (length name) True ra = Some (r, old, st3) \<Longrightarrow>
       X = Some (if r \<noteq> 0 then (- 1, Some ENOMEM, st3 \<lparr> strs := (strs st3)(p := None) \<rparr>)
        else (0, None, release old (st3 \<lparr> owned := owned st3 @ [p] \<rparr>)))"
  shows "\<exists>r e st'. X = Some (r, e, st') \<and> wf_env st' \<and> foreign st' = foreign st \<and>
    (r = 0 \<and> e = None \<or> r = - 1 \<and> e = Some ENOMEM \<and> ra = None) \<and>
    (\<forall>n. valid_name n \<longrightarrow> getenv st' n = (if r = 0 \<and> n = name then Some (Some value) else getenv st n))"
proof -
  let ?l = "length name" and ?s = "name @ eq_sign # value"
  define st2 where "st2 = st \<lparr> strs := (strs st)(p := Some ?s),
    owned_cap := (if length (owned st) = owned_cap st then (if owned_cap st \<noteq> 0 then owned_cap st * 2 else 16) else owned_cap st) \<rparr>"
  have f2: "arrs st2 = arrs st" "environ st2 = environ st" "env_alloc st2 = env_alloc st" "env_cap st2 = env_cap st"
    "owned st2 = owned st" "strs st2 = (strs st)(p := Some ?s)" "env_entries st2 = env_entries st"
    by (simp_all add: st2_def env_entries_def)
  have cap2: "length (owned st2) < owned_cap st2" using assms(1) by (auto simp: st2_def wf_env_def)
  have pe: "p \<notin> set (env_entries st)" using assms(1,4) by (auto simp: wf_env_def)
  have po: "p \<notin> set (owned st)"
  proof
    assume "p \<in> set (owned st)"
    then have "count (mset (env_entries st)) p = 1" using assms(1) by (simp add: wf_env_def)
    then show False using pe by (metis count_mset_0_iff zero_neq_one)
  qed
  have wf2: "wf_arrays st2" "\<forall>q \<in> set (env_entries st2). strs st2 q \<noteq> None" "owned_ok st2"
    using assms(1) unfolding wf_env_alt wf_arrays_def owned_ok_def f2 by auto
  have c2: "contents st2 = contents st" unfolding contents_def f2 using pe by auto
  obtain r old st3 where put: "env_put st2 p ?s ?l True ra = Some (r, old, st3)"
    "r = 0 \<or> r = - 1 \<and> ra = None \<and> st3 = st2" "wf_arrays st3" "strs st3 = strs st2" "owned st3 = owned st2" "owned_cap st3 = owned_cap st2"
    "r = 0 \<longrightarrow> (if entry_index st2 ?s ?l < length (env_entries st2)
       then env_entries st3 = (env_entries st2)[entry_index st2 ?s ?l := p] \<and> old = env_entries st2 ! entry_index st2 ?s ?l
       else env_entries st3 = env_entries st2 @ [p] \<and> old = 0)"
    using env_put_ok [OF wf2(1,2) assms(3), of ra ?s ?l] assms(5) by blast
  note X = run [folded st2_def, OF put(1)]
  show ?thesis
  proof (cases "r = 0")
    case True
    define u where "u = release old (st3 \<lparr> owned := owned st2 @ [p] \<rparr>)"
    have s2: "strs st2 p = Some ?s" using f2(6) by simp
    have pr: "(\<forall>q \<in> set (env_entries u). strs u q \<noteq> None) \<and> owned_ok u \<and>
        contents u = put_entry ?s ?l (contents st2) \<and> length (owned u) \<le> length (owned st2) + length [p]"
      by (rule put_release [OF wf2(2,3) assms(3) s2 _ _ put(4,5) put(7) [rule_format, OF True] u_def])
        (use f2(5,7) po pe in simp_all)
    have "wf_arrays u" "owned_cap u = owned_cap st2" using put(3,6) by (simp_all add: u_def wf_arrays_def)
    then have wu: "wf_env u" using pr cap2 unfolding wf_env_alt by simp
    have "getenv u n = (if n = name then Some (Some value) else getenv st n)" if "valid_name n" for n
      using getenv_contents [OF wu that] getenv_contents [OF assms(1) that] pr lookup_put_entry [OF assms(2) that, of "value" "contents st2"] c2
      by simp
    moreover have "foreign u = foreign st"
    proof -
      have "0 \<notin> set (owned st2 @ [p])" using wf2(3) assms(3) by (simp add: owned_ok_def)
      then have "foreign u = foreign (st3 \<lparr> owned := owned st2 @ [p] \<rparr>)" unfolding u_def by (intro release_foreign) simp
      also have "\<dots> = foreign st" using put(4) f2(5,6) assms(4) by (auto simp: foreign_def fun_eq_iff)
      finally show ?thesis .
    qed
    ultimately show ?thesis using X True wu put(5) unfolding u_def by auto
  next
    case False
    then have st3: "st3 = st2" "r = - 1" "ra = None" using put(2) by auto
    define u where "u = st2 \<lparr> strs := (strs st2)(p := None) \<rparr>"
    have fu: "strs u = strs st" "env_entries u = env_entries st" "arrs u = arrs st" "environ u = environ st"
      "env_alloc u = env_alloc st" "env_cap u = env_cap st" "owned u = owned st" "owned_cap u = owned_cap st2"
      using f2 assms(4) by (simp_all add: u_def env_entries_def fun_upd_idem)
    have wu: "wf_env u" using assms(1) cap2 f2(5) unfolding wf_env_alt wf_arrays_def owned_ok_def fu by simp
    have "getenv u n = getenv st n" for n unfolding getenv_def fu ..
    moreover have "foreign u = foreign st" by (simp add: foreign_def fun_eq_iff fu)
    ultimately show ?thesis using X False wu st3 unfolding u_def by simp
  qed
qed


text \<open>
  C24.  \<open>setenv\<close> refines the update of a map, from a well-formed environment and with an allocator that
  hands out addresses not null and not in use.  A name that is empty or has a \<open>=\<close> gives \<open>EINVAL\<close> and changes
  nothing.  Otherwise it returns; on success \<open>getenv\<close> gives the new value for the name (the old one when
  there was one and overwriting was not asked for) and for every other name what it gave before; on
  failure, which happens only when an allocation fails and is reported as \<open>ENOMEM\<close>, every name keeps its
  value.  The invariant holds again and the strings the library does not own are the same as before:
  no string is freed while it is an entry, and the new string, the replaced one and the one of a failed
  call are each owned or freed, never lost.
\<close>
theorem setenv_correct:
  assumes "wf_env st" "\<forall>p. ms = Some p \<longrightarrow> p \<noteq> 0 \<and> strs st p = None"
    and "\<forall>ne fill. ra = Some (ne, fill) \<longrightarrow> ne \<noteq> 0"
  shows "if \<not> valid_name name then setenv st name value ow ms mo ra = Some (- 1, Some EINVAL, st)
    else \<exists>r e st'. setenv st name value ow ms mo ra = Some (r, e, st') \<and> wf_env st' \<and> foreign st' = foreign st \<and>
      (r = 0 \<and> e = None \<or> r = - 1 \<and> e = Some ENOMEM \<and> (ms = None \<or> \<not> mo \<or> ra = None)) \<and>
      (\<forall>n. valid_name n \<longrightarrow> getenv st' n =
         (if r = 0 \<and> n = name \<and> (ow \<or> getenv st name = Some None) then Some (Some value) else getenv st n))"
proof (cases "valid_name name")
  case False
  then show ?thesis using valid_name_len [of name] by (auto simp: setenv_def Let_def)
next
  case v: True
  have "\<exists>v. getenv st name = Some v" using getenv_contents [OF assms(1) v] by simp
  then obtain there where th: "(if ow then Some None else getenv st name) = Some there"
    "there = None \<longleftrightarrow> ow \<or> getenv st name = Some None" by (cases ow) auto
  note run = setenv_cases [OF v th(1)]
  show ?thesis
  proof (cases "there = None")
    case False
    then show ?thesis using run(1) th(2) assms(1) v by auto
  next
    case none: True
    show ?thesis
    proof (cases ms)
      case None
      then show ?thesis using run(2) none assms(1) v by auto
    next
      case (Some p)
      then have p: "p \<noteq> 0" "strs st p = None" using assms(2) by auto
      show ?thesis
      proof (cases "length (owned st) = owned_cap st \<and> \<not> mo")
        case True
        then show ?thesis using run(3) [OF none Some p(2)] assms(1) v by auto
      next
        case False
        have "\<exists>r e st'. setenv st name value ow ms mo ra = Some (r, e, st') \<and> wf_env st' \<and> foreign st' = foreign st \<and>
            (r = 0 \<and> e = None \<or> r = - 1 \<and> e = Some ENOMEM \<and> ra = None) \<and>
            (\<forall>n. valid_name n \<longrightarrow> getenv st' n = (if r = 0 \<and> n = name then Some (Some value) else getenv st n))"
          by (rule setenv_put [OF assms(1) v p assms(3)]) (rule run(4) [OF none Some False refl])
        then show ?thesis using none th(2) v by auto
      qed
    qed
  qed
qed

theorem setenv_correct_witness:
  "\<exists>st :: env. wf_env st \<and> valid_name [65] \<and> getenv st [65] = Some None \<and>
   (\<exists>r e st'. setenv st [65] [66, 67] True (Some 8) True (Some (16, \<lambda>_. 7)) = Some (r, e, st') \<and> wf_env st' \<and> r = 0 \<and>
     getenv st' [65] = Some (Some [66, 67]))"
proof -
  define st :: env where "st = \<lparr> strs = Map.empty, arrs = Map.empty, environ = 0, env_alloc = 0, env_cap = 0, owned = [], owned_cap = 0 \<rparr>"
  have wf: "wf_env st" by (simp add: st_def wf_env_def wf_arrays_def env_entries_def)
  have v: "valid_name [65]" by (simp add: valid_name_def eq_sign_def)
  have g: "getenv st [65] = Some None" by (simp add: getenv_def st_def)
  have "\<forall>p. Some (8 :: u64) = Some p \<longrightarrow> p \<noteq> 0 \<and> strs st p = None" by (simp add: st_def)
  from setenv_correct [OF wf this, of "Some (16, \<lambda>_. 7)" "[65]" "[66, 67]" True True] v wf g
  show ?thesis by fastforce
qed




text \<open>
  C26.  \<open>clearenv\<close> empties a well-formed environment and frees exactly what the library allocated: afterwards
  \<open>__environ\<close> is null, no name is found and no string is owned; every string \<open>setenv\<close> allocated is freed and
  every other string (of the initial environment, or given to \<open>putenv\<close>) is still there; the array the
  library allocated is freed, and no other array.
\<close>
theorem clearenv_correct:
  assumes "wf_env st"
  shows "\<exists>st'. clearenv st = Some (0, st') \<and> wf_env st' \<and> environ st' = 0 \<and> owned st' = [] \<and>
    (\<forall>n. getenv st' n = Some None) \<and> strs st' = (\<lambda>q. if q \<in> set (owned st) then None else strs st q) \<and>
    env_alloc st' = 0 \<and> arrs st' = (\<lambda>q. if q = env_alloc st \<and> q \<noteq> 0 then None else arrs st q)"
proof -
  have own0: "0 \<notin> set (owned st)" using assms by (simp add: wf_env_def)
  have sub: "set (owned st) \<subseteq> set (env_entries st)"
    using assms by (auto simp: wf_env_def) (metis count_mset_0_iff zero_neq_one)
  define u where "u = fold release (env_entries st) st"
  have run: "(if environ st \<noteq> 0 then do { a \<leftarrow> arrs st (environ st); release_all a st } else Some st) = Some u"
  proof (cases "environ st = 0")
    case True
    then show ?thesis by (simp add: u_def env_entries_def)
  next
    case False
    then obtain a where a: "arrs st (environ st) = Some a" "0 \<in> set a" using assms by (auto simp: wf_env_def wf_arrays_def)
    then show ?thesis using False release_all_fold [OF a(2)] env_entries_arr [OF False a(1)] by (simp add: u_def)
  qed
  have "mset (owned u) = mset (owned st) - mset (env_entries st)" "strs u = (\<lambda>q. if q \<in> set (owned st) then None else strs st q)"
    using fold_release [OF own0, of "env_entries st"] sub by (auto simp: u_def fun_eq_iff)
  moreover have "mset (owned st) \<subseteq># mset (env_entries st)"
    using assms by (intro mset_subset_eqI) (metis count_mset_0_iff le_refl wf_env_def zero_le)
  then have "mset (owned st) - mset (env_entries st) = {#}" by (simp only: Diff_eq_empty_iff_mset)
  ultimately have "owned u = []" "strs u = (\<lambda>q. if q \<in> set (owned st) then None else strs st q)"
    by simp_all
  moreover have "arrs u = arrs st" "env_alloc u = env_alloc st" by (simp_all add: u_def)
  ultimately show ?thesis unfolding clearenv_def run
    by (auto simp: wf_env_def wf_arrays_def env_entries_def getenv_def Let_def fun_eq_iff)
qed





text \<open>One with a string and an array the library allocated.\<close>

definition owning_env :: env where
  "owning_env = \<lparr> strs = [4 \<mapsto> [65, 61, 49], 5 \<mapsto> [66, 61, 50]], arrs = [9 \<mapsto> [4, 0], 7 \<mapsto> [4, 5, 0]], environ = 7, env_alloc = 7,
     env_cap = 3, owned = [5], owned_cap = 16 \<rparr>"

lemma owning_env_wf: "wf_env owning_env"
  by (auto simp: owning_env_def wf_env_def wf_arrays_def env_entries_def)


theorem clearenv_correct_witness:
  "wf_env owning_env \<and> (\<exists>st'. clearenv owning_env = Some (0, st') \<and> getenv st' [65] = Some None \<and>
     strs st' 4 = Some [65, 61, 49] \<and> strs st' 5 = None \<and> arrs st' 9 = Some [4, 0] \<and> arrs st' 7 = None)"
proof -
  have "strs owning_env 4 = Some [65, 61, 49]" "owned owning_env = [5]" "env_alloc owning_env = 7" "arrs owning_env 9 = Some [4, 0]"
    by (simp_all add: owning_env_def)
  then show ?thesis using clearenv_correct [OF owning_env_wf] owning_env_wf by auto
qed


end
