(* ===== verification/Sha2.thy ===== *)
theory Sha2
  imports Prelude
begin

text \<open>
  \<^verbatim>\<open>src/sha2.c\<close>: SHA-256 and SHA-512 with buffered input.  A context is a record of the chaining value,
  the number of bytes so far and the block buffer; data and blocks are lists of bytes.  The padding
  array of the final step has its declared size, and a store outside it is a fault (\<open>None\<close>).
\<close>

subsection \<open>SHA-256\<close>

text \<open>The tables of constants have one row for each line of the source.\<close>

record sha256 =
  h256 :: "u32 list"
  len256 :: u64
  buf256 :: "u8 list"

definition K256 :: "u32 list" where
  "K256 = concat
    [[0x428a2f98, 0x71374491, 0xb5c0fbcf, 0xe9b5dba5, 0x3956c25b, 0x59f111f1, 0x923f82a4, 0xab1c5ed5],
     [0xd807aa98, 0x12835b01, 0x243185be, 0x550c7dc3, 0x72be5d74, 0x80deb1fe, 0x9bdc06a7, 0xc19bf174],
     [0xe49b69c1, 0xefbe4786, 0x0fc19dc6, 0x240ca1cc, 0x2de92c6f, 0x4a7484aa, 0x5cb0a9dc, 0x76f988da],
     [0x983e5152, 0xa831c66d, 0xb00327c8, 0xbf597fc7, 0xc6e00bf3, 0xd5a79147, 0x06ca6351, 0x14292967],
     [0x27b70a85, 0x2e1b2138, 0x4d2c6dfc, 0x53380d13, 0x650a7354, 0x766a0abb, 0x81c2c92e, 0x92722c85],
     [0xa2bfe8a1, 0xa81a664b, 0xc24b8b70, 0xc76c51a3, 0xd192e819, 0xd6990624, 0xf40e3585, 0x106aa070],
     [0x19a4c116, 0x1e376c08, 0x2748774c, 0x34b0bcb5, 0x391c0cb3, 0x4ed8aa4a, 0x5b9cca4f, 0x682e6ff3],
     [0x748f82ee, 0x78a5636f, 0x84c87814, 0x8cc70208, 0x90befffa, 0xa4506ceb, 0xbef9a3f7, 0xc67178f2]]"

definition ror32 :: "u32 \<Rightarrow> nat \<Rightarrow> u32" where
  "ror32 x n = drop_bit n x OR push_bit (32 - n) x"

text \<open>The message schedule: sixteen big-endian words of the block, then the recurrence.\<close>

definition word256 :: "u8 list \<Rightarrow> nat \<Rightarrow> u32" where
  "word256 p i = push_bit 24 (ucast (p ! (4 * i))) OR push_bit 16 (ucast (p ! (4 * i + 1))) OR
     push_bit 8 (ucast (p ! (4 * i + 2))) OR ucast (p ! (4 * i + 3))"

definition sched256 :: "u32 list \<Rightarrow> nat \<Rightarrow> u32 list" where
  "sched256 w i =
     (let s0 = ror32 (w ! (i - 15)) 7 XOR ror32 (w ! (i - 15)) 18 XOR drop_bit 3 (w ! (i - 15));
          s1 = ror32 (w ! (i - 2)) 17 XOR ror32 (w ! (i - 2)) 19 XOR drop_bit 10 (w ! (i - 2)) in
      w @ [w ! (i - 16) + s0 + w ! (i - 7) + s1])"

type_synonym 'w regs = "'w \<times> 'w \<times> 'w \<times> 'w \<times> 'w \<times> 'w \<times> 'w \<times> 'w"

definition round256 :: "u32 list \<Rightarrow> u32 regs \<Rightarrow> nat \<Rightarrow> u32 regs" where
  "round256 w = (\<lambda>(a, b, c, d, e, f, g, h) i.
     let t1 = h + (ror32 e 6 XOR ror32 e 11 XOR ror32 e 25) + ((e AND f) XOR (NOT e AND g)) + K256 ! i + w ! i;
         t2 = (ror32 a 2 XOR ror32 a 13 XOR ror32 a 22) + ((a AND b) XOR (a AND c) XOR (b AND c)) in
     (t1 + t2, a, b, c, d + t1, e, f, g))"

text \<open>The compression of a block of 64 bytes.\<close>

definition block256 :: "u32 list \<Rightarrow> u8 list \<Rightarrow> u32 list" where
  "block256 hs p =
     (let w = foldl sched256 (map (word256 p) [0..<16]) [16..<64];
          (a, b, c, d, e, f, g, h) =
            foldl (round256 w) (hs ! 0, hs ! 1, hs ! 2, hs ! 3, hs ! 4, hs ! 5, hs ! 6, hs ! 7) [0..<64] in
      [hs ! 0 + a, hs ! 1 + b, hs ! 2 + c, hs ! 3 + d, hs ! 4 + e, hs ! 5 + f, hs ! 6 + g, hs ! 7 + h])"

definition iv256 :: "u32 list" where
  "iv256 = [0x6a09e667, 0xbb67ae85, 0x3c6ef372, 0xa54ff53a, 0x510e527f, 0x9b05688c, 0x1f83d9ab, 0x5be0cd19]"


text \<open>The loop over the whole blocks: the chaining value and the bytes left.\<close>

function blocks256 :: "u32 list \<Rightarrow> u8 list \<Rightarrow> u32 list \<times> u8 list" where
  "blocks256 hs p = (if length p \<ge> 64 then blocks256 (block256 hs (take 64 p)) (drop 64 p) else (hs, p))"
  by pat_completeness auto
termination by (relation "measure (\<lambda>(_, p). length p)") auto

declare blocks256.simps [simp del]

definition sha256_update :: "sha256 \<Rightarrow> u8 list \<Rightarrow> sha256" where
  "sha256_update s p =
     (let have = unat (len256 s) mod 64; n = length p; len = len256 s + of_nat n;
          k = (if have \<noteq> 0 then (if 64 - have < n then 64 - have else n) else 0);
          buf = take have (buf256 s) @ take k p @ drop (have + k) (buf256 s) in
      if have \<noteq> 0 \<and> have + k < 64 then s \<lparr> len256 := len, buf256 := buf \<rparr>
      else
        let hs = (if have \<noteq> 0 then block256 (h256 s) buf else h256 s);
            (hs, rest) = blocks256 hs (drop k p) in
        \<lparr> h256 = hs, len256 = len, buf256 = rest @ drop (length rest) buf \<rparr>)"


definition be_bytes64 :: "u64 \<Rightarrow> u8 list" where
  "be_bytes64 x = map (\<lambda>i. ucast (drop_bit (56 - 8 * i) x)) [0..<8]"


subsection \<open>SHA-512\<close>

record sha512 =
  h512 :: "u64 list"
  len512 :: u64
  buf512 :: "u8 list"

definition K512 :: "u64 list" where
  "K512 = concat
    [[0x428a2f98d728ae22, 0x7137449123ef65cd, 0xb5c0fbcfec4d3b2f, 0xe9b5dba58189dbbc],
     [0x3956c25bf348b538, 0x59f111f1b605d019, 0x923f82a4af194f9b, 0xab1c5ed5da6d8118],
     [0xd807aa98a3030242, 0x12835b0145706fbe, 0x243185be4ee4b28c, 0x550c7dc3d5ffb4e2],
     [0x72be5d74f27b896f, 0x80deb1fe3b1696b1, 0x9bdc06a725c71235, 0xc19bf174cf692694],
     [0xe49b69c19ef14ad2, 0xefbe4786384f25e3, 0x0fc19dc68b8cd5b5, 0x240ca1cc77ac9c65],
     [0x2de92c6f592b0275, 0x4a7484aa6ea6e483, 0x5cb0a9dcbd41fbd4, 0x76f988da831153b5],
     [0x983e5152ee66dfab, 0xa831c66d2db43210, 0xb00327c898fb213f, 0xbf597fc7beef0ee4],
     [0xc6e00bf33da88fc2, 0xd5a79147930aa725, 0x06ca6351e003826f, 0x142929670a0e6e70],
     [0x27b70a8546d22ffc, 0x2e1b21385c26c926, 0x4d2c6dfc5ac42aed, 0x53380d139d95b3df],
     [0x650a73548baf63de, 0x766a0abb3c77b2a8, 0x81c2c92e47edaee6, 0x92722c851482353b],
     [0xa2bfe8a14cf10364, 0xa81a664bbc423001, 0xc24b8b70d0f89791, 0xc76c51a30654be30],
     [0xd192e819d6ef5218, 0xd69906245565a910, 0xf40e35855771202a, 0x106aa07032bbd1b8],
     [0x19a4c116b8d2d0c8, 0x1e376c085141ab53, 0x2748774cdf8eeb99, 0x34b0bcb5e19b48a8],
     [0x391c0cb3c5c95a63, 0x4ed8aa4ae3418acb, 0x5b9cca4f7763e373, 0x682e6ff3d6b2b8a3],
     [0x748f82ee5defb2fc, 0x78a5636f43172f60, 0x84c87814a1f0ab72, 0x8cc702081a6439ec],
     [0x90befffa23631e28, 0xa4506cebde82bde9, 0xbef9a3f7b2c67915, 0xc67178f2e372532b],
     [0xca273eceea26619c, 0xd186b8c721c0c207, 0xeada7dd6cde0eb1e, 0xf57d4f7fee6ed178],
     [0x06f067aa72176fba, 0x0a637dc5a2c898a6, 0x113f9804bef90dae, 0x1b710b35131c471b],
     [0x28db77f523047d84, 0x32caab7b40c72493, 0x3c9ebe0a15c9bebc, 0x431d67c49c100d4c],
     [0x4cc5d4becb3e42b6, 0x597f299cfc657e2a, 0x5fcb6fab3ad6faec, 0x6c44198c4a475817]]"

definition ror64 :: "u64 \<Rightarrow> nat \<Rightarrow> u64" where
  "ror64 x n = drop_bit n x OR push_bit (64 - n) x"

definition word512 :: "u8 list \<Rightarrow> nat \<Rightarrow> u64" where
  "word512 p i = foldl (\<lambda>w j. push_bit 8 w OR ucast (p ! (8 * i + j))) 0 [0..<8]"

definition sched512 :: "u64 list \<Rightarrow> nat \<Rightarrow> u64 list" where
  "sched512 w i =
     (let s0 = ror64 (w ! (i - 15)) 1 XOR ror64 (w ! (i - 15)) 8 XOR drop_bit 7 (w ! (i - 15));
          s1 = ror64 (w ! (i - 2)) 19 XOR ror64 (w ! (i - 2)) 61 XOR drop_bit 6 (w ! (i - 2)) in
      w @ [w ! (i - 16) + s0 + w ! (i - 7) + s1])"

definition round512 :: "u64 list \<Rightarrow> u64 regs \<Rightarrow> nat \<Rightarrow> u64 regs" where
  "round512 w = (\<lambda>(a, b, c, d, e, f, g, h) i.
     let t1 = h + (ror64 e 14 XOR ror64 e 18 XOR ror64 e 41) + ((e AND f) XOR (NOT e AND g)) + K512 ! i + w ! i;
         t2 = (ror64 a 28 XOR ror64 a 34 XOR ror64 a 39) + ((a AND b) XOR (a AND c) XOR (b AND c)) in
     (t1 + t2, a, b, c, d + t1, e, f, g))"

definition block512 :: "u64 list \<Rightarrow> u8 list \<Rightarrow> u64 list" where
  "block512 hs p =
     (let w = foldl sched512 (map (word512 p) [0..<16]) [16..<80];
          (a, b, c, d, e, f, g, h) =
            foldl (round512 w) (hs ! 0, hs ! 1, hs ! 2, hs ! 3, hs ! 4, hs ! 5, hs ! 6, hs ! 7) [0..<80] in
      [hs ! 0 + a, hs ! 1 + b, hs ! 2 + c, hs ! 3 + d, hs ! 4 + e, hs ! 5 + f, hs ! 6 + g, hs ! 7 + h])"

definition iv512 :: "u64 list" where
  "iv512 = [0x6a09e667f3bcc908, 0xbb67ae8584caa73b, 0x3c6ef372fe94f82b, 0xa54ff53a5f1d36f1,
    0x510e527fade682d1, 0x9b05688c2b3e6c1f, 0x1f83d9abfb41bd6b, 0x5be0cd19137e2179]"


function blocks512 :: "u64 list \<Rightarrow> u8 list \<Rightarrow> u64 list \<times> u8 list" where
  "blocks512 hs p = (if length p \<ge> 128 then blocks512 (block512 hs (take 128 p)) (drop 128 p) else (hs, p))"
  by pat_completeness auto
termination by (relation "measure (\<lambda>(_, p). length p)") auto

declare blocks512.simps [simp del]

definition sha512_update :: "sha512 \<Rightarrow> u8 list \<Rightarrow> sha512" where
  "sha512_update s p =
     (let have = unat (len512 s) mod 128; n = length p; len = len512 s + of_nat n;
          k = (if have \<noteq> 0 then (if 128 - have < n then 128 - have else n) else 0);
          buf = take have (buf512 s) @ take k p @ drop (have + k) (buf512 s) in
      if have \<noteq> 0 \<and> have + k < 128 then s \<lparr> len512 := len, buf512 := buf \<rparr>
      else
        let hs = (if have \<noteq> 0 then block512 (h512 s) buf else h512 s);
            (hs, rest) = blocks512 hs (drop k p) in
        \<lparr> h512 = hs, len512 = len, buf512 = rest @ drop (length rest) buf \<rparr>)"


subsection \<open>Hashing by blocks\<close>

text \<open>The reference: whole blocks of \<open>B\<close> bytes absorbed from the left, and what is left over.\<close>

function absorb :: "nat \<Rightarrow> ('h \<Rightarrow> u8 list \<Rightarrow> 'h) \<Rightarrow> 'h \<Rightarrow> u8 list \<Rightarrow> 'h" where
  "absorb B f h xs = (if B = 0 \<or> length xs < B then h else absorb B f (f h (take B xs)) (drop B xs))"
  by pat_completeness auto
termination by (relation "measure (\<lambda>(_, _, _, xs). length xs)") auto

declare absorb.simps [simp del]

definition left_over :: "nat \<Rightarrow> u8 list \<Rightarrow> u8 list" where
  "left_over B xs = drop (length xs div B * B) xs"

lemma absorb_short [simp]: "length xs < B \<Longrightarrow> absorb B f h xs = h"
  by (subst absorb.simps) simp

lemma absorb_step: "0 < B \<Longrightarrow> B \<le> length xs \<Longrightarrow> absorb B f h xs = absorb B f (f h (take B xs)) (drop B xs)"
  by (subst absorb.simps) simp

lemma left_over_short [simp]: "length xs < B \<Longrightarrow> left_over B xs = xs"
  by (simp add: left_over_def)

lemma left_over_step:
  assumes "0 < B" "B \<le> length xs"
  shows "left_over B xs = left_over B (drop B xs)"
proof -
  have "length xs div B = Suc ((length xs - B) div B)" using assms by (simp add: le_div_geq)
  then show ?thesis by (simp add: left_over_def add.commute)
qed

lemma length_left_over: "length (left_over B xs) = length xs mod B"
  by (simp add: left_over_def minus_div_mult_eq_mod)

lemma absorb_append:
  "0 < B \<Longrightarrow> absorb B f h (xs @ ys) = absorb B f (absorb B f h xs) (left_over B xs @ ys) \<and>
     left_over B (xs @ ys) = left_over B (left_over B xs @ ys)"
proof (induction B f h xs rule: absorb.induct)
  case (1 B f h xs)
  show ?case
  proof (cases "length xs < B")
    case False
    then have s: "absorb B f h (xs @ ys) = absorb B f (f h (take B xs)) (drop B xs @ ys)"
      "left_over B (xs @ ys) = left_over B (drop B xs @ ys)"
      using absorb_step [of B "xs @ ys"] left_over_step [of B "xs @ ys"] 1(2) by simp_all
    then show ?thesis using 1 False absorb_step [of B xs f h] left_over_step [of B xs] by simp
  qed simp
qed

text \<open>One call of an update: the buffered bytes first, then the data.\<close>

lemma buffered_step:
  assumes "length buf = B" "hv < B" "k = (if hv \<noteq> 0 then (if B - hv < length p then B - hv else length p) else 0)"
    and buf': "buf' = take hv buf @ take k p @ drop (hv + k) buf"
  shows "length buf' = B" "hv \<noteq> 0 \<and> hv + k < B \<Longrightarrow>
      absorb B f h (take hv buf @ p) = h \<and> take (hv + length p) buf' = left_over B (take hv buf @ p) \<and> hv + length p < B"
    "\<not> (hv \<noteq> 0 \<and> hv + k < B) \<Longrightarrow>
      absorb B f h (take hv buf @ p) = absorb B f (if hv \<noteq> 0 then f h buf' else h) (drop k p) \<and>
      left_over B (take hv buf @ p) = left_over B (drop k p)"
proof -
  have k: "hv + k \<le> B" "k \<le> length p" using assms(2,3) by auto
  then show "length buf' = B" using assms(1) buf' by simp
  show "absorb B f h (take hv buf @ p) = h \<and> take (hv + length p) buf' = left_over B (take hv buf @ p) \<and> hv + length p < B"
    if "hv \<noteq> 0 \<and> hv + k < B"
  proof -
    have "k = length p" "hv + length p < B" using that assms(3) by (auto split: if_splits)
    then show ?thesis using assms(1) buf' by simp
  qed
  show "absorb B f h (take hv buf @ p) = absorb B f (if hv \<noteq> 0 then f h buf' else h) (drop k p) \<and>
      left_over B (take hv buf @ p) = left_over B (drop k p)"
    if n: "\<not> (hv \<noteq> 0 \<and> hv + k < B)"
  proof (cases "hv = 0")
    case True
    then show ?thesis using assms(3) by simp
  next
    case False
    then have "hv + k = B" using n k by simp
    then have "take B (take hv buf @ p) = buf'" "drop B (take hv buf @ p) = drop k p" "B \<le> length (take hv buf @ p)"
      using assms(1,2) k buf' by (auto simp: min_def)
    then show ?thesis using absorb_step [of B "take hv buf @ p" f h] left_over_step [of B "take hv buf @ p"] False assms(2) by auto
  qed
qed

text \<open>
  The interface of a buffered hash: what one update does to the chaining value, the length and the
  buffer.  From it, any way of cutting the data into pieces gives the same state.
\<close>

locale block_hash =
  fixes B :: nat and f :: "'h \<Rightarrow> u8 list \<Rightarrow> 'h" and iv :: 'h
    and hv :: "'s \<Rightarrow> 'h" and ln :: "'s \<Rightarrow> u64" and bf :: "'s \<Rightarrow> u8 list" and upd :: "'s \<Rightarrow> u8 list \<Rightarrow> 's"
  assumes size: "0 < B" "B dvd 2 ^ 64"
    and upd_len: "ln (upd s p) = ln s + of_nat (length p)"
    and upd_hash: "length (bf s) = B \<Longrightarrow> hv (upd s p) = absorb B f (hv s) (take (unat (ln s) mod B) (bf s) @ p)"
    and upd_buf: "length (bf s) = B \<Longrightarrow> length (bf (upd s p)) = B \<and>
      take ((unat (ln s) mod B + length p) mod B) (bf (upd s p)) = left_over B (take (unat (ln s) mod B) (bf s) @ p)"
begin

definition holds :: "'s \<Rightarrow> u8 list \<Rightarrow> bool" where
  "holds s m \<longleftrightarrow> hv s = absorb B f iv m \<and> ln s = of_nat (length m) \<and> length (bf s) = B \<and>
     take (length m mod B) (bf s) = left_over B m"

lemma unat_mod: "unat (of_nat n :: u64) mod B = n mod B"
proof -
  have "unat (of_nat n :: u64) = n mod 2 ^ 64" by (simp add: unsigned_of_nat take_bit_nat_def)
  then show ?thesis by (simp only: mod_mod_cancel [OF size(2)])
qed

lemma holds_upd:
  assumes "holds s m"
  shows "holds (upd s p) (m @ p)"
proof -
  have s: "hv s = absorb B f iv m" "ln s = of_nat (length m)" "length (bf s) = B" "take (length m mod B) (bf s) = left_over B m"
    using assms by (simp_all add: holds_def)
  have mod: "unat (ln s) mod B = length m mod B" using s(2) unat_mod by simp
  note ap = absorb_append [OF size(1), of f iv m p]
  have "hv (upd s p) = absorb B f iv (m @ p)" using upd_hash [OF s(3)] mod s(1,4) ap by simp
  moreover have "take (length (m @ p) mod B) (bf (upd s p)) = left_over B (m @ p)" "length (bf (upd s p)) = B"
    using upd_buf [OF s(3), of p] mod s(4) ap by (simp_all add: mod_simps)
  ultimately show ?thesis using upd_len [of s p] s(2) by (simp add: holds_def)
qed

lemma holds_pieces: "holds s m \<Longrightarrow> holds (foldl upd s ps) (m @ concat ps)"
proof (induction ps arbitrary: s m)
  case (Cons p ps)
  from Cons.IH [OF holds_upd [OF Cons.prems]] show ?case by simp
qed simp

end

subsection \<open>The two instances\<close>

lemma blocks256_absorb: "blocks256 hs p = (absorb 64 block256 hs p, left_over 64 p)"
proof (induction hs p rule: blocks256.induct)
  case (1 hs p)
  then show ?case
    by (subst blocks256.simps) (simp add: absorb_step [of 64 p] left_over_step [of 64 p])
qed

lemma blocks512_absorb: "blocks512 hs p = (absorb 128 block512 hs p, left_over 128 p)"
proof (induction hs p rule: blocks512.induct)
  case (1 hs p)
  then show ?case
    by (subst blocks512.simps) (simp add: absorb_step [of 128 p] left_over_step [of 128 p])
qed

lemma take_left_over: "length buf = B \<Longrightarrow> n mod B = length (left_over B p) mod B \<Longrightarrow> 0 < B \<Longrightarrow>
    length (left_over B p @ drop (length (left_over B p)) buf) = B \<and>
    take (n mod B) (left_over B p @ drop (length (left_over B p)) buf) = left_over B p"
  by (simp add: length_left_over)

lemma if_same: "f a = c \<Longrightarrow> f b = c \<Longrightarrow> f (if P then a else b) = c"
  by simp

lemma len256_fields: "len256 (s \<lparr> len256 := x, buf256 := y \<rparr>) = x" "len256 \<lparr> h256 = h, len256 = x, buf256 = y \<rparr> = x"
  by simp_all

interpretation sha256: block_hash 64 block256 iv256 h256 len256 buf256 sha256_update
proof
  show "(0 :: nat) < 64" "(64 :: nat) dvd 2 ^ 64" by simp_all
next
  fix s :: sha256 and p
  show "len256 (sha256_update s p) = len256 s + of_nat (length p)"
    unfolding sha256_update_def Let_def blocks256_absorb prod.case
    by (rule if_same [of len256]) (simp_all only: len256_fields)
next
  fix s :: sha256 and p assume b: "length (buf256 s) = 64"
  define hv k buf' where "hv = unat (len256 s) mod 64"
    and "k = (if hv \<noteq> 0 then (if 64 - hv < length p then 64 - hv else length p) else 0)"
    and "buf' = take hv (buf256 s) @ take k p @ drop (hv + k) (buf256 s)"
  have "hv < 64" by (simp add: hv_def)
  note st = buffered_step(1) [OF b this k_def buf'_def] buffered_step(2,3) [OF b this k_def buf'_def, where f = block256 and h = "h256 s"]
  let ?u = "sha256_update s p"
  have u: "?u = (if hv \<noteq> 0 \<and> hv + k < 64 then s \<lparr> len256 := len256 s + of_nat (length p), buf256 := buf' \<rparr>
      else let hs = (if hv \<noteq> 0 then block256 (h256 s) buf' else h256 s) in
        \<lparr> h256 = absorb 64 block256 hs (drop k p), len256 = len256 s + of_nat (length p),
          buf256 = left_over 64 (drop k p) @ drop (length (left_over 64 (drop k p))) buf' \<rparr>)"
    unfolding sha256_update_def Let_def hv_def [symmetric] k_def [symmetric] buf'_def [symmetric] by (simp add: blocks256_absorb)
  have "length (left_over 64 (take hv (buf256 s) @ p)) = (hv + length p) mod 64"
    using \<open>hv < 64\<close> b by (simp add: length_left_over)
  moreover have "h256 ?u = absorb 64 block256 (h256 s) (take hv (buf256 s) @ p) \<and> length (buf256 ?u) = 64 \<and>
      take ((hv + length p) mod 64) (buf256 ?u) = left_over 64 (take hv (buf256 s) @ p)"
  proof (cases "hv \<noteq> 0 \<and> hv + k < 64")
    case True
    from st(2) [OF True] st(1) show ?thesis unfolding u if_P [OF True] by simp
  next
    case False
    from st(3) [OF False] st(1) calculation show ?thesis unfolding u if_not_P [OF False] Let_def by simp
  qed
  ultimately show "h256 ?u = absorb 64 block256 (h256 s) (take (unat (len256 s) mod 64) (buf256 s) @ p)"
    "length (buf256 ?u) = 64 \<and> take ((unat (len256 s) mod 64 + length p) mod 64) (buf256 ?u) =
      left_over 64 (take (unat (len256 s) mod 64) (buf256 s) @ p)"
    unfolding hv_def [symmetric] by blast+
qed

lemma len512_fields: "len512 (s \<lparr> len512 := x, buf512 := y \<rparr>) = x" "len512 \<lparr> h512 = h, len512 = x, buf512 = y \<rparr> = x"
  by simp_all

interpretation sha512: block_hash 128 block512 iv512 h512 len512 buf512 sha512_update
proof
  show "(0 :: nat) < 128" "(128 :: nat) dvd 2 ^ 64" by simp_all
next
  fix s :: sha512 and p
  show "len512 (sha512_update s p) = len512 s + of_nat (length p)"
    unfolding sha512_update_def Let_def blocks512_absorb prod.case
    by (rule if_same [of len512]) (simp_all only: len512_fields)
next
  fix s :: sha512 and p assume b: "length (buf512 s) = 128"
  define hv k buf' where "hv = unat (len512 s) mod 128"
    and "k = (if hv \<noteq> 0 then (if 128 - hv < length p then 128 - hv else length p) else 0)"
    and "buf' = take hv (buf512 s) @ take k p @ drop (hv + k) (buf512 s)"
  have "hv < 128" by (simp add: hv_def)
  note st = buffered_step(1) [OF b this k_def buf'_def] buffered_step(2,3) [OF b this k_def buf'_def, where f = block512 and h = "h512 s"]
  let ?u = "sha512_update s p"
  have u: "?u = (if hv \<noteq> 0 \<and> hv + k < 128 then s \<lparr> len512 := len512 s + of_nat (length p), buf512 := buf' \<rparr>
      else let hs = (if hv \<noteq> 0 then block512 (h512 s) buf' else h512 s) in
        \<lparr> h512 = absorb 128 block512 hs (drop k p), len512 = len512 s + of_nat (length p),
          buf512 = left_over 128 (drop k p) @ drop (length (left_over 128 (drop k p))) buf' \<rparr>)"
    unfolding sha512_update_def Let_def hv_def [symmetric] k_def [symmetric] buf'_def [symmetric] by (simp add: blocks512_absorb)
  have "length (left_over 128 (take hv (buf512 s) @ p)) = (hv + length p) mod 128"
    using \<open>hv < 128\<close> b by (simp add: length_left_over)
  moreover have "h512 ?u = absorb 128 block512 (h512 s) (take hv (buf512 s) @ p) \<and> length (buf512 ?u) = 128 \<and>
      take ((hv + length p) mod 128) (buf512 ?u) = left_over 128 (take hv (buf512 s) @ p)"
  proof (cases "hv \<noteq> 0 \<and> hv + k < 128")
    case True
    from st(2) [OF True] st(1) show ?thesis unfolding u if_P [OF True] by simp
  next
    case False
    from st(3) [OF False] st(1) calculation show ?thesis unfolding u if_not_P [OF False] Let_def by simp
  qed
  ultimately show "h512 ?u = absorb 128 block512 (h512 s) (take (unat (len512 s) mod 128) (buf512 s) @ p)"
    "length (buf512 ?u) = 128 \<and> take ((unat (len512 s) mod 128 + length p) mod 128) (buf512 ?u) =
      left_over 128 (take (unat (len512 s) mod 128) (buf512 s) @ p)"
    unfolding hv_def [symmetric] by blast+
qed


subsection \<open>The final step\<close>


lemma length_be_bytes64 [simp]: "length (be_bytes64 x) = 8"
  by (simp add: be_bytes64_def)










subsection \<open>Properties\<close>







end
