(* ===== verification/Arc4random.thy ===== *)
theory Arc4random
  imports Prelude
begin

text \<open>
  \<^verbatim>\<open>src/random.c\<close>: the deterministic generators and \<open>arc4random\<close>.  A call takes its lock for all of its
  duration, so each is one step on the state.  What the kernel answers (seed bytes, the process id,
  whether a page for the state can be had and is wiped on fork) is an argument.  The machine is
  little-endian: the words of the cipher and the bytes of the buffer are converted so.
\<close>

subsection \<open>rand and random\<close>

definition rand_init :: u64 where "rand_init = 1"

definition srand :: "u32 \<Rightarrow> u64" where
  "srand s = ucast (s - 1)"

definition rand :: "u64 \<Rightarrow> int \<times> u64" where
  "rand seed = (let seed = 6364136223846793005 * seed + 1 in (sint (ucast (drop_bit 33 seed) :: u32), seed))"

definition rand_r :: "u32 \<Rightarrow> int \<times> u32" where
  "rand_r seed =
     (let seed = seed * 1103515245 + 12345; x = seed;
          x = x XOR drop_bit 11 x;
          x = x XOR (push_bit 7 x AND 0x9d2c5680);
          x = x XOR (push_bit 15 x AND 0xefc60000);
          x = x XOR drop_bit 18 x in
      (sint (drop_bit 1 x), seed))"

definition random_init :: u64 where "random_init = 1"

definition srandom :: "u32 \<Rightarrow> u64" where
  "srandom s = ucast s"

definition random :: "u64 \<Rightarrow> int \<times> u64" where
  "random seed = (let seed = 6364136223846793005 * seed + 1442695040888963407 in (sint (drop_bit 33 seed), seed))"

subsection \<open>The ChaCha20 block\<close>

definition ROTL :: "u32 \<Rightarrow> nat \<Rightarrow> u32" where
  "ROTL x n = push_bit n x OR drop_bit (32 - n) x"

definition QR :: "nat \<Rightarrow> nat \<Rightarrow> nat \<Rightarrow> nat \<Rightarrow> u32 list \<Rightarrow> u32 list" where
  "QR i j k l x =
     (let a = x ! i; b = x ! j; c = x ! k; d = x ! l;
          a = a + b; d = d XOR a; d = ROTL d 16; c = c + d; b = b XOR c; b = ROTL b 12;
          a = a + b; d = d XOR a; d = ROTL d 8; c = c + d; b = b XOR c; b = ROTL b 7 in
      x[i := a, j := b, k := c, l := d])"

definition double_round :: "u32 list \<Rightarrow> u32 list" where
  "double_round x =
     QR 3 4 9 14 (QR 2 7 8 13 (QR 1 6 11 12 (QR 0 5 10 15
       (QR 3 7 11 15 (QR 2 6 10 14 (QR 1 5 9 13 (QR 0 4 8 12 x)))))))"

definition chacha_block :: "u32 list \<Rightarrow> u32 list" where
  "chacha_block inp = map2 (+) ((double_round ^^ 10) inp) inp"

subsection \<open>arc4random\<close>

definition KEYSZ :: nat where "KEYSZ = 32"
definition IVSZ :: nat where "IVSZ = 8"
definition BLOCKS :: nat where "BLOCKS = 16"
definition BUFSZ :: nat where "BUFSZ = 64 * BLOCKS"
definition RESEED_BYTES :: nat where "RESEED_BYTES = 1600000"

lemmas size_defs = KEYSZ_def IVSZ_def BLOCKS_def BUFSZ_def

record rs =
  ready :: bool
  pid :: int
  have_n :: nat
  until_reseed :: nat
  inp :: "u32 list"
  buf :: "u8 list"

text \<open>The page as the kernel gives it, and as a child sees it after a fork.\<close>

definition zero_rs :: rs where
  "zero_rs = \<lparr> ready = False, pid = 0, have_n = 0, until_reseed = 0, inp = replicate 16 0, buf = replicate BUFSZ 0 \<rparr>"

definition le_word :: "u8 list \<Rightarrow> nat \<Rightarrow> u32" where
  "le_word bs i = ucast (bs ! i) OR push_bit 8 (ucast (bs ! (i + 1))) OR push_bit 16 (ucast (bs ! (i + 2))) OR
     push_bit 24 (ucast (bs ! (i + 3)))"

definition le_bytes :: "u32 \<Rightarrow> u8 list" where
  "le_bytes w = [ucast w, ucast (drop_bit 8 w), ucast (drop_bit 16 w), ucast (drop_bit 24 w)]"

definition sigma :: "u8 list" where
  "sigma = lit ''expand 32-byte k''"

definition rs_setkey :: "u8 list \<Rightarrow> rs \<Rightarrow> rs" where
  "rs_setkey kiv r = r \<lparr> inp := map (\<lambda>i. le_word sigma (4 * i)) [0..<4] @ map (\<lambda>i. le_word kiv (4 * i)) [0..<8] @
     [0, 0] @ map (\<lambda>i. le_word kiv (KEYSZ + 4 * i)) [0..<2] \<rparr>"

text \<open>The bytes of \<open>n\<close> blocks, with the block counter carried from word 12 to word 13.\<close>

definition bump :: "u32 list \<Rightarrow> u32 list" where
  "bump x = (let c = x ! 12 + 1; x = x[12 := c] in if c = 0 then x[13 := x ! 13 + 1] else x)"

fun key_stream :: "nat \<Rightarrow> u32 list \<Rightarrow> u8 list" where
  "key_stream 0 x = []"
| "key_stream (Suc n) x = concat (map le_bytes (chacha_block x)) @ key_stream n (bump x)"

definition rs_refill :: "rs \<Rightarrow> rs" where
  "rs_refill r =
     (let b = key_stream BLOCKS (inp r);
          r = rs_setkey b (r \<lparr> buf := b \<rparr>) in
      r \<lparr> buf := replicate (KEYSZ + IVSZ) 0 @ drop (KEYSZ + IVSZ) b, have_n := BUFSZ - KEYSZ - IVSZ \<rparr>)"

definition rs_stir :: "u8 list \<Rightarrow> int \<Rightarrow> rs \<Rightarrow> rs" where
  "rs_stir seed p r =
     (let r = (if \<not> ready r then rs_setkey seed r
               else r \<lparr> inp := foldl (\<lambda>x i. x[4 + i := x ! (4 + i) XOR le_word seed (4 * i)]) (inp r) [0..<KEYSZ div 4] \<rparr>) in
      rs_refill (r \<lparr> have_n := 0, until_reseed := RESEED_BYTES, ready := True, pid := p \<rparr>))"

text \<open>
  The state: the page, if it has been made, and whether it is wiped on fork.  \<open>page\<close> says whether the
  page can be mapped and whether wiping can be had; \<open>seeds\<close> are the seeds of the one or two stirs.
\<close>

record arc =
  rs :: "rs option"
  rs_wipe :: bool

definition rs_prepare :: "nat \<Rightarrow> bool \<times> bool \<Rightarrow> u8 list \<times> u8 list \<Rightarrow> int \<Rightarrow> arc \<Rightarrow> rs \<times> bool" where
  "rs_prepare n page seeds p st =
     (let (r, wipe) = (case rs st of
            None \<Rightarrow> (zero_rs, if fst page then snd page else rs_wipe st)
          | Some r \<Rightarrow> (r, rs_wipe st));
          r = (if \<not> ready r \<or> (\<not> wipe \<and> pid r \<noteq> p) then rs_stir (fst seeds) p r else r) in
      (if until_reseed r \<le> n then rs_stir (snd seeds) p r else r \<lparr> until_reseed := until_reseed r - n \<rparr>, wipe))"

text \<open>The loop of \<open>arc4random_buf\<close>: bytes are taken from the end of the buffer and wiped there.\<close>

function take_bytes :: "nat \<Rightarrow> rs \<Rightarrow> u8 list \<times> rs" where
  "take_bytes n r =
     (if n = 0 then ([], r)
      else
        let r = (if have_n r = 0 then rs_refill r else r);
            k = (if n < have_n r then n else have_n r);
            s = BUFSZ - have_n r;
            out = take k (drop s (buf r));
            r = r \<lparr> buf := take s (buf r) @ replicate k 0 @ drop (s + k) (buf r), have_n := have_n r - k \<rparr>;
            (rest, r) = take_bytes (n - k) r in
        (out @ rest, r))"
  by pat_completeness auto
termination
  by (relation "measure fst") (auto simp: rs_refill_def Let_def size_defs)

declare take_bytes.simps [simp del]

definition arc4random_buf ::
    "nat \<Rightarrow> bool \<times> bool \<Rightarrow> u8 list \<times> u8 list \<Rightarrow> int \<Rightarrow> arc \<Rightarrow> u8 list \<times> arc" where
  "arc4random_buf n page seeds p st =
     (let (r, wipe) = rs_prepare n page seeds p st; (out, r) = take_bytes n r in
      (out, \<lparr> rs = Some r, rs_wipe = wipe \<rparr>))"

definition arc4random :: "bool \<times> bool \<Rightarrow> u8 list \<times> u8 list \<Rightarrow> int \<Rightarrow> arc \<Rightarrow> u32 \<times> arc" where
  "arc4random page seeds p st = (let (b, st) = arc4random_buf 4 page seeds p st in (le_word b 0, st))"





subsection \<open>The state keeps no byte it has given out\<close>

lemma length_QR [simp]: "length (QR i j k l x) = length x"
  by (simp add: QR_def Let_def)

lemma length_double_round [simp]: "length (double_round x) = length x"
  by (simp add: double_round_def)

lemma length_rounds [simp]: "length ((double_round ^^ n) x) = length x"
  by (induction n) simp_all

lemma length_chacha_block [simp]: "length (chacha_block x) = length x"
  by (simp add: chacha_block_def)

lemma length_bump [simp]: "length (bump x) = length x"
  by (simp add: bump_def Let_def)

lemma length_key_stream: "length x = 16 \<Longrightarrow> length (key_stream n x) = 64 * n"
proof (induction n arbitrary: x)
  case (Suc n)
  have "map (length \<circ> le_bytes) xs = replicate (length xs) 4" for xs
    by (induction xs) (simp_all add: le_bytes_def)
  then have "length (concat (map le_bytes xs)) = 4 * length xs" for xs
    by (simp add: length_concat sum_list_replicate)
  then show ?case using Suc by simp
qed simp

definition wf_rs :: "rs \<Rightarrow> bool" where
  "wf_rs r \<longleftrightarrow> length (inp r) = 16 \<and> length (buf r) = BUFSZ \<and> have_n r \<le> BUFSZ - KEYSZ - IVSZ \<and>
     take (BUFSZ - have_n r) (buf r) = replicate (BUFSZ - have_n r) 0"

lemma wf_zero_rs: "wf_rs zero_rs"
  by (simp add: wf_rs_def zero_rs_def)

lemma length_setkey [simp]: "length (inp (rs_setkey k r)) = 16"
  by (simp add: rs_setkey_def)

lemma wf_refill:
  assumes "length (inp r) = 16"
  shows "wf_rs (rs_refill r) \<and> have_n (rs_refill r) = BUFSZ - KEYSZ - IVSZ"
proof -
  have "length (key_stream BLOCKS (inp r)) = BUFSZ" using length_key_stream [OF assms] by (simp add: BUFSZ_def)
  then show ?thesis by (simp add: wf_rs_def rs_refill_def Let_def size_defs rs_setkey_def)
qed


text \<open>One turn of the loop.\<close>

definition filled :: "rs \<Rightarrow> rs" where
  "filled r = (if have_n r = 0 then rs_refill r else r)"

definition cut :: "nat \<Rightarrow> rs \<Rightarrow> u8 list \<times> rs" where
  "cut k r = (take k (drop (BUFSZ - have_n r) (buf r)),
     r \<lparr> buf := take (BUFSZ - have_n r) (buf r) @ replicate k 0 @ drop (BUFSZ - have_n r + k) (buf r), have_n := have_n r - k \<rparr>)"

lemma take_bytes_0 [simp]: "take_bytes 0 r = ([], r)"
  by (subst take_bytes.simps) simp

lemma take_bytes_step:
  "0 < n \<Longrightarrow> take_bytes n r =
     (let k = min n (have_n (filled r)); (out, r') = cut k (filled r); (rest, r'') = take_bytes (n - k) r' in (out @ rest, r''))"
  by (subst take_bytes.simps) (simp add: filled_def cut_def Let_def min_def)

lemma filled_ok: "wf_rs r \<Longrightarrow> wf_rs (filled r) \<and> 0 < have_n (filled r) \<and> have_n (filled r) \<le> BUFSZ"
  using wf_refill [of r] by (auto simp: filled_def wf_rs_def size_defs)

lemma cut_ok:
  assumes "wf_rs r" "k \<le> have_n r"
  shows "length (fst (cut k r)) = k \<and> wf_rs (snd (cut k r)) \<and> have_n (snd (cut k r)) = have_n r - k"
proof -
  have r: "length (buf r) = BUFSZ" "have_n r \<le> BUFSZ" using assms(1) by (auto simp: wf_rs_def size_defs)
  let ?s = "BUFSZ - have_n r"
  have e: "BUFSZ - (have_n r - k) = ?s + k" using assms(2) r by simp
  have "take (?s + k) (take ?s (buf r) @ replicate k 0 @ drop (?s + k) (buf r)) = take ?s (buf r) @ replicate k 0"
    using r by simp
  then have "take (?s + k) (buf (snd (cut k r))) = replicate (?s + k) 0"
    using assms(1) by (simp add: cut_def wf_rs_def replicate_add)
  moreover have "length (buf (snd (cut k r))) = BUFSZ" using r assms(2) by (simp add: cut_def)
  moreover have "have_n r - k \<le> BUFSZ - KEYSZ - IVSZ" using assms(1) by (auto simp: wf_rs_def)
  ultimately show ?thesis using assms r e by (simp add: wf_rs_def cut_def)
qed

lemma take_bytes_ok: "wf_rs r \<Longrightarrow> length (fst (take_bytes n r)) = n \<and> wf_rs (snd (take_bytes n r))"
proof (induction n arbitrary: r rule: less_induct)
  case (less n)
  show ?case
  proof (cases "n = 0")
    case False
    define k where "k = min n (have_n (filled r))"
    have f: "wf_rs (filled r)" "0 < have_n (filled r)" using filled_ok [OF less.prems] by simp_all
    then have k: "0 < k" "k \<le> have_n (filled r)" "k \<le> n" using False by (simp_all add: k_def)
    note c = cut_ok [OF f(1) k(2)]
    have "length (fst (take_bytes (n - k) (snd (cut k (filled r))))) = n - k \<and> wf_rs (snd (take_bytes (n - k) (snd (cut k (filled r)))))"
      using less.IH [of "n - k" "snd (cut k (filled r))"] c k False by simp
    then show ?thesis using take_bytes_step [of n r] False c k
      by (simp add: Let_def k_def [symmetric] split: prod.splits)
  qed (simp add: less.prems)
qed

text \<open>Bytes taken in two calls are the bytes taken in one.\<close>

lemma cut_cut:
  assumes "wf_rs r" "k + m \<le> have_n r"
  shows "cut (k + m) r = (fst (cut k r) @ fst (cut m (snd (cut k r))), snd (cut m (snd (cut k r))))"
proof -
  have r: "length (buf r) = BUFSZ" "have_n r \<le> BUFSZ" using assms(1) by (auto simp: wf_rs_def size_defs)
  define s where "s = BUFSZ - have_n r"
  have e: "BUFSZ - (have_n r - k) = s + k" and sk: "s + (k + m) \<le> length (buf r)" using assms(2) r by (simp_all add: s_def)
  let ?b = "take s (buf r) @ replicate k 0 @ drop (s + k) (buf r)"
  have "take (k + m) (drop s (buf r)) = take k (drop s (buf r)) @ take m (drop (s + k) (buf r))"
    by (simp add: take_add add.commute)
  moreover have "drop (s + k) ?b = drop (s + k) (buf r)" "take (s + k) ?b = take s (buf r) @ replicate k 0"
    "drop (s + k + m) ?b = drop (s + k + m) (buf r)" using sk by (simp_all add: ac_simps)
  ultimately show ?thesis
    unfolding cut_def using e by (simp add: s_def [symmetric] replicate_add add.assoc)
qed

lemma take_bytes_split:
  "wf_rs r \<Longrightarrow> take_bytes (n + m) r =
     (fst (take_bytes n r) @ fst (take_bytes m (snd (take_bytes n r))), snd (take_bytes m (snd (take_bytes n r))))"
proof (induction n arbitrary: r rule: less_induct)
  case (less n)
  let ?f = "filled r"
  have f: "wf_rs ?f" "0 < have_n ?f" using filled_ok [OF less.prems] by simp_all
  have step: "0 < j \<Longrightarrow> k = min j (have_n ?f) \<Longrightarrow> take_bytes j r =
      (fst (cut k ?f) @ fst (take_bytes (j - k) (snd (cut k ?f))), snd (take_bytes (j - k) (snd (cut k ?f))))" for j k
    by (simp add: take_bytes_step Let_def split: prod.splits)
  consider "n = 0" | "0 < n" "have_n ?f \<le> n" | "0 < n" "n < have_n ?f" by linarith
  then show ?case
  proof cases
    case 2
    let ?h = "have_n ?f"
    have k: "min n ?h = ?h" "min (n + m) ?h = ?h" using 2 by simp_all
    have d: "n + m - ?h = (n - ?h) + m" using 2 by simp
    have "wf_rs (snd (cut ?h ?f))" using cut_ok [OF f(1)] by blast
    from less.IH [OF _ this, of "n - ?h"] 2 f(2) show ?thesis
      using step [of n ?h] step [of "n + m" ?h] k unfolding d by simp
  next
    case 3
    let ?r = "snd (cut n ?f)"
    have c: "wf_rs ?r" "have_n ?r = have_n ?f - n" using cut_ok [OF f(1), of n] 3 by simp_all
    have one: "take_bytes n r = cut n ?f" using step [of n n] 3 by simp
    show ?thesis
    proof (cases "m = 0")
      case False
      define km where "km = min m (have_n ?f - n)"
      have km: "min (n + m) (have_n ?f) = n + km" "n + km \<le> have_n ?f" "n + m - (n + km) = m - km" using 3 by (simp_all add: km_def)
      have "filled ?r = ?r" using c 3 by (simp add: filled_def)
      then have "take_bytes m ?r = (fst (cut km ?r) @ fst (take_bytes (m - km) (snd (cut km ?r))), snd (take_bytes (m - km) (snd (cut km ?r))))"
        using False c(2) by (simp add: take_bytes_step Let_def km_def split: prod.splits)
      then show ?thesis using step [of "n + m" "n + km"] 3 km cut_cut [OF f(1) km(2)] one by simp
    qed (simp add: one)
  qed simp
qed

lemma refill_until: "rs_refill (r \<lparr> until_reseed := x \<rparr>) = (rs_refill r) \<lparr> until_reseed := x \<rparr>"
  by (simp add: rs_refill_def rs_setkey_def Let_def)

lemma filled_until: "filled (r \<lparr> until_reseed := x \<rparr>) = (filled r) \<lparr> until_reseed := x \<rparr>"
  by (simp add: filled_def refill_until)

lemma cut_until: "cut k (r \<lparr> until_reseed := x \<rparr>) = (fst (cut k r), (snd (cut k r)) \<lparr> until_reseed := x \<rparr>)"
  by (simp add: cut_def)

lemma take_bytes_until:
  "wf_rs r \<Longrightarrow> take_bytes n (r \<lparr> until_reseed := x \<rparr>) = (fst (take_bytes n r), (snd (take_bytes n r)) \<lparr> until_reseed := x \<rparr>)"
proof (induction n arbitrary: r rule: less_induct)
  case (less n)
  show ?case
  proof (cases "n = 0")
    case False
    have f: "wf_rs (filled r)" "0 < have_n (filled r)" using filled_ok [OF less.prems] by simp_all
    define k where "k = min n (have_n (filled r))"
    have k: "0 < k" "k \<le> have_n (filled r)" using f False by (simp_all add: k_def)
    have "take_bytes (n - k) ((snd (cut k (filled r))) \<lparr> until_reseed := x \<rparr>) =
        (fst (take_bytes (n - k) (snd (cut k (filled r)))), (snd (take_bytes (n - k) (snd (cut k (filled r))))) \<lparr> until_reseed := x \<rparr>)"
      by (rule less.IH) (use k False cut_ok [OF f(1) k(2)] in auto)
    then show ?thesis
      using False take_bytes_step [of n r] take_bytes_step [of n "r \<lparr> until_reseed := x \<rparr>"]
      by (simp add: filled_until cut_until k_def [symmetric] Let_def split: prod.splits)
  qed simp
qed

lemma take_bytes_fields:
  "wf_rs r \<Longrightarrow> ready (snd (take_bytes n r)) = ready r \<and> pid (snd (take_bytes n r)) = pid r \<and>
     until_reseed (snd (take_bytes n r)) = until_reseed r"
proof (induction n arbitrary: r rule: less_induct)
  case (less n)
  show ?case
  proof (cases "n = 0")
    case False
    have f: "wf_rs (filled r)" "0 < have_n (filled r)" using filled_ok [OF less.prems] by simp_all
    define k where "k = min n (have_n (filled r))"
    have k: "0 < k" "k \<le> have_n (filled r)" using f False by (simp_all add: k_def)
    have "ready (filled r) = ready r" "pid (filled r) = pid r" "until_reseed (filled r) = until_reseed r"
      by (simp_all add: filled_def rs_refill_def rs_setkey_def Let_def)
    moreover have "ready (snd (cut k s)) = ready s" "pid (snd (cut k s)) = pid s" "until_reseed (snd (cut k s)) = until_reseed s" for s
      by (simp_all add: cut_def)
    ultimately show ?thesis
      using less.IH [of "n - k" "snd (cut k (filled r))"] k False cut_ok [OF f(1) k(2)] take_bytes_step [of n r]
      by (simp add: k_def [symmetric] Let_def split: prod.splits)
  qed simp
qed



text \<open>The cases of \<open>arc4random_buf\<close> in which the generator is in use already.\<close>

lemma buf_ready:
  assumes "rs st = Some r" "ready r" "rs_wipe st \<or> pid r = p" "n < until_reseed r" "wf_rs r"
  shows "arc4random_buf n page seeds p st =
    (fst (take_bytes n r), \<lparr> rs = Some ((snd (take_bytes n r)) \<lparr> until_reseed := until_reseed r - n \<rparr>), rs_wipe = rs_wipe st \<rparr>)"
  using assms(1-4) take_bytes_until [OF assms(5), of n "until_reseed r - n"]
  by (auto simp: arc4random_buf_def rs_prepare_def Let_def)

subsection \<open>Properties of arc4random\<close>



text \<open>
  C31.  One stream: while no reseed is due, the bytes of two calls are, in order, the bytes one call
  for the sum would have given, and the state is the same afterwards.
\<close>
theorem arc4random_buf_stream:
  assumes "rs st = Some r" "wf_rs r" "ready r" "rs_wipe st \<or> pid r = p" "n + m < until_reseed r"
  shows "(case arc4random_buf n page seeds p st of (a, st1) \<Rightarrow>
     case arc4random_buf m page' seeds' p st1 of (b, st2) \<Rightarrow> (a @ b, st2)) = arc4random_buf (n + m) page'' seeds'' p st"
proof -
  let ?r1 = "snd (take_bytes n r)"
  define r1 where "r1 = ?r1 \<lparr> until_reseed := until_reseed r - n \<rparr>"
  define st1 where "st1 = \<lparr> rs = Some r1, rs_wipe = rs_wipe st \<rparr>"
  have w: "wf_rs ?r1" using take_bytes_ok [OF assms(2)] by blast
  have w1: "wf_rs r1" using w by (simp add: r1_def wf_rs_def)
  have first: "arc4random_buf n page seeds p st = (fst (take_bytes n r), st1)"
    using buf_ready [OF assms(1,3,4) _ assms(2), of n] assms(5) by (simp add: st1_def r1_def)
  have f: "ready r1" "pid r1 = pid r" "until_reseed r1 = until_reseed r - n"
    using take_bytes_fields [OF assms(2), of n] assms(3) by (simp_all add: r1_def)
  have "arc4random_buf m page' seeds' p st1 =
      (fst (take_bytes m r1), \<lparr> rs = Some ((snd (take_bytes m r1)) \<lparr> until_reseed := until_reseed r1 - m \<rparr>), rs_wipe = rs_wipe st \<rparr>)"
    using buf_ready [of st1 r1 p m page' seeds'] f w1 assms(4,5) by (auto simp: st1_def)
  moreover have "take_bytes m r1 = (fst (take_bytes m ?r1), (snd (take_bytes m ?r1)) \<lparr> until_reseed := until_reseed r - n \<rparr>)"
    unfolding r1_def by (rule take_bytes_until [OF w])
  moreover have "arc4random_buf (n + m) page'' seeds'' p st = (fst (take_bytes (n + m) r),
      \<lparr> rs = Some ((snd (take_bytes (n + m) r)) \<lparr> until_reseed := until_reseed r - (n + m) \<rparr>), rs_wipe = rs_wipe st \<rparr>)"
    using buf_ready [OF assms(1,3,4) assms(5) assms(2)] .
  ultimately show ?thesis using first f take_bytes_split [OF assms(2), of n m] by simp
qed

definition ready_rs :: rs where
  "ready_rs = zero_rs \<lparr> ready := True, pid := 7, until_reseed := 100 \<rparr>"

theorem arc4random_buf_stream_witness:
  "wf_rs ready_rs \<and>
   (case arc4random_buf 3 (True, True) ([], []) 7 \<lparr> rs = Some ready_rs, rs_wipe = True \<rparr> of (a, st1) \<Rightarrow>
     case arc4random_buf 4 (True, True) ([], []) 7 st1 of (b, st2) \<Rightarrow> (a @ b, st2)) =
   arc4random_buf (3 + 4) (True, True) ([], []) 7 \<lparr> rs = Some ready_rs, rs_wipe = True \<rparr>"
proof -
  have r: "wf_rs ready_rs" "ready ready_rs" "3 + 4 < until_reseed ready_rs"
    using wf_zero_rs by (simp_all add: ready_rs_def wf_rs_def)
  then show ?thesis using arc4random_buf_stream [of "\<lparr> rs = Some ready_rs, rs_wipe = True \<rparr>" ready_rs 7 3 4] by simp
qed




subsection \<open>arc4random\_uniform\<close>









subsection \<open>rand and random\<close>

text \<open>
  C34.  The results of \<open>rand\<close>, \<open>rand_r\<close> and \<open>random\<close> are between 0 and \<open>RAND_MAX\<close> (2^31 - 1) for every
  seed, and \<open>rand\<close> and \<open>random\<close> never lose state: different states have different successors.
\<close>
theorem rand_range:
  "0 \<le> fst (rand s) \<and> fst (rand s) < 2 ^ 31 \<and> 0 \<le> fst (random s) \<and> fst (random s) < 2 ^ 31 \<and>
   0 \<le> fst (rand_r u) \<and> fst (rand_r u) < 2 ^ 31 \<and> inj (\<lambda>s. snd (rand s)) \<and> inj (\<lambda>s. snd (random s))"
proof -
  have d: "uint (drop_bit 33 x) < 2 ^ 31" for x :: u64
    using zdiv_mono1 [of "uint x" "2 ^ 64 - 1" "2 ^ 33"] uint_64_lt [of x] by (simp add: drop_bit_eq_div uint_div)
  have d32: "uint (drop_bit 1 x) < 2 ^ 31" for x :: u32
    using zdiv_mono1 [of "uint x" "2 ^ 32 - 1" "2 ^ 1"] unsigned_less [of x, where ?'a = int] by (simp add: drop_bit_eq_div uint_div)
  have nn: "- (2 ^ k) \<le> uint y" for k and y :: "'c :: len word"
    using unsigned_greater_eq [of y, where ?'a = int] by (simp add: order_trans [of _ 0])
  have s32: "uint y < 2 ^ 31 \<Longrightarrow> sint y = uint y" for y :: u32
    using signed_take_bit_int_eq_self [OF nn [of 31 y]] by (simp add: sint_uint)
  have s64: "uint y < 2 ^ 31 \<Longrightarrow> sint y = uint y" for y :: u64
    using signed_take_bit_int_eq_self [OF nn [of 63 y]] by (simp add: sint_uint)
  have u: "uint (ucast (drop_bit 33 x) :: u32) = uint (drop_bit 33 x)" for x :: u64
    using d [of x] by (simp add: unsigned_ucast_eq take_bit_int_eq_self)
  have inv: "(0xc097ef87329e28a5 :: u64) * 6364136223846793005 = 1" by simp
  have inj: "inj (\<lambda>s :: u64. 6364136223846793005 * s + c)" for c
  proof (rule injI)
    fix x y :: u64 assume "6364136223846793005 * x + c = 6364136223846793005 * y + c"
    then have "0xc097ef87329e28a5 * (6364136223846793005 * x) = 0xc097ef87329e28a5 * (6364136223846793005 * y)" by simp
    then show "x = y" unfolding mult.assoc [symmetric] inv by simp
  qed
  obtain x :: u32 where x: "fst (rand_r u) = sint (drop_bit 1 x)" unfolding rand_r_def Let_def fst_conv by blast
  have "0 \<le> fst (rand_r u) \<and> fst (rand_r u) < 2 ^ 31" unfolding x s32 [OF d32] using d32 [of x] by simp
  then show ?thesis using d s32 s64 u inj by (simp add: rand_def random_def Let_def)
qed

text \<open>
  A program that calls \<open>rand\<close> without \<open>srand\<close> does not get the sequence of \<open>srand(1)\<close>.
\<close>
lemma rand_unseeded: "srand 1 = 0 \<and> rand_init = 1 \<and> fst (rand (srand 1)) = 0 \<and> fst (rand rand_init) = 740882966"
  by (simp add: srand_def rand_init_def rand_def Let_def)

end
