(* ===== verification/Calendar.thy ===== *)
theory Calendar
  imports Prelude
begin

text \<open>
  The calendar of \<^verbatim>\<open>src/tz.c\<close> (\<open>__is_leap\<close>, \<open>__days_from_civil\<close>) and the conversions of
  \<^verbatim>\<open>src/timeconv.c\<close> between seconds and broken-down UTC time.  Integers are mathematical ones with C's
  truncating division written out; the results that do not fit an \<open>int\<close> are the error branch of the
  code, and the bounds show that no intermediate value leaves 64 bits.
\<close>

subsection \<open>Definitions\<close>

definition INT_MAX :: int where "INT_MAX = 2147483647"
definition INT_MIN :: int where "INT_MIN = - 2147483648"

record tm =
  tm_sec :: int
  tm_min :: int
  tm_hour :: int
  tm_mday :: int
  tm_mon :: int
  tm_year :: int
  tm_wday :: int
  tm_yday :: int
  tm_isdst :: int
  tm_gmtoff :: int
  tm_zone :: "u8 list option"

definition is_leap :: "int \<Rightarrow> bool" where
  "is_leap y \<longleftrightarrow> (cmod y 4 = 0 \<and> cmod y 100 \<noteq> 0) \<or> cmod y 400 = 0"

definition days_from_civil :: "int \<Rightarrow> int \<Rightarrow> int \<Rightarrow> int" where
  "days_from_civil y m d =
     (let y = y - (if m \<le> 2 then 1 else 0);
          era = cdiv (if y \<ge> 0 then y else y - 399) 400;
          yoe = y - era * 400;
          doy = (153 * (m + (if m > 2 then - 3 else 9)) + 2) div 5 + d - 1;
          doe = yoe * 365 + yoe div 4 - yoe div 100 + doy in
      era * 146097 + doe - 719468)"

text \<open>The fields the time zone sets are kept as they are.\<close>

definition secs_to_tm :: "int \<Rightarrow> tm \<Rightarrow> errno + tm" where
  "secs_to_tm t tm =
     (let days = cdiv t 86400; rem = cmod t 86400;
          (days, rem) = (if rem < 0 then (days - 1, rem + 86400) else (days, rem));
          z = days + 719468;
          era = cdiv (if z \<ge> 0 then z else z - 146096) 146097;
          doe = z - era * 146097;
          yoe = (doe - doe div 1460 + doe div 36524 - doe div 146096) div 365;
          y = yoe + era * 400;
          doy = doe - (365 * yoe + yoe div 4 - yoe div 100);
          mp = (5 * doy + 2) div 153;
          d = doy - (153 * mp + 2) div 5 + 1;
          m = (if mp < 10 then mp + 3 else mp - 9);
          y = y + (if m \<le> 2 then 1 else 0) in
      if y - 1900 > INT_MAX \<or> y - 1900 < INT_MIN then Inl EOVERFLOW
      else Inr (tm \<lparr> tm_year := y - 1900, tm_mon := m - 1, tm_mday := d, tm_yday := days - days_from_civil y 1 1,
        tm_wday := cmod (cmod days 7 + 11) 7, tm_hour := cdiv rem 3600, tm_min := cmod (cdiv rem 60) 60,
        tm_sec := cmod rem 60 \<rparr>))"

definition GMT :: "u8 list" where "GMT = lit ''GMT''"

definition gmtime_r :: "int \<Rightarrow> tm \<Rightarrow> errno + tm" where
  "gmtime_r t tm = (case secs_to_tm t tm of
     Inl e \<Rightarrow> Inl e
   | Inr tm \<Rightarrow> Inr (tm \<lparr> tm_isdst := 0, tm_gmtoff := 0, tm_zone := Some GMT \<rparr>))"

definition tm_to_secs :: "tm \<Rightarrow> int option" where
  "tm_to_secs tm =
     (let y = tm_year tm + 1900; mon = tm_mon tm;
          y = y + cdiv mon 12; mon = cmod mon 12;
          (y, mon) = (if mon < 0 then (y - 1, mon + 12) else (y, mon)) in
      if y > 2 ^ 40 \<or> y < - (2 ^ 40) then None
      else
        let t = (days_from_civil y (mon + 1) 1 + tm_mday tm - 1) * 86400 in
        Some (t + (tm_hour tm * 3600 + tm_min tm * 60 + tm_sec tm)))"

text \<open>The result and the \<open>struct tm\<close> afterwards; \<open>n0\<close> is what the local one holds at first.\<close>

definition timegm :: "tm \<Rightarrow> tm \<Rightarrow> (errno + int) \<times> tm" where
  "timegm n0 tm = (case tm_to_secs tm of
     None \<Rightarrow> (Inl EOVERFLOW, tm)
   | Some t \<Rightarrow> (case gmtime_r t n0 of Inl _ \<Rightarrow> (Inl EOVERFLOW, tm) | Inr n \<Rightarrow> (Inr t, n)))"

subsection \<open>The reference calendar\<close>

definition leap_year :: "int \<Rightarrow> bool" where
  "leap_year y \<longleftrightarrow> (4 dvd y \<and> \<not> 100 dvd y) \<or> 400 dvd y"

definition month_len :: "int \<Rightarrow> int \<Rightarrow> int" where
  "month_len y m = (if m = 2 then (if leap_year y then 29 else 28) else if m \<in> {4, 6, 9, 11} then 30 else 31)"

definition year_len :: "int \<Rightarrow> int" where
  "year_len y = (if leap_year y then 366 else 365)"

lemma cmod_dvd: "0 < b \<Longrightarrow> cmod a b = 0 \<longleftrightarrow> b dvd a"
  by (cases "0 \<le> a") (auto simp: cmod_neg mod_eq_0_iff_dvd)

lemma is_leap_iff: "is_leap y \<longleftrightarrow> leap_year y"
  by (simp add: is_leap_def leap_year_def cmod_dvd)

text \<open>Rounding down as the code writes it.\<close>

lemma cdiv_floor: "0 < b \<Longrightarrow> cdiv (if a \<ge> 0 then a else a - (b - 1)) b = a div b"
proof (cases "0 \<le> a")
  case False
  assume b: "0 < b"
  define q r where "q = a div b" and "r = a mod b"
  have a: "a = q * b + r" "0 \<le> r" "r < b" using b by (simp_all add: q_def r_def)
  have "(- (a - (b - 1))) div b = - q"
    by (rule int_div_pos_eq [of _ _ _ "b - 1 - r"]) (use a b in \<open>simp_all add: algebra_simps\<close>)
  then show ?thesis using False b by (simp add: cdiv_neg q_def)
qed simp

lemma days_from_civil_alt:
  "days_from_civil y m d =
     (let y' = y - (if m \<le> 2 then 1 else 0) in
      365 * y' + y' div 4 - y' div 100 + y' div 400 + (153 * (m + (if m > 2 then - 3 else 9)) + 2) div 5 + d - 719469)"
proof -
  define y' where "y' = y - (if m \<le> 2 then 1 else 0)"
  define era yoe where "era = y' div 400" and "yoe = y' mod 400"
  have y': "y' = yoe + era * 400" by (simp add: era_def yoe_def)
  have q: "y' div 4 = yoe div 4 + era * 100" "y' div 100 = yoe div 100 + era * 4" unfolding y' by simp_all
  have c: "cdiv (if y' \<ge> 0 then y' else y' - 399) 400 = era" using cdiv_floor [of 400 y'] by (simp add: era_def split: if_splits)
  have e: "y' - era * 400 = yoe" using y' by simp
  show ?thesis
    unfolding days_from_civil_def y'_def [symmetric] Let_def c e q era_def [symmetric] using y' by linarith
qed

lemma div_succ: "0 < k \<Longrightarrow> y div k = (y - 1) div k + (if k dvd y then 1 else (0 :: int))"
proof (cases "k dvd y")
  case True
  assume k: "0 < k"
  obtain q where q: "y = k * q" using True by (rule dvdE)
  have "(y - 1) div k = q - 1" by (rule int_div_pos_eq [of _ _ _ "k - 1"]) (use k q in \<open>simp_all add: algebra_simps\<close>)
  then show ?thesis using k q True by simp
next
  case False
  assume k: "0 < k"
  then have "y mod k \<noteq> 0" using False by (simp add: mod_eq_0_iff_dvd)
  then have "0 < y mod k" using k by (metis less_le pos_mod_sign)
  have "(y - 1) div k = y div k"
    by (rule int_div_pos_eq [of _ _ _ "y mod k - 1"]) (use k \<open>0 < y mod k\<close> pos_mod_bound [OF k, of y] in \<open>simp_all add: algebra_simps\<close>)
  then show ?thesis using False by simp
qed

lemma leap_count: "(if leap_year y then 1 else 0) =
    (if 4 dvd y then 1 else 0) - (if 100 dvd y then 1 else 0) + (if 400 dvd y then 1 else (0 :: int))"
proof -
  have "400 dvd y \<Longrightarrow> 100 dvd y" "100 dvd y \<Longrightarrow> 4 dvd y"
    using dvd_trans [of 100 400 y] dvd_trans [of 4 100 y] by simp_all
  then show ?thesis by (auto simp: leap_year_def)
qed

definition leap_days :: "int \<Rightarrow> int" where
  "leap_days y = y div 4 - y div 100 + y div 400"

lemma leap_days_step: "leap_days y = leap_days (y - 1) + (if leap_year y then 1 else 0)"
  unfolding leap_days_def leap_count div_succ [of 4 y, simplified] div_succ [of 100 y, simplified] div_succ [of 400 y, simplified]
  by simp

lemma days_before_march: "m \<le> 2 \<Longrightarrow>
    days_from_civil y m d = 365 * (y - 1) + leap_days (y - 1) + (153 * (m + 9) + 2) div 5 + d - 719469"
  by (simp add: days_from_civil_alt Let_def leap_days_def)

lemma days_from_march: "2 < m \<Longrightarrow>
    days_from_civil y m d = 365 * y + leap_days y + (153 * (m - 3) + 2) div 5 + d - 719469"
  by (simp add: days_from_civil_alt Let_def leap_days_def)

lemmas days_civil = days_before_march days_from_march

text \<open>It counts the days: one for the next day, a month for the next month, a year for the next year.\<close>

lemma days_epoch: "days_from_civil 1970 1 1 = 0"
  by (simp add: days_civil leap_days_def)

lemma days_mday: "days_from_civil y m (d + k) = days_from_civil y m d + k"
  by (cases "m \<le> 2") (simp_all add: days_civil)

lemma days_feb: "days_from_civil y 3 1 = days_from_civil y 2 1 + month_len y 2"
  by (simp add: days_civil month_len_def leap_days_step [of y])

lemma month_range: "1 \<le> m \<Longrightarrow> m \<le> 12 \<Longrightarrow> m \<in> {1, 2, 3, 4, 5, 6, 7, 8, 9, 10, 11, 12 :: int}"
proof -
  assume "1 \<le> m" "m \<le> 12"
  then have "m \<in> set [1..12]" by simp
  then show ?thesis by (simp add: upto.simps)
qed

lemma days_month: "1 \<le> m \<Longrightarrow> m \<le> 11 \<Longrightarrow> days_from_civil y (m + 1) 1 = days_from_civil y m 1 + month_len y m"
proof -
  assume "1 \<le> m" "m \<le> 11"
  then have "m = 2 \<or> m \<in> {1, 3, 4, 5, 6, 7, 8, 9, 10, 11}" using month_range [of m] by auto
  then show ?thesis
  proof
    assume "m = 2"
    then show ?thesis using days_feb [of y] by simp
  next
    assume "m \<in> {1, 3, 4, 5, 6, 7, 8, 9, 10, 11}"
    then show ?thesis by (elim insertE emptyE) (simp_all add: days_civil month_len_def)
  qed
qed

lemma days_december: "days_from_civil (y + 1) 1 1 = days_from_civil y 12 1 + month_len y 12"
  by (simp add: days_civil month_len_def)

lemma days_year: "days_from_civil (y + 1) 1 1 = days_from_civil y 1 1 + year_len y"
  by (simp add: days_civil year_len_def leap_days_step [of y])

subsection \<open>From days to a date\<close>

text \<open>Days before year \<open>k\<close> of an era, and the value from which the code computes the year.\<close>

definition era_days :: "int \<Rightarrow> int" where
  "era_days k = 365 * k + k div 4 - k div 100 + k div 400"

definition year_value :: "int \<Rightarrow> int" where
  "year_value doe = doe - doe div 1460 + doe div 36524 - doe div 146096"

lemma div_step: "0 < k \<Longrightarrow> (x + 1) div k = x div k + (if k dvd x + 1 then 1 else (0 :: int))"
  using div_succ [of k "x + 1"] by simp

lemma year_value_Suc: "year_value x \<le> year_value (x + 1)"
proof -
  have "146096 dvd x + 1 \<Longrightarrow> 36524 dvd x + 1"
    using dvd_trans [of 36524 146096 "x + 1"] by simp
  then show ?thesis
    unfolding year_value_def div_step [of 1460, simplified] div_step [of 36524, simplified] div_step [of 146096, simplified] by auto
qed

lemma year_value_mono: "x \<le> y \<Longrightarrow> year_value x \<le> year_value y"
  by (induction y rule: int_ge_induct) (auto intro: order_trans year_value_Suc)

lemma year_value_ends: "\<forall>k \<in> set [0..399]. 365 * k \<le> year_value (era_days k) \<and> year_value (era_days (k + 1) - 1) < 365 * (k + 1)"
  unfolding year_value_def era_days_def by code_simp

lemma era_year: "0 \<le> doe \<Longrightarrow> doe < era_days (int n) \<Longrightarrow> \<exists>k. 0 \<le> k \<and> k < int n \<and> era_days k \<le> doe \<and> doe < era_days (k + 1)"
proof (induction n)
  case (Suc n)
  show ?case
  proof (cases "doe < era_days (int n)")
    case True
    with Suc.IH Suc.prems show ?thesis by force
  next
    case False
    then show ?thesis using Suc.prems by (intro exI [of _ "int n"]) (simp add: add.commute)
  qed
qed (simp add: era_days_def)

lemma yoe_correct:
  assumes "0 \<le> doe" "doe < 146097"
  shows "\<exists>k. year_value doe div 365 = k \<and> 0 \<le> k \<and> k < 400 \<and> era_days k \<le> doe \<and> doe < era_days (k + 1)"
proof -
  have "era_days (int 400) = 146097" by (simp add: era_days_def)
  with assms obtain k where k: "0 \<le> k" "k < 400" "era_days k \<le> doe" "doe < era_days (k + 1)"
    using era_year [of doe 400] by auto
  have "365 * k \<le> year_value doe" "year_value doe < 365 * (k + 1)"
    using bspec [OF year_value_ends, of k] k year_value_mono [of "era_days k" doe] year_value_mono [of doe "era_days (k + 1) - 1"]
    by simp_all
  then have "year_value doe div 365 = k" by (intro int_div_pos_eq [of _ _ _ "year_value doe - 365 * k"]) auto
  with k show ?thesis by blast
qed

lemma month_correct:
  "\<forall>doy \<in> set [0..365]. let mp = (5 * doy + 2) div 153 in 0 \<le> mp \<and> mp \<le> 11 \<and>
     (153 * mp + 2) div 5 \<le> doy \<and> doy < (153 * (mp + 1) + 2) div 5"
  by code_simp


text \<open>A day of the proleptic Gregorian calendar.\<close>

definition valid_date :: "int \<Rightarrow> int \<Rightarrow> int \<Rightarrow> bool" where
  "valid_date y m d \<longleftrightarrow> 1 \<le> m \<and> m \<le> 12 \<and> 1 \<le> d \<and> d \<le> month_len y m"

text \<open>The date the code computes from the number of days since 1970.\<close>

definition civil :: "int \<Rightarrow> int \<times> int \<times> int" where
  "civil days =
     (let z = days + 719468; era = z div 146097; doe = z mod 146097; yoe = year_value doe div 365;
          doy = doe - (365 * yoe + yoe div 4 - yoe div 100); mp = (5 * doy + 2) div 153;
          m = (if mp < 10 then mp + 3 else mp - 9) in
      (yoe + era * 400 + (if m \<le> 2 then 1 else 0), m, doy - (153 * mp + 2) div 5 + 1))"

lemma leap_days_era: "0 \<le> k \<Longrightarrow> k < 400 \<Longrightarrow> leap_days (k + era * 400) = k div 4 - k div 100 + era * 97"
proof -
  assume "0 \<le> k" "k < 400"
  moreover have "(k + era * 400) div 4 = k div 4 + era * 100" "(k + era * 400) div 100 = k div 100 + era * 4" by simp_all
  ultimately show ?thesis by (simp add: leap_days_def)
qed

lemma era_days_Suc: "0 \<le> k \<Longrightarrow> k < 400 \<Longrightarrow>
    era_days (k + 1) = 365 * k + k div 4 - k div 100 + 365 + (if leap_year (k + 1 + era * 400) then 1 else 0)"
proof -
  assume k: "0 \<le> k" "k < 400"
  have "leap_year (k + 1 + era * 400) = leap_year (k + 1)"
    unfolding leap_year_def by (simp add: dvd_add_left_iff)
  moreover have "era_days (k + 1) = 365 * (k + 1) + leap_days (k + 1)" by (simp add: era_days_def leap_days_def)
  moreover have "leap_days (k + 1) = leap_days k + (if leap_year (k + 1) then 1 else 0)" using leap_days_step [of "k + 1"] by simp
  moreover have "leap_days k = k div 4 - k div 100" using k by (simp add: leap_days_def)
  ultimately show ?thesis by simp
qed

lemma civil_correct: "civil days = (y, m, d) \<Longrightarrow> valid_date y m d \<and> days_from_civil y m d = days"
proof -
  assume c: "civil days = (y, m, d)"
  define z era doe where "z = days + 719468" and "era = z div 146097" and "doe = z mod 146097"
  obtain k where k: "year_value doe div 365 = k" "0 \<le> k" "k < 400" "era_days k \<le> doe" "doe < era_days (k + 1)"
    using yoe_correct [of doe] by (auto simp: doe_def)
  define doy mp where "doy = doe - (365 * k + k div 4 - k div 100)" and "mp = (5 * doy + 2) div 153"
  have ek: "era_days k = 365 * k + k div 4 - k div 100" using k(2,3) by (simp add: era_days_def)
  have doy: "0 \<le> doy" "doy < 365 + (if leap_year (k + 1 + era * 400) then 1 else 0)"
    using k(4,5) era_days_Suc [OF k(2,3), of era] ek by (simp_all add: doy_def)
  have "doy \<in> set [0..365]" using doy by (simp split: if_splits)
  then have mp: "0 \<le> mp" "mp \<le> 11" "(153 * mp + 2) div 5 \<le> doy" "doy < (153 * (mp + 1) + 2) div 5"
    using month_correct by (simp_all add: mp_def Let_def)
  have z: "z = doe + era * 146097" by (simp add: doe_def era_def)
  have days: "days = 365 * (k + era * 400) + leap_days (k + era * 400) + doy - 719468"
    using z leap_days_era [OF k(2,3), of era] by (simp add: z_def doy_def)
  have ymd: "m = (if mp < 10 then mp + 3 else mp - 9)" "y = k + era * 400 + (if mp < 10 then 0 else 1)"
    "d = doy - (153 * mp + 2) div 5 + 1"
    using c mp unfolding civil_def z_def [symmetric] era_def [symmetric] doe_def [symmetric] Let_def k(1) doy_def [symmetric] mp_def [symmetric]
    by (auto split: if_splits)
  have "days_from_civil y m d = days"
    using mp ymd days by (cases "mp < 10") (simp_all add: days_civil)
  moreover have "d \<le> month_len y m"
  proof -
    have "mp + 1 \<in> {1, 2, 3, 4, 5, 6, 7, 8, 9, 10, 11, 12}" using month_range [of "mp + 1"] mp by simp
    then have "mp = 11 \<or> mp \<in> {0, 1, 2, 3, 4, 5, 6, 7, 8, 9, 10}" by auto
    then show ?thesis
    proof
      assume 11: "mp = 11"
      then have "k + 1 + era * 400 = y" using ymd(2) by simp
      with doy(2) have "doy < 365 + (if leap_year y then 1 else 0)" by simp
      then show ?thesis using 11 ymd(1,3) by (simp add: month_len_def split: if_splits)
    next
      assume "mp \<in> {0, 1, 2, 3, 4, 5, 6, 7, 8, 9, 10}"
      then show ?thesis using mp(3,4) ymd by (elim insertE emptyE) (simp_all add: month_len_def)
    qed
  qed
  ultimately show ?thesis using mp ymd by (auto simp: valid_date_def)
qed


subsection \<open>A day has one date\<close>

lemma days_in_month: "valid_date y m d \<Longrightarrow>
    days_from_civil y m 1 \<le> days_from_civil y m d \<and> days_from_civil y m d < days_from_civil y m 1 + month_len y m"
  using days_mday [of y m 1 "d - 1"] by (simp add: valid_date_def)

lemma month_len_pos: "28 \<le> month_len y m"
  by (simp add: month_len_def)

lemma days_months: "m < m' \<Longrightarrow> 1 \<le> m \<Longrightarrow> m' \<le> 12 \<Longrightarrow> days_from_civil y m 1 + month_len y m \<le> days_from_civil y m' 1"
proof (induction m' rule: int_gr_induct)
  case base
  then show ?case using days_month [of m y] by simp
next
  case (step i)
  then show ?case using days_month [of i y] month_len_pos [of y i] by simp
qed

lemma days_in_year: "valid_date y m d \<Longrightarrow>
    days_from_civil y 1 1 \<le> days_from_civil y m d \<and> days_from_civil y m d < days_from_civil (y + 1) 1 1"
proof -
  assume v: "valid_date y m d"
  then have m: "1 \<le> m" "m \<le> 12" by (simp_all add: valid_date_def)
  have "days_from_civil y 1 1 \<le> days_from_civil y m 1"
    using days_months [of 1 m y] m month_len_pos [of y 1] by (cases "m = 1") simp_all
  moreover have "days_from_civil y m 1 + month_len y m \<le> days_from_civil (y + 1) 1 1"
    using days_months [of m 12 y] m month_len_pos [of y 12] days_december [of y] by (cases "m = 12") simp_all
  ultimately show ?thesis using days_in_month [OF v] by linarith
qed

lemma days_years: "y \<le> y' \<Longrightarrow> days_from_civil y 1 1 \<le> days_from_civil y' 1 1"
  by (induction y' rule: int_ge_induct) (simp_all add: days_year year_len_def)

lemma date_unique:
  assumes "valid_date y m d" "valid_date y' m' d'" "days_from_civil y m d = days_from_civil y' m' d'"
  shows "y = y' \<and> m = m' \<and> d = d'"
proof -
  have "\<not> y < y'" "\<not> y' < y"
    using days_in_year [OF assms(1)] days_in_year [OF assms(2)] assms(3) days_years [of "y + 1" y'] days_years [of "y' + 1" y]
    by (auto simp del: add_less_cancel_right)
  then have y: "y = y'" by simp
  have "\<not> m < m'" "\<not> m' < m"
    using days_in_month [OF assms(1)] days_in_month [OF assms(2)] assms y days_months [of m m' y] days_months [of m' m y]
    by (auto simp: valid_date_def)
  then have "m = m'" by simp
  then show ?thesis using y assms(3) days_mday [of y m 1 "d - 1"] days_mday [of y m 1 "d' - 1"] by simp
qed

subsection \<open>Seconds and broken-down time\<close>

lemma floor_split:
  assumes "0 < b"
  shows "(if cmod a b < 0 then (cdiv a b - 1, cmod a b + b) else (cdiv a b, cmod a b)) = (a div b, a mod b)"
proof (cases "0 \<le> a")
  case False
  define q r where "q = (- a) div b" and "r = (- a) mod b"
  have a: "a = - (q * b + r)" "0 \<le> r" "r < b" using assms by (simp_all add: q_def r_def algebra_simps)
  have c: "cdiv a b = - q" "cmod a b = - r" using False assms by (simp_all add: cdiv_neg cmod_neg q_def r_def)
  have d: "a div b = (if r = 0 then - q else - q - 1)"
    by (rule int_div_pos_eq [of _ _ _ "if r = 0 then 0 else b - r"]) (use a assms in \<open>auto simp: algebra_simps\<close>)
  have m: "a mod b = (if r = 0 then 0 else b - r)"
  proof -
    have "a mod b = - (q * b + r) - a div b * b" by (subst a(1) [symmetric]) (simp add: minus_div_mult_eq_mod)
    then show ?thesis unfolding d by (simp add: algebra_simps split: if_splits)
  qed
  show ?thesis using c d m a(2) by (cases "r = 0") simp_all
qed (simp add: assms not_less pos_mod_sign)

lemma weekday: "cmod (cmod days 7 + 11) 7 = (days + 4) mod 7"
proof -
  define r where "r = days mod 7"
  have r: "0 \<le> r" by (simp add: r_def)
  have m: "(r + 4) mod 7 = (days + 4) mod 7" unfolding r_def by (rule mod_add_left_eq)
  have "cmod days 7 = r \<or> cmod days 7 = r - 7"
    using floor_split [of 7 days] unfolding r_def [symmetric] by (cases "cmod days 7 < 0") simp_all
  then show ?thesis
  proof
    assume "cmod days 7 = r"
    then have "cmod (cmod days 7 + 11) 7 = ((r + 4) + 7) mod 7" using r by (simp add: add.assoc)
    then show ?thesis using m by (simp only: mod_add_self2)
  next
    assume "cmod days 7 = r - 7"
    then have "cmod (cmod days 7 + 11) 7 = cmod (r + 4) 7" by (simp add: add.commute)
    then show ?thesis using r m by simp
  qed
qed

lemma floor_day: "(if cmod t 86400 < 0 then (cdiv t 86400 - 1, cmod t 86400 + 86400) else (cdiv t 86400, cmod t 86400)) =
    (t div 86400, t mod 86400)"
  by (rule floor_split) simp

lemma floor_era: "cdiv (if z \<ge> 0 then z else z - 146096) 146097 = z div 146097"
  using cdiv_floor [of 146097 z] by (simp split: if_splits)

lemma secs_to_tm_eq:
  "secs_to_tm t tm = (case civil (t div 86400) of (y, m, d) \<Rightarrow>
     if y - 1900 > INT_MAX \<or> y - 1900 < INT_MIN then Inl EOVERFLOW
     else Inr (tm \<lparr> tm_year := y - 1900, tm_mon := m - 1, tm_mday := d, tm_yday := t div 86400 - days_from_civil y 1 1,
        tm_wday := (t div 86400 + 4) mod 7, tm_hour := t mod 86400 div 3600, tm_min := t mod 86400 div 60 mod 60,
        tm_sec := t mod 86400 mod 60 \<rparr>))"
proof -
  have e: "z - 146097 * (z div 146097) = z mod 146097" "z - (z div 146097) * 146097 = z mod 146097" for z :: int
    by (simp_all add: minus_mult_div_eq_mod minus_div_mult_eq_mod)
  have s: "cdiv (t mod 86400) 3600 = t mod 86400 div 3600" "cmod (cdiv (t mod 86400) 60) 60 = t mod 86400 div 60 mod 60"
    "cmod (t mod 86400) 60 = t mod 86400 mod 60"
    by (simp_all add: pos_imp_zdiv_nonneg_iff)
  show ?thesis
    unfolding secs_to_tm_def civil_def year_value_def
    by (simp only: Let_def floor_day case_prod_conv floor_era weekday e s)
qed

definition valid_tm :: "tm \<Rightarrow> bool" where
  "valid_tm tm \<longleftrightarrow> valid_date (tm_year tm + 1900) (tm_mon tm + 1) (tm_mday tm) \<and>
     0 \<le> tm_hour tm \<and> tm_hour tm < 24 \<and> 0 \<le> tm_min tm \<and> tm_min tm < 60 \<and> 0 \<le> tm_sec tm \<and> tm_sec tm < 60 \<and>
     INT_MIN \<le> tm_year tm \<and> tm_year tm \<le> INT_MAX"

definition tm_days :: "tm \<Rightarrow> int" where
  "tm_days tm = days_from_civil (tm_year tm + 1900) (tm_mon tm + 1) (tm_mday tm)"

definition tm_clock :: "tm \<Rightarrow> int" where
  "tm_clock tm = tm_hour tm * 3600 + tm_min tm * 60 + tm_sec tm"

lemma tm_to_secs_valid: "valid_tm tm \<Longrightarrow> tm_to_secs tm = Some (tm_days tm * 86400 + tm_clock tm)"
proof -
  assume v: "valid_tm tm"
  then have "0 \<le> tm_mon tm" "tm_mon tm < 12" by (simp_all add: valid_tm_def valid_date_def)
  then have m: "cdiv (tm_mon tm) 12 = 0" "cmod (tm_mon tm) 12 = tm_mon tm" by simp_all
  have y: "\<not> (tm_year tm + 1900 > 2 ^ 40 \<or> tm_year tm + 1900 < - (2 ^ 40))"
    using v by (simp add: valid_tm_def INT_MIN_def INT_MAX_def)
  show ?thesis
    using \<open>0 \<le> tm_mon tm\<close> y days_mday [of "tm_year tm + 1900" "tm_mon tm + 1" 1 "tm_mday tm - 1"]
    by (simp add: tm_to_secs_def m Let_def tm_days_def tm_clock_def algebra_simps)
qed

lemma clock_range: "valid_tm tm \<Longrightarrow> 0 \<le> tm_clock tm \<and> tm_clock tm < 86400"
  by (simp add: valid_tm_def tm_clock_def)

lemma clock_fields:
  "valid_tm tm \<Longrightarrow> tm_clock tm div 3600 = tm_hour tm \<and> tm_clock tm div 60 mod 60 = tm_min tm \<and> tm_clock tm mod 60 = tm_sec tm"
proof -
  assume v: "valid_tm tm"
  have "tm_clock tm div 3600 = tm_hour tm"
    by (rule int_div_pos_eq [of _ _ _ "tm_min tm * 60 + tm_sec tm"]) (use v in \<open>simp_all add: valid_tm_def tm_clock_def\<close>)
  moreover have "tm_clock tm div 60 = tm_hour tm * 60 + tm_min tm"
    by (rule int_div_pos_eq [of _ _ _ "tm_sec tm"]) (use v in \<open>simp_all add: valid_tm_def tm_clock_def\<close>)
  moreover have "tm_clock tm mod 60 = tm_sec tm"
    by (rule int_mod_pos_eq [of _ _ "tm_hour tm * 60 + tm_min tm"]) (use v in \<open>simp_all add: valid_tm_def tm_clock_def\<close>)
  moreover have "(tm_hour tm * 60 + tm_min tm) mod 60 = tm_min tm"
    by (rule int_mod_pos_eq [of _ _ "tm_hour tm"]) (use v in \<open>simp_all add: valid_tm_def\<close>)
  ultimately show ?thesis by simp
qed

lemma clock_sum: "0 \<le> r \<Longrightarrow> r < 86400 \<Longrightarrow> r div 3600 * 3600 + r div 60 mod 60 * 60 + r mod 60 = (r :: int)"
proof -
  have "r div 60 div 60 = r div 3600" by (simp add: zdiv_zmult2_eq [symmetric])
  then have "r div 3600 * 60 + r div 60 mod 60 = r div 60" using div_mult_mod_eq [of "r div 60" 60] by simp
  then have "(r div 3600 * 60 + r div 60 mod 60) * 60 + r mod 60 = r" using div_mult_mod_eq [of r 60] by simp
  then show ?thesis by (simp add: algebra_simps)
qed

lemma secs_to_tm_valid:
  assumes "secs_to_tm t tm0 = Inr tm"
  shows "valid_tm tm" "t = tm_days tm * 86400 + tm_clock tm" "tm_wday tm = (t div 86400 + 4) mod 7"
    "t div 86400 = days_from_civil (tm_year tm + 1900) 1 1 + tm_yday tm" "0 \<le> tm_yday tm" "tm_yday tm < year_len (tm_year tm + 1900)"
proof -
  obtain D r where D: "t div 86400 = D" "t mod 86400 = r" "t = D * 86400 + r" "0 \<le> r" "r < 86400"
    by (rule that [of "t div 86400" "t mod 86400"]) simp_all
  obtain y m d where c: "civil D = (y, m, d)" by (cases "civil D")
  have v: "valid_date y m d" "days_from_civil y m d = D" using civil_correct [OF c] by simp_all
  have eq: "(if y - 1900 > INT_MAX \<or> y - 1900 < INT_MIN then Inl EOVERFLOW
     else Inr (tm0 \<lparr> tm_year := y - 1900, tm_mon := m - 1, tm_mday := d, tm_yday := D - days_from_civil y 1 1,
        tm_wday := (D + 4) mod 7, tm_hour := r div 3600, tm_min := r div 60 mod 60, tm_sec := r mod 60 \<rparr>)) = Inr tm"
    using assms by (simp only: secs_to_tm_eq D(1,2) c case_prod_conv)
  then have y: "y - 1900 \<le> INT_MAX" "y - 1900 \<ge> INT_MIN" by (simp_all split: if_splits)
  with eq have tm: "tm = tm0 \<lparr> tm_year := y - 1900, tm_mon := m - 1, tm_mday := d, tm_yday := D - days_from_civil y 1 1,
        tm_wday := (D + 4) mod 7, tm_hour := r div 3600, tm_min := r div 60 mod 60, tm_sec := r mod 60 \<rparr>"
    by simp
  have h: "0 \<le> r div 3600" "r div 3600 < 24" using D(4,5) by (simp_all add: pos_imp_zdiv_nonneg_iff div_less_iff_less_mult)
  show "valid_tm tm" using v y h by (simp add: tm valid_tm_def)
  show "t = tm_days tm * 86400 + tm_clock tm"
    unfolding D(3) using v clock_sum [OF D(4,5)] by (simp add: tm tm_days_def tm_clock_def)
  show "tm_wday tm = (t div 86400 + 4) mod 7" "t div 86400 = days_from_civil (tm_year tm + 1900) 1 1 + tm_yday tm"
    unfolding D(1) by (simp_all add: tm)
  show "0 \<le> tm_yday tm" "tm_yday tm < year_len (tm_year tm + 1900)"
    using days_in_year [OF v(1)] v(2) days_year [of y] by (simp_all add: tm)
qed

text \<open>
  C90. \<open>gmtime_r\<close> gives the date and the time of day of a number of seconds in the Gregorian calendar: the
  fields are in range, the date counts to the day of the seconds, the weekday and the day of the
  year fit it, and \<open>timegm\<close> turns the fields back into the same seconds and fields.  It fails, with
  EOVERFLOW, just when the year of that day does not fit an \<open>int\<close>.
\<close>

theorem gmtime_correct:
  "case gmtime_r t tm0 of
     Inr tm \<Rightarrow> valid_tm tm \<and> tm_days tm * 86400 + tm_clock tm = t \<and> tm_wday tm = (t div 86400 + 4) mod 7 \<and>
       tm_days tm = days_from_civil (tm_year tm + 1900) 1 1 + tm_yday tm \<and> 0 \<le> tm_yday tm \<and>
       tm_yday tm < year_len (tm_year tm + 1900) \<and> timegm n0 tm = (Inr t, tm)
   | Inl e \<Rightarrow> e = EOVERFLOW \<and> (\<exists>y m d. valid_date y m d \<and> days_from_civil y m d = t div 86400 \<and>
       (y - 1900 > INT_MAX \<or> y - 1900 < INT_MIN))"
proof (cases "secs_to_tm t tm0")
  case (Inl e)
  obtain y m d where c: "civil (t div 86400) = (y, m, d)" by (cases "civil (t div 86400)")
  have "e = EOVERFLOW" "y - 1900 > INT_MAX \<or> y - 1900 < INT_MIN"
    using Inl by (simp_all only: secs_to_tm_eq c case_prod_conv split: if_splits) simp_all
  then show ?thesis using civil_correct [OF c] Inl by (auto simp: gmtime_r_def)
next
  case (Inr tm1)
  note v = secs_to_tm_valid [OF Inr]
  define tm where "tm = tm1 \<lparr> tm_isdst := 0, tm_gmtoff := 0, tm_zone := Some GMT \<rparr>"
  have g: "gmtime_r t tm0 = Inr tm" using Inr by (simp add: gmtime_r_def tm_def)
  have valid: "valid_tm tm" and t: "tm_days tm * 86400 + tm_clock tm = t"
    using v by (simp_all add: valid_tm_def tm_days_def tm_clock_def tm_def)
  have "gmtime_r t n0 = gmtime_r t tm0"
    by (cases "civil (t div 86400)") (simp add: gmtime_r_def secs_to_tm_eq)
  then have "timegm n0 tm = (Inr t, tm)" using tm_to_secs_valid [OF valid] t g by (simp add: timegm_def)
  moreover have "tm_days tm = t div 86400"
    using clock_range [OF valid] by (intro int_div_pos_eq [symmetric, of _ _ _ "tm_clock tm"]) (simp_all add: t [symmetric])
  ultimately show ?thesis using valid t v g by (simp add: tm_def)
qed

text \<open>
  C91. \<open>timegm\<close> inverts \<open>gmtime_r\<close>: for a date of the calendar and a time of day it returns the
  seconds since 1970 of that moment, and the normalised structure it writes back has the same
  fields.
\<close>

theorem timegm_roundtrip:
  assumes "valid_tm tm"
  shows "\<exists>t n. timegm n0 tm = (Inr t, n) \<and> gmtime_r t n0 = Inr n \<and> t = tm_days tm * 86400 + tm_clock tm \<and>
     tm_year n = tm_year tm \<and> tm_mon n = tm_mon tm \<and> tm_mday n = tm_mday tm \<and>
     tm_hour n = tm_hour tm \<and> tm_min n = tm_min tm \<and> tm_sec n = tm_sec tm"
proof -
  define t where "t = tm_days tm * 86400 + tm_clock tm"
  have D: "t div 86400 = tm_days tm" "t mod 86400 = tm_clock tm"
    using clock_range [OF assms] by (auto simp: t_def intro!: int_div_pos_eq int_mod_pos_eq)
  obtain y m d where c: "civil (tm_days tm) = (y, m, d)" by (cases "civil (tm_days tm)")
  have "valid_date y m d" "days_from_civil y m d = tm_days tm" using civil_correct [OF c] by simp_all
  then have u: "y = tm_year tm + 1900" "m = tm_mon tm + 1" "d = tm_mday tm"
    using date_unique [of y m d "tm_year tm + 1900" "tm_mon tm + 1" "tm_mday tm"] assms
    by (simp_all add: valid_tm_def tm_days_def)
  have "\<not> (y - 1900 > INT_MAX \<or> y - 1900 < INT_MIN)" using assms u by (simp add: valid_tm_def)
  then obtain n where n: "gmtime_r t n0 = Inr n" "tm_year n = tm_year tm" "tm_mon n = tm_mon tm" "tm_mday n = tm_mday tm"
      "tm_hour n = tm_hour tm" "tm_min n = tm_min tm" "tm_sec n = tm_sec tm"
    using u clock_fields [OF assms] by (simp add: gmtime_r_def secs_to_tm_eq D c)
  then show ?thesis using tm_to_secs_valid [OF assms] by (simp add: timegm_def t_def)
qed

definition sample_tm :: tm where
  "sample_tm = \<lparr> tm_sec = 59, tm_min = 30, tm_hour = 23, tm_mday = 29, tm_mon = 1, tm_year = 124, tm_wday = 0, tm_yday = 0,
     tm_isdst = 0, tm_gmtoff = 0, tm_zone = None \<rparr>"

theorem timegm_roundtrip_witness:
  "fst (timegm sample_tm sample_tm) = Inr 1709249459 \<and> tm_mday (snd (timegm sample_tm sample_tm)) = 29"
proof -
  have "valid_tm sample_tm" by code_simp
  from timegm_roundtrip [OF this, of sample_tm] show ?thesis
    by (auto simp: tm_days_def tm_clock_def sample_tm_def days_from_march days_before_march leap_days_def)
qed

end
