(* ===== verification/Tz.thy ===== *)
theory Tz
  imports Calendar
begin

unbundle bit_operations_syntax

text \<open>
  Time zones, \<^verbatim>\<open>src/tz.c\<close>: POSIX TZ strings, TZif files, \<open>tzset\<close> and \<open>__tz_lookup\<close>.  A
  \<open>const char *\<close> that moves over a NUL-terminated string is the list of the bytes left (\<open>cur\<close> is the
  byte under it, 0 at the end); a parser returns what it parsed and the bytes left, \<open>None\<close> for the
  code's -1.  The flag \<open>valid\<close> of a rule is the option around it: the members of an invalid rule
  are never read.  Reads of a TZif file outside its bytes and writes past the zone's fixed arrays are
  faults, the outer \<open>None\<close> of a result.  The lock around the zone is not modelled.
\<close>

subsection \<open>Data\<close>

definition MAX_TZFILE :: nat where "MAX_TZFILE = 2 ^ 20"
definition MAX_TIMES :: nat where "MAX_TIMES = 4000"
definition MAX_TYPES :: nat where "MAX_TYPES = 256"
definition MAX_ABBR :: nat where "MAX_ABBR = 256"
definition ZONEINFO :: "u8 list" where "ZONEINFO = lit ''/usr/share/zoneinfo/''"

text \<open>\<open>KNone\<close> is the 0 of a cleared date.\<close>

datatype rule_kind = KNone | KJ | KD | KM

record rule_date =
  kind :: rule_kind
  rn :: int
  rm :: int
  rw :: int
  rd :: int
  secs :: int

record posix_rule =
  std :: "u8 list"
  dst :: "u8 list"
  std_off :: int
  dst_off :: int
  has_dst :: bool
  start_date :: rule_date
  end_date :: rule_date

record ttype =
  t_off :: int
  t_isdst :: int
  abbr_at :: nat

record zone =
  key :: "u8 list"
  loaded :: bool
  times :: "int list"
  idx :: "nat list"
  types :: "ttype list"
  abbr :: "u8 list"
  rule :: "posix_rule option"

record tzstate = zone +
  tzname0 :: "u8 list"
  tzname1 :: "u8 list"
  timezone :: int
  daylight :: bool

definition cur :: "u8 list \<Rightarrow> u8" where
  "cur s = (case s of [] \<Rightarrow> 0 | c # _ \<Rightarrow> c)"

subsection \<open>POSIX TZ strings\<close>

definition is_digit :: "u8 \<Rightarrow> bool" where
  "is_digit c \<longleftrightarrow> c - 0x30 < 10"

fun quoted_name :: "u8 list \<Rightarrow> u8 list \<Rightarrow> (u8 list \<times> u8 list) option" where
  "quoted_name [] out = Some (out, [])"
| "quoted_name (c # s) out =
     (if c \<noteq> 0 \<and> c \<noteq> 0x3e then
        if length out + 1 \<ge> 16 then None else quoted_name s (out @ [c])
      else Some (out, c # s))"

fun plain_name :: "u8 list \<Rightarrow> u8 list \<Rightarrow> (u8 list \<times> u8 list) option" where
  "plain_name [] out = Some (out, [])"
| "plain_name (c # s) out =
     (if (c OR 32) - 0x61 < 26 then
        if length out + 1 \<ge> 16 then None else plain_name s (out @ [c])
      else Some (out, c # s))"

definition parse_name :: "u8 list \<Rightarrow> (u8 list \<times> u8 list) option" where
  "parse_name s = do {
     (out, s) \<leftarrow> (if cur s = 0x3c then do {
         (out, s) \<leftarrow> quoted_name (tl s) [];
         if cur s \<noteq> 0x3e then None else Some (out, tl s) }
       else plain_name s []);
     if length out < 3 then None else Some (out, s) }"

text \<open>\<open>while (*s is a digit && v < lim) v = v * 10 + (*s++ - '0')\<close>\<close>

fun scan_num :: "int \<Rightarrow> u8 list \<Rightarrow> int \<Rightarrow> int \<times> u8 list" where
  "scan_num lim [] v = (v, [])"
| "scan_num lim (c # s) v =
     (if is_digit c \<and> v < lim then scan_num lim s (v * 10 + (uint c - 0x30)) else (v, c # s))"

definition parse_hms :: "u8 list \<Rightarrow> (int \<times> u8 list) option" where
  "parse_hms s =
     (let sign = (cur s = 0x2b \<or> cur s = 0x2d); neg = (cur s = 0x2d); s = (if sign then tl s else s) in
      if \<not> is_digit (cur s) then None
      else do {
        let (h, s) = scan_num 1000 s 0;
        (m, sec, s) \<leftarrow> (if cur s = 0x3a then
            let s = tl s in
            if \<not> is_digit (cur s) then None
            else let (m, s) = scan_num 100 s 0 in
              if cur s = 0x3a then
                let s = tl s in
                if \<not> is_digit (cur s) then None
                else let (sec, s) = scan_num 100 s 0 in Some (m, sec, s)
              else Some (m, 0, s)
          else Some (0, 0, s));
        if h > 167 \<or> m > 59 \<or> sec > 59 then None
        else Some ((h * 3600 + m * 60 + sec) * (if neg then - 1 else 1), s) })"

definition parse_num :: "int \<Rightarrow> int \<Rightarrow> u8 list \<Rightarrow> (int \<times> u8 list) option" where
  "parse_num lo hi s =
     (if \<not> is_digit (cur s) then None
      else let (n, s) = scan_num (hi + 1) s 0 in
        if n < lo \<or> n > hi then None else Some (n, s))"

text \<open>\<open>*s++ != c\<close>\<close>

definition expect :: "u8 \<Rightarrow> u8 list \<Rightarrow> u8 list option" where
  "expect c s = (if cur s \<noteq> c then None else Some (tl s))"

definition no_date :: rule_date where
  "no_date = \<lparr> kind = KNone, rn = 0, rm = 0, rw = 0, rd = 0, secs = 0 \<rparr>"

definition parse_date :: "u8 list \<Rightarrow> (rule_date \<times> u8 list) option" where
  "parse_date s = do {
     (d, s) \<leftarrow> (if cur s = 0x4a then do {
         (n, s) \<leftarrow> parse_num 1 365 (tl s); Some (no_date \<lparr> kind := KJ, rn := n \<rparr>, s) }
       else if cur s = 0x4d then do {
         (m, s) \<leftarrow> parse_num 1 12 (tl s);
         s \<leftarrow> expect 0x2e s;
         (w, s) \<leftarrow> parse_num 1 5 s;
         s \<leftarrow> expect 0x2e s;
         (d, s) \<leftarrow> parse_num 0 6 s;
         Some (no_date \<lparr> kind := KM, rm := m, rw := w, rd := d \<rparr>, s) }
       else do { (n, s) \<leftarrow> parse_num 0 365 s; Some (no_date \<lparr> kind := KD, rn := n \<rparr>, s) });
     if cur s = 0x2f then do { (t, s) \<leftarrow> parse_hms (tl s); Some (d \<lparr> secs := t \<rparr>, s) }
     else Some (d \<lparr> secs := 7200 \<rparr>, s) }"

definition no_rule :: posix_rule where
  "no_rule = \<lparr> std = [], dst = [], std_off = 0, dst_off = 0, has_dst = False,
     start_date = no_date, end_date = no_date \<rparr>"

text \<open>An offset of a zone: \<open>parse_hms(&s, &off) || off > 24 * 3600 || off < -24 * 3600\<close>.\<close>

definition parse_off :: "u8 list \<Rightarrow> (int \<times> u8 list) option" where
  "parse_off s = do {
     (off, s) \<leftarrow> parse_hms s;
     if off > 24 * 3600 \<or> off < - 24 * 3600 then None else Some (off, s) }"

definition parse_posix :: "u8 list \<Rightarrow> posix_rule option" where
  "parse_posix s = do {
     (name, s) \<leftarrow> parse_name s;
     (off, s) \<leftarrow> parse_off s;
     let r = no_rule \<lparr> std := name, std_off := - off \<rparr>;
     (r, s) \<leftarrow> (if cur s \<noteq> 0 then do {
         (name, s) \<leftarrow> parse_name s;
         let r = r \<lparr> dst := name, has_dst := True, dst_off := std_off r + 3600 \<rparr>;
         (r, s) \<leftarrow> (if cur s \<noteq> 0 \<and> cur s \<noteq> 0x2c then do {
             (off, s) \<leftarrow> parse_off s; Some (r \<lparr> dst_off := - off \<rparr>, s) }
           else Some (r, s));
         if cur s = 0x2c then do {
           (d, s) \<leftarrow> parse_date (tl s);
           s \<leftarrow> expect 0x2c s;
           (e, s) \<leftarrow> parse_date s;
           Some (r \<lparr> start_date := d, end_date := e \<rparr>, s) }
         else Some (r \<lparr> start_date := \<lparr> kind = KM, rn = 0, rm = 3, rw = 2, rd = 0, secs = 7200 \<rparr>,
           end_date := \<lparr> kind = KM, rn = 0, rm = 11, rw = 1, rd = 0, secs = 7200 \<rparr> \<rparr>, s) }
       else Some (r, s));
     if cur s \<noteq> 0 then None else Some r }"

subsection \<open>Rules\<close>

definition mlen :: "int list" where
  "mlen = [31, 28, 31, 30, 31, 30, 31, 31, 30, 31, 30, 31]"

function week_back :: "int \<Rightarrow> int \<Rightarrow> int" where
  "week_back mday len = (if mday > len then week_back (mday - 7) len else mday)"
  by auto
termination by (relation "measure (\<lambda>(mday, len). nat (mday - len))") auto

declare week_back.simps [simp del]

text \<open>A month outside 1 to 12 reads outside \<open>mlen\<close>.\<close>

definition rule_time :: "int \<Rightarrow> rule_date \<Rightarrow> int option" where
  "rule_time year d = do {
     day \<leftarrow> (if kind d = KJ then Some (rn d - 1 + (if is_leap year \<and> rn d \<ge> 60 then 1 else 0))
       else if kind d = KD then Some (rn d)
       else if rm d < 1 \<or> rm d > 12 then None
       else
         let first = days_from_civil year (rm d) 1; jan1 = days_from_civil year 1 1;
             wd_first = cmod (cmod first 7 + 7 + 4) 7;
             delta = cmod (rd d - wd_first + 7) 7;
             mday = 1 + delta + 7 * (rw d - 1);
             len = mlen ! nat (rm d - 1) + (if rm d = 2 \<and> is_leap year then 1 else 0) in
         Some (first - jan1 + week_back mday len - 1));
     Some (day * 86400 + secs d) }"

definition rule_year :: "int \<Rightarrow> int option" where
  "rule_year days = do {
     let y = 1970 + (if days \<ge> 0 then cdiv (days * 400) 146097 else cdiv (days * 400 - 146096) 146097);
     y \<leftarrow> loop (\<lambda>y. Some (days_from_civil (y + 1) 1 1 \<le> days)) (\<lambda>y. Some (y + 1)) y;
     loop (\<lambda>y. Some (days_from_civil y 1 1 > days)) (\<lambda>y. Some (y - 1)) y }"

definition rule_lookup :: "posix_rule \<Rightarrow> int \<Rightarrow> (int \<times> int \<times> u8 list) option" where
  "rule_lookup r t =
     (if \<not> has_dst r then Some (std_off r, 0, std r)
      else do {
        let days = cdiv (t + std_off r) 86400 - (if cmod (t + std_off r) 86400 < 0 then 1 else 0);
        y \<leftarrow> rule_year days;
        let pre = (y < 1970);
        let y = (if pre then 1970 else y);
        let y0 = days_from_civil y 1 1 * 86400;
        a \<leftarrow> rule_time y (start_date r);
        b \<leftarrow> rule_time y (end_date r);
        let start = y0 + a - std_off r;
        let end = y0 + b - dst_off r;
        let in_dst = (if pre then start > end else if start < end then t \<ge> start \<and> t < end
          else \<not> (t \<ge> end \<and> t < start));
        Some (if in_dst then (dst_off r, 1, dst r) else (std_off r, 0, std r)) })"

subsection \<open>TZif files\<close>

definition tz_byte :: "u8 list \<Rightarrow> nat \<Rightarrow> u8 option" where
  "tz_byte b i = (if i < length b then Some (b ! i) else None)"

definition be32 :: "u8 list \<Rightarrow> nat \<Rightarrow> u32 option" where
  "be32 b p = do {
     b0 \<leftarrow> tz_byte b p; b1 \<leftarrow> tz_byte b (p + 1); b2 \<leftarrow> tz_byte b (p + 2); b3 \<leftarrow> tz_byte b (p + 3);
     Some (push_bit 24 (ucast b0) OR (push_bit 16 (ucast b1) OR (push_bit 8 (ucast b2) OR ucast b3))) }"

definition be64 :: "u8 list \<Rightarrow> nat \<Rightarrow> u64 option" where
  "be64 b p = do { h \<leftarrow> be32 b p; l \<leftarrow> be32 b (p + 4); Some (push_bit 32 (ucast h) OR ucast l) }"

record counts =
  isutc :: nat
  isstd :: nat
  leap :: nat
  ntimes :: nat
  ntypes :: nat
  nchars :: nat

definition tsz :: "bool \<Rightarrow> nat" where
  "tsz pass64 = (if pass64 then 8 else 4)"

text \<open>
  The size of a data block.  The counts are 32-bit values, so the sum is below \<open>2 ^ 38\<close> and does
  not wrap in a \<open>size_t\<close>.
\<close>

definition body :: "bool \<Rightarrow> counts \<Rightarrow> nat" where
  "body pass64 c = ntimes c * tsz pass64 + ntimes c + ntypes c * 6 + nchars c +
     leap c * (tsz pass64 + 4) + isstd c + isutc c"

text \<open>The header at \<open>p\<close>, and the limits on its counts.\<close>

definition tz_header :: "u8 list \<Rightarrow> nat \<Rightarrow> bool \<Rightarrow> counts option option" where
  "tz_header b p pass64 =
     (if length b < p + 44 then Some None
      else do {
        iu \<leftarrow> be32 b (p + 20); is \<leftarrow> be32 b (p + 24); le \<leftarrow> be32 b (p + 28);
        nt \<leftarrow> be32 b (p + 32); ny \<leftarrow> be32 b (p + 36); nc \<leftarrow> be32 b (p + 40);
        let c = \<lparr> isutc = unat iu, isstd = unat is, leap = unat le, ntimes = unat nt, ntypes = unat ny, nchars = unat nc \<rparr>;
        Some (if ntimes c > MAX_TIMES \<or> ntypes c = 0 \<or> ntypes c > MAX_TYPES \<or> nchars c > MAX_ABBR \<or>
            leap c > 10000 \<or> isstd c > ntypes c \<or> isutc c > ntypes c \<or> body pass64 c > length b - p - 44
          then None else Some c) })"

fun tz_times :: "u8 list \<Rightarrow> bool \<Rightarrow> nat \<Rightarrow> nat \<Rightarrow> int list option" where
  "tz_times b pass64 q 0 = Some []"
| "tz_times b pass64 q (Suc n) = do {
     t \<leftarrow> (if pass64 then do { x \<leftarrow> be64 b q; Some (sint x) } else do { x \<leftarrow> be32 b q; Some (sint x) });
     ts \<leftarrow> tz_times b pass64 (q + tsz pass64) n;
     Some (t # ts) }"

fun tz_idx :: "u8 list \<Rightarrow> nat \<Rightarrow> nat \<Rightarrow> nat \<Rightarrow> nat list option option" where
  "tz_idx b ny q 0 = Some (Some [])"
| "tz_idx b ny q (Suc n) = do {
     k \<leftarrow> tz_byte b q;
     if unat k \<ge> ny then Some None
     else do { ks \<leftarrow> tz_idx b ny (q + 1) n; Some (map_option ((#) (unat k)) ks) } }"

fun tz_types :: "u8 list \<Rightarrow> nat \<Rightarrow> nat \<Rightarrow> nat \<Rightarrow> ttype list option option" where
  "tz_types b nc q 0 = Some (Some [])"
| "tz_types b nc q (Suc n) = do {
     o32 \<leftarrow> be32 b q;
     d \<leftarrow> tz_byte b (q + 4);
     a \<leftarrow> tz_byte b (q + 5);
     if sint o32 < - 25 * 3600 \<or> sint o32 > 26 * 3600 \<or> d > 1 \<or> unat a \<ge> nc then Some None
     else do {
       ts \<leftarrow> tz_types b nc (q + 6) n;
       Some (map_option ((#) \<lparr> t_off = sint o32, t_isdst = uint d, abbr_at = unat a \<rparr>) ts) } }"

definition tz_slice :: "u8 list \<Rightarrow> nat \<Rightarrow> nat \<Rightarrow> u8 list option" where
  "tz_slice b q n = (if q + n \<le> length b then Some (take n (drop q b)) else None)"

fun increasing :: "int list \<Rightarrow> bool" where
  "increasing (x # y # xs) = (x < y \<and> increasing (y # xs))"
| "increasing _ = True"

text \<open>The footer of a version 2 file: a line with a POSIX TZ string.\<close>

definition tz_footer :: "u8 list \<Rightarrow> nat \<Rightarrow> posix_rule option" where
  "tz_footer b q =
     (if q < length b \<and> b ! q = 10 then
        let line = takeWhile (\<lambda>c. c \<noteq> 10) (drop (q + 1) b); tmp = takeWhile (\<lambda>c. c \<noteq> 0) line in
        if length line < length b - (q + 1) \<and> length line < 128 \<and> tmp \<noteq> [] then parse_posix tmp else None
      else None)"

text \<open>A write past the end of one of the zone's arrays.\<close>

definition fits :: "nat \<Rightarrow> 'a list \<Rightarrow> 'a list option" where
  "fits cap xs = (if length xs \<le> cap then Some xs else None)"

text \<open>The data block at \<open>q\<close>, into the zone.\<close>

definition tz_block :: "u8 list \<Rightarrow> nat \<Rightarrow> bool \<Rightarrow> counts \<Rightarrow> 'z zone_scheme \<Rightarrow> 'z zone_scheme option option" where
  "tz_block b q pass64 c z = do {
     ts \<leftarrow> tz_times b pass64 q (ntimes c);
     ts \<leftarrow> fits MAX_TIMES ts;
     let q = q + ntimes c * tsz pass64;
     ix \<leftarrow> tz_idx b (ntypes c) q (ntimes c);
     case ix of None \<Rightarrow> Some None | Some ix \<Rightarrow> do {
       let q = q + ntimes c;
       ty \<leftarrow> tz_types b (nchars c) q (ntypes c);
       case ty of None \<Rightarrow> Some None | Some ty \<Rightarrow> do {
         ty \<leftarrow> fits MAX_TYPES ty;
         let q = q + ntypes c * 6;
         ab \<leftarrow> tz_slice b q (nchars c);
         ab \<leftarrow> fits MAX_ABBR ab;
         if \<not> increasing ts then Some None
         else do {
           let q = q + (nchars c + leap c * (tsz pass64 + 4) + isstd c + isutc c);
           Some (Some (z \<lparr> times := ts, idx := ix, types := ty, abbr := ab @ [0],
             rule := (if pass64 then tz_footer b q else None) \<rparr>)) } } } }"

text \<open>
  The file behind a path: whether it is a regular file, the size \<open>fstat\<close> reports and the bytes the
  reads deliver before one of them returns nothing; \<open>None\<close> when it cannot be opened.  \<open>mem_ok\<close> is the
  answer of \<open>malloc\<close>.  A failed load leaves the zone to \<open>set_utc\<close>, which sets what the load may have
  overwritten, so it returns no zone.  A file of version 2 has its first block skipped and its second one, with
  64-bit times, read.
\<close>

type_synonym file_system = "u8 list \<Rightarrow> (bool \<times> nat \<times> u8 list) option"

definition parse_tzif :: "u8 list \<Rightarrow> 'z zone_scheme \<Rightarrow> 'z zone_scheme option option" where
  "parse_tzif b z =
     (if take 4 b \<noteq> lit ''TZif'' then Some None
      else do {
        version \<leftarrow> tz_byte b 4;
        h \<leftarrow> tz_header b 0 False;
        case h of None \<Rightarrow> Some None
        | Some c \<Rightarrow>
            if version \<ge> 0x32 then do {
              let p = 44 + body False c;
              h \<leftarrow> tz_header b p True;
              case h of None \<Rightarrow> Some None | Some c \<Rightarrow> tz_block b (p + 44) True c z }
            else tz_block b 44 False c z })"

definition load_tzif :: "file_system \<Rightarrow> bool \<Rightarrow> u8 list \<Rightarrow> 'z zone_scheme \<Rightarrow> 'z zone_scheme option option" where
  "load_tzif files mem_ok path z = (case files path of
     None \<Rightarrow> Some None
   | Some (reg, sz, data) \<Rightarrow>
       if \<not> reg \<or> sz < 44 \<or> sz > MAX_TZFILE \<or> \<not> mem_ok then Some None
       else if length data < sz then Some None
       else parse_tzif (take sz data) z)"

subsection \<open>The zone in effect\<close>

definition set_utc :: "'z zone_scheme \<Rightarrow> 'z zone_scheme" where
  "set_utc z = z \<lparr> times := [], idx := [], types := [], rule := Some (no_rule \<lparr> std := lit ''UTC'' \<rparr>) \<rparr>"

text \<open>Whether \<open>..\<close> is a component; \<open>first\<close> tells that a component starts here.\<close>

fun dotdot :: "bool \<Rightarrow> u8 list \<Rightarrow> bool" where
  "dotdot first [] = False"
| "dotdot first (c # s) =
     ((c = 0x2e \<and> cur s = 0x2e \<and> first \<and> (cur (tl s) = 0x2f \<or> cur (tl s) = 0)) \<or> dotdot (c = 0x2f) s)"

definition safe_name :: "bool \<Rightarrow> u8 list \<Rightarrow> bool" where
  "safe_name secure name \<longleftrightarrow> \<not> secure \<or> (cur name \<noteq> 0x2f \<and> \<not> dotdot True name)"

text \<open>The path \<open>do_tzset\<close> loads for a value of TZ, if any.\<close>

definition tz_path :: "bool \<Rightarrow> u8 list option \<Rightarrow> u8 list option" where
  "tz_path secure tz =
     (let name = (case tz of None \<Rightarrow> lit ''/etc/localtime'' | Some v \<Rightarrow> if cur v = 0x3a then tl v else v) in
      if tz \<noteq> None \<and> \<not> safe_name secure name then None
      else if cur name = 0x2f then Some name
      else if length name + 21 \<le> 4096 then Some (ZONEINFO @ name)
      else None)"

definition abbr_name :: "'z zone_scheme \<Rightarrow> ttype \<Rightarrow> u8 list option" where
  "abbr_name z t = (if abbr_at t < length (abbr z) then Some (takeWhile (\<lambda>c. c \<noteq> 0) (drop (abbr_at t) (abbr z))) else None)"

fun tz_names :: "ttype list \<Rightarrow> tzstate \<Rightarrow> tzstate option" where
  "tz_names [] z = Some z"
| "tz_names (t # ts) z = do {
     n \<leftarrow> abbr_name z t;
     tz_names ts (if t_isdst t \<noteq> 0 then z \<lparr> tzname1 := n, daylight := True \<rparr>
       else z \<lparr> tzname0 := n, timezone := - t_off t \<rparr>) }"

text \<open>The type of transition \<open>i\<close>.\<close>

definition type_at :: "'z zone_scheme \<Rightarrow> nat \<Rightarrow> ttype option" where
  "type_at z i = (if i < length (idx z) \<and> idx z ! i < length (types z) then Some (types z ! (idx z ! i)) else None)"

definition set_names :: "tzstate \<Rightarrow> tzstate option" where
  "set_names z =
     (case types z of
        t0 # _ \<Rightarrow> do {
          n \<leftarrow> abbr_name z t0;
          ts \<leftarrow> those (map (type_at z) [0..<length (times z)]);
          z \<leftarrow> tz_names (t0 # ts) (z \<lparr> tzname0 := n, tzname1 := n, timezone := - t_off t0, daylight := False \<rparr>);
          Some (if daylight z then z else z \<lparr> tzname1 := tzname0 z \<rparr>) }
      | [] \<Rightarrow> (case rule z of
          Some r \<Rightarrow> Some (z \<lparr> tzname0 := std r, tzname1 := (if has_dst r then dst r else std r),
            timezone := - std_off r, daylight := has_dst r \<rparr>)
        | None \<Rightarrow> Some z))"

definition do_tzset :: "u8 list option \<Rightarrow> bool \<Rightarrow> file_system \<Rightarrow> bool \<Rightarrow> tzstate \<Rightarrow> tzstate option" where
  "do_tzset tz secure files mem_ok z =
     (let k = (case tz of Some v \<Rightarrow> v | None \<Rightarrow> 1 # lit ''unset'') in
      if loaded z \<and> key z = k then Some z
      else do {
        let z = z \<lparr> loaded := True, key := take 255 k \<rparr>;
        z \<leftarrow> (if tz = Some [] then Some (set_utc z)
          else case (if tz \<noteq> None \<and> cur (the tz) \<noteq> 0x3a then parse_posix (the tz) else None) of
            Some r \<Rightarrow> Some (z \<lparr> times := [], idx := [], types := [], rule := Some r \<rparr>)
          | None \<Rightarrow> (case tz_path secure tz of
              None \<Rightarrow> Some (set_utc z)
            | Some path \<Rightarrow> do {
                l \<leftarrow> load_tzif files mem_ok path z;
                Some (case l of None \<Rightarrow> set_utc z | Some z' \<Rightarrow> z') }));
        set_names z })"

function tz_search :: "int list \<Rightarrow> int \<Rightarrow> nat \<Rightarrow> nat \<Rightarrow> nat option" where
  "tz_search ts t lo hi =
     (if lo < hi then
        let mid = (lo + hi + 1) div 2 in
        if mid \<ge> length ts then None
        else if ts ! mid \<le> t then tz_search ts t mid hi
        else tz_search ts t lo (mid - 1)
      else Some lo)"
  by auto
termination by (relation "measure (\<lambda>(ts, t, lo, hi). hi - lo)") auto

declare tz_search.simps [simp del]

text \<open>The lookup in the zone \<open>do_tzset\<close> has left.\<close>

definition zone_lookup :: "'z zone_scheme \<Rightarrow> int \<Rightarrow> (int \<times> int \<times> u8 list) option" where
  "zone_lookup z t =
     (if times z \<noteq> [] \<and> (t < last (times z) \<or> rule z = None) then do {
        ty \<leftarrow> (if t < hd (times z) then
            let k = length (takeWhile (\<lambda>t. t_isdst t \<noteq> 0) (types z)) in
            (case drop (if k < length (types z) then k else 0) (types z) of [] \<Rightarrow> None | ty # _ \<Rightarrow> Some ty)
          else do { lo \<leftarrow> tz_search (times z) t 0 (length (times z) - 1); type_at z lo });
        n \<leftarrow> abbr_name z ty;
        Some (t_off ty, t_isdst ty, n) }
      else case rule z of
        Some r \<Rightarrow> rule_lookup r t
      | None \<Rightarrow> (case types z of
          ty # _ \<Rightarrow> do { n \<leftarrow> abbr_name z ty; Some (t_off ty, t_isdst ty, n) }
        | [] \<Rightarrow> Some (0, 0, lit ''UTC'')))"

definition tz_lookup ::
    "u8 list option \<Rightarrow> bool \<Rightarrow> file_system \<Rightarrow> bool \<Rightarrow> tzstate \<Rightarrow> int \<Rightarrow> ((int \<times> int \<times> u8 list) \<times> tzstate) option" where
  "tz_lookup tz secure files mem_ok z t = do {
     z \<leftarrow> do_tzset tz secure files mem_ok z;
     r \<leftarrow> zone_lookup z t;
     Some (r, z) }"

end
