(* ===== verification/Timeconv.thy ===== *)
theory Timeconv
  imports Tz Strtol
begin

text \<open>
  Broken-down time, \<^verbatim>\<open>src/timeconv.c\<close>: \<open>localtime_r\<close>, \<open>mktime\<close>, \<open>asctime_r\<close>, \<open>strftime\<close> and
  \<open>strptime\<close>.  The zone is the argument \<open>lk\<close>, the lookup of \<open>Tz\<close> at a UTC time: the offset, the
  DST flag and the name.  Fields are mathematical integers.  The outer \<open>None\<close> of a result is a fault: a read
  or write outside an object, or an overflow of an \<open>int\<close>.
\<close>

subsection \<open>Conversions\<close>

type_synonym lookup = "int \<Rightarrow> (int \<times> int \<times> u8 list) option"

definition wday_name :: "u8 list list" where
  "wday_name = [lit ''Sunday'', lit ''Monday'', lit ''Tuesday'', lit ''Wednesday'', lit ''Thursday'', lit ''Friday'', lit ''Saturday'']"

definition mon_name :: "u8 list list" where
  "mon_name = [lit ''January'', lit ''February'', lit ''March'', lit ''April'', lit ''May'', lit ''June'', lit ''July'',
     lit ''August'', lit ''September'', lit ''October'', lit ''November'', lit ''December'']"

definition localtime_r :: "lookup \<Rightarrow> int \<Rightarrow> tm \<Rightarrow> (errno + tm) option" where
  "localtime_r lk t tm =
     (if t < - (2 ^ 60) \<or> t > 2 ^ 60 then Some (Inl EOVERFLOW)
      else do {
        (o', d, n) \<leftarrow> lk t;
        Some (case secs_to_tm (t + o') tm of
          Inl e \<Rightarrow> Inl e
        | Inr tm \<Rightarrow> Inr (tm \<lparr> tm_isdst := d, tm_gmtoff := o', tm_zone := Some n \<rparr>)) })"

fun probe_kind :: "lookup \<Rightarrow> int \<Rightarrow> int list \<Rightarrow> int option option" where
  "probe_kind lk want [] = Some None"
| "probe_kind lk want (t # ts) = do {
     (o', d, _) \<leftarrow> lk t;
     if d = want then Some (Some o') else probe_kind lk want ts }"

text \<open>The distances are 0 to 360 days in steps of 15, each before and after \<open>t\<close>.\<close>

definition find_kind :: "lookup \<Rightarrow> int \<Rightarrow> int \<Rightarrow> int option option" where
  "find_kind lk t want =
     probe_kind lk want (concat (map (\<lambda>k. [t - k * (15 * 86400), t + k * (15 * 86400)]) [0..24]))"

fun near_types :: "lookup \<Rightarrow> int \<Rightarrow> int list \<Rightarrow> (int \<times> int) list \<Rightarrow> (int \<times> int) list option" where
  "near_types lk L [] ty = Some ty"
| "near_types lk L (k # ks) ty = do {
     (o', d, _) \<leftarrow> lk (L + k * 86400);
     near_types lk L ks (if (o', d) \<in> set ty then ty else ty @ [(o', d)]) }"

fun pick_kind :: "lookup \<Rightarrow> int \<Rightarrow> int \<Rightarrow> (int \<times> int) list \<Rightarrow> int \<Rightarrow> nat \<Rightarrow> (int \<times> nat) option" where
  "pick_kind lk L want [] off found = Some (off, found)"
| "pick_kind lk L want ((o', d) # ty) off found =
     (if found \<ge> 2 then Some (off, found)
      else if d \<noteq> want then pick_kind lk L want ty off found
      else do {
        (o2, _, _) \<leftarrow> lk (L - o');
        if o2 = o' \<or> found = 0 then pick_kind lk L want ty o' (if o2 = o' then 2 else 1)
        else pick_kind lk L want ty off found })"

fun pick_best :: "lookup \<Rightarrow> int \<Rightarrow> (int \<times> int) list \<Rightarrow> (int \<times> int) option \<Rightarrow> (int \<times> int) option option" where
  "pick_best lk L [] best = Some best"
| "pick_best lk L ((o', d) # ty) best = do {
     (o2, _, _) \<leftarrow> lk (L - o');
     pick_best lk L ty
       (if o2 \<noteq> o' then best
        else case best of
          None \<Rightarrow> Some (o', d)
        | Some (bo, bd) \<Rightarrow> if bd \<noteq> 0 \<and> d = 0 then Some (o', d) else best) }"

fun least_off :: "(int \<times> int) list \<Rightarrow> int \<Rightarrow> int" where
  "least_off [] b = b"
| "least_off ((o', d) # ty) b = least_off ty (if o' < b then o' else b)"

definition mktime_off :: "lookup \<Rightarrow> int \<Rightarrow> int \<Rightarrow> int option" where
  "mktime_off lk L isdst = do {
     ty \<leftarrow> near_types lk L [-2, -1, 0, 1, 2] [];
     case ty of
       [] \<Rightarrow> None
     | (o0, d0) # rest \<Rightarrow>
         if isdst \<ge> 0 then do {
           let want = (if isdst > 0 then 1 else 0);
           (off, found) \<leftarrow> pick_kind lk L want ty o0 0;
           if found \<noteq> 0 then Some off
           else do {
             (o', d0, _) \<leftarrow> lk (L - o0);
             k \<leftarrow> find_kind lk (L - o') want;
             Some (case k of Some off \<Rightarrow> off
               | None \<Rightarrow> o' + (if want \<noteq> 0 then 3600 else - 3600) * (if d0 = want then 0 else 1)) } }
         else do {
           best \<leftarrow> pick_best lk L ty None;
           Some (case best of Some (bo, bd) \<Rightarrow> bo | None \<Rightarrow> least_off rest o0) } }"

text \<open>The result and the \<open>struct tm\<close> afterwards; \<open>n0\<close> is what the local one holds at first.\<close>

definition mktime :: "lookup \<Rightarrow> tm \<Rightarrow> tm \<Rightarrow> ((errno + int) \<times> tm) option" where
  "mktime lk n0 tm = (case tm_to_secs tm of
     None \<Rightarrow> Some (Inl EOVERFLOW, tm)
   | Some L \<Rightarrow> do {
       off \<leftarrow> mktime_off lk L (tm_isdst tm);
       n \<leftarrow> localtime_r lk (L - off) n0;
       Some (case n of Inl _ \<Rightarrow> (Inl EOVERFLOW, tm) | Inr n \<Rightarrow> (Inr (L - off), n)) })"

subsection \<open>Text forms\<close>

text \<open>The decimal digits of a number.\<close>

function digits_of :: "int \<Rightarrow> u8 list" where
  "digits_of u = (if u < 10 then [] else digits_of (u div 10)) @ [word_of_int (0x30 + u mod 10)]"
  by auto
termination by (relation "measure nat") auto

declare digits_of.simps [simp del]

text \<open>\<open>%w.pd\<close> of \<open>printf\<close>.\<close>

definition fmt_d :: "nat \<Rightarrow> nat \<Rightarrow> int \<Rightarrow> u8 list" where
  "fmt_d w p v =
     (let ds = digits_of \<bar>v\<bar>; s = (if v < 0 then [0x2d] else []) @ replicate (p - length ds) 0x30 @ ds in
      replicate (w - length s) 0x20 @ s)"

definition name_of :: "u8 list list \<Rightarrow> int \<Rightarrow> u8 list \<Rightarrow> u8 list" where
  "name_of names i other = (if 0 \<le> i \<and> i < int (length names) then names ! nat i else other)"

text \<open>The result and the bytes left in the buffer of 26.\<close>

definition asctime_r :: "tm \<Rightarrow> ((errno + unit) \<times> u8 list) option" where
  "asctime_r tm =
     (if 1900 + tm_year tm > INT_MAX then None
      else
        let wd = name_of wday_name (tm_wday tm) (lit ''???'');
            mn = name_of mon_name (tm_mon tm) (lit ''???'');
            s = take 3 wd @ lit '' '' @ take 3 mn @ fmt_d 3 1 (tm_mday tm) @ lit '' '' @ fmt_d 0 2 (tm_hour tm) @
              lit '':'' @ fmt_d 0 2 (tm_min tm) @ lit '':'' @ fmt_d 0 2 (tm_sec tm) @ lit '' '' @
              fmt_d 0 1 (1900 + tm_year tm) @ [10] in
        Some (if length s \<ge> 26 then Inl EOVERFLOW else Inr (), take 25 s @ [0]))"

definition ctime_r :: "lookup \<Rightarrow> tm \<Rightarrow> int \<Rightarrow> ((errno + unit) \<times> u8 list) option" where
  "ctime_r lk tm t = do {
     r \<leftarrow> localtime_r lk t tm;
     case r of Inl e \<Rightarrow> Some (Inl e, []) | Inr tm \<Rightarrow> asctime_r tm }"

subsection \<open>strftime\<close>

definition iso_week :: "tm \<Rightarrow> int \<times> int" where
  "iso_week tm =
     (let y = tm_year tm + 1900; wday = cmod (tm_wday tm + 6) 7; week = cdiv (tm_yday tm - wday + 10) 7 in
      if week < 1 then
        let prev_len = 365 + (if is_leap (y - 1) then 1 else 0) in
        (cdiv (tm_yday tm + prev_len - wday + 10) 7, y - 1)
      else if week = 53 then
        let len = 365 + (if is_leap y then 1 else 0) in
        if tm_yday tm - wday + 3 \<ge> len then (1, y + 1) else (week, y)
      else (week, y))"

record sbuf =
  out :: "u8 list"
  max_n :: nat
  full :: bool

definition put :: "u8 list \<Rightarrow> sbuf \<Rightarrow> sbuf" where
  "put s b = (if length (out b) + length s \<ge> max_n b then b \<lparr> full := True \<rparr> else b \<lparr> out := out b @ s \<rparr>)"

text \<open>\<open>tmp\<close> of 32 bytes is filled from its end; a byte too many is a fault.\<close>

definition push_tmp :: "u8 \<Rightarrow> u8 list \<Rightarrow> u8 list option" where
  "push_tmp c t = (if length t < 32 then Some (c # t) else None)"

partial_function (option) zero_pad :: "int \<Rightarrow> int \<Rightarrow> u8 list \<Rightarrow> u8 list option" where
  "zero_pad width lim t =
     (if width > lim \<and> length t < 31 then do { t \<leftarrow> push_tmp 0x30 t; zero_pad (width - 1) lim t } else Some t)"

partial_function (option) space_pad :: "int \<Rightarrow> u8 list \<Rightarrow> u8 list option" where
  "space_pad width t =
     (if int (length t) < width \<and> length t < 32 then do { t \<leftarrow> push_tmp 0x20 t; space_pad width t } else Some t)"

declare zero_pad.simps [code] space_pad.simps [code]

definition num_text :: "int \<Rightarrow> int \<Rightarrow> u8 \<Rightarrow> u8 list option" where
  "num_text v width pad = do {
     let neg = (v < 0);
     let t = digits_of \<bar>v\<bar>;
     let digits = int (length t);
     let n = (if neg then 1 else 0);
     (t, neg) \<leftarrow> (if pad \<noteq> 0 \<and> width > digits + n then
         if pad = 0x30 then do { t \<leftarrow> zero_pad width (digits + n) t; Some (t, neg) }
         else do { t \<leftarrow> (if neg then push_tmp 0x2d t else Some t); t \<leftarrow> space_pad width t; Some (t, False) }
       else Some (t, neg));
     if neg then push_tmp 0x2d t else Some t }"

definition put_num :: "int \<Rightarrow> int \<Rightarrow> u8 \<Rightarrow> sbuf \<Rightarrow> sbuf option" where
  "put_num v width pad b = do { t \<leftarrow> num_text v width pad; Some (put t b) }"

text \<open>The macro \<open>NUM\<close>: the padding and width given, or the conversion's own.\<close>

definition NUM :: "u8 \<Rightarrow> int \<Rightarrow> int \<Rightarrow> int \<Rightarrow> u8 \<Rightarrow> sbuf \<Rightarrow> sbuf option" where
  "NUM pad width v w p b = put_num v (if pad = 0x2d then 0 else if width \<noteq> 0 then width else w)
     (if pad = 0x2d then 0 else if pad \<noteq> 0 then pad else p) b"

text \<open>The label \<open>full\<close>: a string padded on the left, in upper case when asked.\<close>

definition put_full :: "bool \<Rightarrow> int \<Rightarrow> u8 list \<Rightarrow> sbuf \<Rightarrow> sbuf" where
  "put_full upper width str b =
     (let b = fold put (replicate (nat (width - int (length str))) [0x20]) b in
      if upper then fold put (map (\<lambda>c. [word_of_int (toupper (uint c))]) str) b else put str b)"

text \<open>The label \<open>abbr\<close> copies three bytes; a name with fewer, its NUL included, is read past its end.\<close>

definition put_abbr :: "bool \<Rightarrow> int \<Rightarrow> u8 list \<Rightarrow> sbuf \<Rightarrow> sbuf option" where
  "put_abbr upper width str b =
     (if length str + 1 < 3 then None
      else Some (put_full upper width (takeWhile (\<lambda>c. c \<noteq> 0) (take 3 (str @ [0]))) b))"

fun fmt_flags :: "u8 list \<Rightarrow> u8 \<Rightarrow> bool \<Rightarrow> u8 \<times> bool \<times> u8 list" where
  "fmt_flags [] pad upper = (pad, upper, [])"
| "fmt_flags (c # f) pad upper =
     (if c = 0x5f then fmt_flags f 0x20 upper
      else if c = 0x2d then fmt_flags f 0x2d upper
      else if c = 0x30 then fmt_flags f 0x30 upper
      else if c = 0x5e then fmt_flags f pad True
      else if c = 0x23 then fmt_flags f pad upper
      else (pad, upper, c # f))"

text \<open>A width that does not fit an \<open>int\<close> overflows.\<close>

fun fmt_width :: "u8 list \<Rightarrow> int \<Rightarrow> (int \<times> u8 list) option" where
  "fmt_width [] width = Some (width, [])"
| "fmt_width (c # f) width =
     (if is_digit c then
        let w = width * 10 + (uint c - 0x30) in if w > INT_MAX then None else fmt_width f w
      else Some (width, c # f))"

text \<open>
  One conversion; \<open>nested\<close> formats the formats that stand for a sequence of conversions, \<open>prev\<close> is
  the byte before the conversion character.
\<close>

definition fmt_conv ::
    "(u8 list \<Rightarrow> sbuf \<Rightarrow> sbuf option) \<Rightarrow> lookup \<Rightarrow> tm \<Rightarrow> u8 \<Rightarrow> bool \<Rightarrow> int \<Rightarrow> u8 \<Rightarrow> u8 \<Rightarrow> sbuf \<Rightarrow> sbuf option" where
  "fmt_conv nested lk tm pad upper width prev c b =
     (let num = NUM pad width; year = tm_year tm + 1900; hour12 = (if cmod (tm_hour tm) 12 \<noteq> 0 then cmod (tm_hour tm) 12 else 12) in
      if c = of_char CHR ''a'' then put_abbr upper width (name_of wday_name (tm_wday tm) (lit ''?'')) b
      else if c = of_char CHR ''A'' then Some (put_full upper width (name_of wday_name (tm_wday tm) (lit ''?'')) b)
      else if c = of_char CHR ''b'' \<or> c = of_char CHR ''h'' then put_abbr upper width (name_of mon_name (tm_mon tm) (lit ''?'')) b
      else if c = of_char CHR ''B'' then Some (put_full upper width (name_of mon_name (tm_mon tm) (lit ''?'')) b)
      else if c = of_char CHR ''c'' then nested (lit ''%a %b %e %H:%M:%S %Y'') b
      else if c = of_char CHR ''C'' then num (cdiv year 100 - (if cmod year 100 < 0 then 1 else 0)) 2 0x30 b
      else if c = of_char CHR ''d'' then num (tm_mday tm) 2 0x30 b
      else if c = of_char CHR ''D'' then nested (lit ''%m/%d/%y'') b
      else if c = of_char CHR ''e'' then num (tm_mday tm) 2 0x20 b
      else if c = of_char CHR ''F'' then nested (lit ''%Y-%m-%d'') b
      else if c = of_char CHR ''g'' then num (cmod (cmod (snd (iso_week tm)) 100 + 100) 100) 2 0x30 b
      else if c = of_char CHR ''G'' then num (snd (iso_week tm)) 0 0x30 b
      else if c = of_char CHR ''H'' then num (tm_hour tm) 2 0x30 b
      else if c = of_char CHR ''I'' then num hour12 2 0x30 b
      else if c = of_char CHR ''j'' then num (tm_yday tm + 1) 3 0x30 b
      else if c = of_char CHR ''k'' then num (tm_hour tm) 2 0x20 b
      else if c = of_char CHR ''l'' then num hour12 2 0x20 b
      else if c = of_char CHR ''m'' then num (tm_mon tm + 1) 2 0x30 b
      else if c = of_char CHR ''M'' then num (tm_min tm) 2 0x30 b
      else if c = of_char CHR ''n'' then Some (put [10] b)
      else if c = of_char CHR ''p'' then Some (put (if tm_hour tm < 12 then lit ''AM'' else lit ''PM'') b)
      else if c = of_char CHR ''P'' then Some (put (if tm_hour tm < 12 then lit ''am'' else lit ''pm'') b)
      else if c = of_char CHR ''r'' then nested (lit ''%I:%M:%S %p'') b
      else if c = of_char CHR ''R'' then nested (lit ''%H:%M'') b
      else if c = of_char CHR ''s'' then do {
        (t, _) \<leftarrow> mktime lk tm tm;
        num (case t of Inl _ \<Rightarrow> - 1 | Inr t \<Rightarrow> t) 0 0 b }
      else if c = of_char CHR ''S'' then num (tm_sec tm) 2 0x30 b
      else if c = of_char CHR ''t'' then Some (put [9] b)
      else if c = of_char CHR ''T'' then nested (lit ''%H:%M:%S'') b
      else if c = of_char CHR ''u'' then num (if tm_wday tm \<noteq> 0 then tm_wday tm else 7) 1 0x30 b
      else if c = of_char CHR ''U'' then num (cdiv (tm_yday tm + 7 - tm_wday tm) 7) 2 0x30 b
      else if c = of_char CHR ''V'' then num (fst (iso_week tm)) 2 0x30 b
      else if c = of_char CHR ''w'' then num (tm_wday tm) 1 0x30 b
      else if c = of_char CHR ''W'' then num (cdiv (tm_yday tm + 7 - cmod (tm_wday tm + 6) 7) 7) 2 0x30 b
      else if c = of_char CHR ''x'' then nested (lit ''%m/%d/%y'') b
      else if c = of_char CHR ''X'' then nested (lit ''%H:%M:%S'') b
      else if c = of_char CHR ''y'' then num (cmod (cmod year 100 + 100) 100) 2 0x30 b
      else if c = of_char CHR ''Y'' then num year 0 0x30 b
      else if c = of_char CHR ''z'' then
        Some (put ((if tm_gmtoff tm < 0 then 0x2d else 0x2b) #
          fmt_d 0 2 (cmod (cdiv \<bar>tm_gmtoff tm\<bar> 3600) 100) @ fmt_d 0 2 (cmod (cdiv \<bar>tm_gmtoff tm\<bar> 60) 60)) b)
      else if c = of_char CHR ''Z'' then Some (put_full upper width (case tm_zone tm of Some z \<Rightarrow> z | None \<Rightarrow> []) b)
      else if c = of_char CHR ''%'' then Some (put (lit ''%'') b)
      else Some (put [prev, c] b))"

partial_function (option) fmt_loop ::
    "(u8 list \<Rightarrow> sbuf \<Rightarrow> sbuf option) \<Rightarrow> lookup \<Rightarrow> tm \<Rightarrow> u8 list \<Rightarrow> sbuf \<Rightarrow> sbuf option" where
  "fmt_loop nested lk tm f b =
     (case f of
        [] \<Rightarrow> Some b
      | c # g \<Rightarrow>
          if c = 0 \<or> full b then Some b
          else if c \<noteq> 0x25 then fmt_loop nested lk tm g (put [c] b)
          else do {
            let (pad, upper, h) = fmt_flags g 0 False;
            (width, h) \<leftarrow> fmt_width h 0;
            let h = (if cur h = 0x45 \<or> cur h = 0x4f then tl h else h);
            if cur h = 0 then Some b
            else do {
              b \<leftarrow> fmt_conv nested lk tm pad upper width (f ! (length f - length h - 1)) (cur h) b;
              fmt_loop nested lk tm (tl h) b } })"

declare fmt_loop.simps [code]

text \<open>The formats used by other conversions hold none of these themselves.\<close>

definition fmt_simple :: "lookup \<Rightarrow> tm \<Rightarrow> u8 list \<Rightarrow> sbuf \<Rightarrow> sbuf option" where
  "fmt_simple lk tm f b = fmt_loop (\<lambda>f b. None) lk tm f b"

definition fmt_tm :: "lookup \<Rightarrow> tm \<Rightarrow> u8 list \<Rightarrow> sbuf \<Rightarrow> sbuf option" where
  "fmt_tm lk tm f b = fmt_loop (fmt_simple lk tm) lk tm f b"

text \<open>The result, and the bytes written at the start of the buffer.\<close>

definition strftime :: "lookup \<Rightarrow> nat \<Rightarrow> u8 list \<Rightarrow> tm \<Rightarrow> (nat \<times> u8 list) option" where
  "strftime lk n f tm = do {
     b \<leftarrow> fmt_tm lk tm f \<lparr> out = [], max_n = n, full = False \<rparr>;
     Some (if full b \<or> n = 0 then (0, out b) else (length (out b), out b @ [0])) }"

subsection \<open>strptime\<close>

text \<open>\<open>!strncasecmp(s, name, n)\<close> for a name without NUL of at least \<open>n\<close> bytes.\<close>

definition ncase_eq :: "u8 list \<Rightarrow> u8 list \<Rightarrow> nat \<Rightarrow> bool" where
  "ncase_eq s name n \<longleftrightarrow>
     map (\<lambda>c. tolower (uint c)) (take n s) = map (\<lambda>c. tolower (uint c)) (take n name)"

fun match_from :: "u8 list \<Rightarrow> u8 list list \<Rightarrow> int \<Rightarrow> (int \<times> u8 list) option" where
  "match_from s [] i = None"
| "match_from s (name # names) i =
     (if ncase_eq s name (length name) then Some (i, drop (length name) s)
      else if ncase_eq s name 3 then Some (i, drop 3 s)
      else match_from s names (i + 1))"

definition match_name :: "u8 list \<Rightarrow> u8 list list \<Rightarrow> (int \<times> u8 list) option" where
  "match_name s names = match_from s names 0"

fun take_digits :: "nat \<Rightarrow> u8 list \<Rightarrow> int \<Rightarrow> nat \<Rightarrow> int \<times> nat \<times> u8 list" where
  "take_digits 0 s v d = (v, d, s)"
| "take_digits (Suc n) [] v d = (v, d, [])"
| "take_digits (Suc n) (c # s) v d =
     (if is_digit c then take_digits n s (v * 10 + (uint c - 0x30)) (Suc d) else (v, d, c # s))"

definition get_num :: "nat \<Rightarrow> int \<Rightarrow> int \<Rightarrow> u8 list \<Rightarrow> (int \<times> u8 list) option" where
  "get_num maxdig lo hi s =
     (let neg = (cur s = 0x2d); s = (if cur s = 0x2b \<or> cur s = 0x2d then tl s else s);
          (v, d, s) = take_digits maxdig s 0 0; v = (if neg then - v else v) in
      if d = 0 \<or> v < lo \<or> v > hi then None else Some (v, s))"

record pstate =
  ptm :: tm
  pm :: int
  century :: int
  have_yy :: bool

text \<open>A null result leaves the fields set so far in the \<open>struct tm\<close>.\<close>

type_synonym presult = "(u8 list option \<times> pstate) option"

definition skip_ws :: "u8 list \<Rightarrow> u8 list" where
  "skip_ws s = dropWhile (\<lambda>c. isspace (uint c)) s"

definition set_num :: "nat \<Rightarrow> int \<Rightarrow> int \<Rightarrow> (int \<Rightarrow> tm \<Rightarrow> tm) \<Rightarrow> u8 list \<Rightarrow> pstate \<Rightarrow> presult" where
  "set_num maxdig lo hi upd s st = Some (case get_num maxdig lo hi s of
     None \<Rightarrow> (None, st)
   | Some (v, s) \<Rightarrow> (Some s, st \<lparr> ptm := upd v (ptm st) \<rparr>))"

definition set_name :: "u8 list list \<Rightarrow> (int \<Rightarrow> tm \<Rightarrow> tm) \<Rightarrow> u8 list \<Rightarrow> pstate \<Rightarrow> presult" where
  "set_name names upd s st = Some (case match_name s names of
     None \<Rightarrow> (None, st)
   | Some (v, s) \<Rightarrow> (Some s, st \<lparr> ptm := upd v (ptm st) \<rparr>))"

definition parse_zone :: "u8 list \<Rightarrow> pstate \<Rightarrow> presult" where
  "parse_zone s st =
     (if cur s = 0x5a then Some (Some (tl s), st \<lparr> ptm := (ptm st) \<lparr> tm_gmtoff := 0 \<rparr> \<rparr>)
      else if cur s \<noteq> 0x2b \<and> cur s \<noteq> 0x2d then Some (None, st)
      else let neg = (cur s = 0x2d) in
        case get_num 2 0 24 (tl s) of
          None \<Rightarrow> Some (None, st)
        | Some (hh, s) \<Rightarrow>
            let s = (if cur s = 0x3a then tl s else s);
                (mm, s) = (case get_num 2 0 59 s of None \<Rightarrow> (0, s) | Some r \<Rightarrow> r) in
            Some (Some s, st \<lparr> ptm := (ptm st) \<lparr> tm_gmtoff := (hh * 3600 + mm * 60) * (if neg then - 1 else 1) \<rparr> \<rparr>))"

definition parse_epoch :: "lookup \<Rightarrow> u8 list \<Rightarrow> pstate \<Rightarrow> presult" where
  "parse_epoch lk s st = do {
     (t, e, err) \<leftarrow> strtoll s 10;
     if e = 0 \<or> err \<noteq> None then Some (None, st)
     else do {
       r \<leftarrow> localtime_r lk t (ptm st);
       Some (case r of Inl _ \<Rightarrow> (None, st) | Inr tm \<Rightarrow> (Some (drop e s), st \<lparr> ptm := tm \<rparr>)) } }"

text \<open>One conversion; \<open>nested\<close> is the recursive call on another format, which only sees the \<open>struct tm\<close>.\<close>

definition strp_conv ::
    "(u8 list \<Rightarrow> u8 list \<Rightarrow> tm \<Rightarrow> (u8 list option \<times> tm) option) \<Rightarrow> lookup \<Rightarrow> u8 \<Rightarrow> u8 list \<Rightarrow> pstate \<Rightarrow> presult" where
  "strp_conv nested lk c s st =
     (let sub = (\<lambda>f. do { (r, tm) \<leftarrow> nested f s (ptm st); Some (r, st \<lparr> ptm := tm \<rparr>) });
          ch = (\<lambda>cs. c \<in> set (lit cs)) in
      if ch ''aA'' then set_name wday_name (\<lambda>v. tm_wday_update (\<lambda>_. v)) s st
      else if ch ''bBh'' then set_name mon_name (\<lambda>v. tm_mon_update (\<lambda>_. v)) s st
      else if ch ''c'' then sub (lit ''%a %b %e %H:%M:%S %Y'')
      else if ch ''C'' then Some (case get_num 2 0 99 s of None \<Rightarrow> (None, st) | Some (v, s) \<Rightarrow> (Some s, st \<lparr> century := v \<rparr>))
      else if ch ''de'' then set_num 2 1 31 (\<lambda>v. tm_mday_update (\<lambda>_. v)) s st
      else if ch ''Dx'' then sub (lit ''%m/%d/%y'')
      else if ch ''F'' then sub (lit ''%Y-%m-%d'')
      else if ch ''Hk'' then set_num 2 0 23 (\<lambda>v. tm_hour_update (\<lambda>_. v)) s st
      else if ch ''Il'' then set_num 2 1 12 (\<lambda>v. tm_hour_update (\<lambda>_. cmod v 12)) s st
      else if ch ''j'' then set_num 3 1 366 (\<lambda>v. tm_yday_update (\<lambda>_. v - 1)) s st
      else if ch ''m'' then set_num 2 1 12 (\<lambda>v. tm_mon_update (\<lambda>_. v - 1)) s st
      else if ch ''M'' then set_num 2 0 59 (\<lambda>v. tm_min_update (\<lambda>_. v)) s st
      else if ch ''nt'' then Some (Some (skip_ws s), st)
      else if ch ''p'' then
        Some (if ncase_eq s (lit ''AM'') 2 then (Some (drop 2 s), st \<lparr> pm := 0 \<rparr>)
          else if ncase_eq s (lit ''PM'') 2 then (Some (drop 2 s), st \<lparr> pm := 1 \<rparr>) else (None, st))
      else if ch ''r'' then sub (lit ''%I:%M:%S %p'')
      else if ch ''R'' then sub (lit ''%H:%M'')
      else if ch ''s'' then parse_epoch lk s st
      else if ch ''S'' then set_num 2 0 61 (\<lambda>v. tm_sec_update (\<lambda>_. v)) s st
      else if ch ''TX'' then sub (lit ''%H:%M:%S'')
      else if ch ''u'' then set_num 1 1 7 (\<lambda>v. tm_wday_update (\<lambda>_. cmod v 7)) s st
      else if ch ''w'' then set_num 1 0 6 (\<lambda>v. tm_wday_update (\<lambda>_. v)) s st
      else if ch ''UWV'' then set_num 2 0 53 (\<lambda>v tm. tm) s st
      else if ch ''y'' then Some (case get_num 2 0 99 s of
          None \<Rightarrow> (None, st)
        | Some (v, s) \<Rightarrow> (Some s, st \<lparr> have_yy := True, ptm := (ptm st) \<lparr> tm_year := (if v < 69 then v + 100 else v) \<rparr> \<rparr>))
      else if ch ''Y'' then set_num 9 (- 99999999) 999999999 (\<lambda>v. tm_year_update (\<lambda>_. v - 1900)) s st
      else if ch ''z'' then parse_zone s st
      else if ch ''Z'' then Some (Some (dropWhile (\<lambda>c. isalpha (uint c)) s), st)
      else if ch ''%'' then Some (if cur s \<noteq> 0x25 then (None, st) else (Some (tl s), st))
      else Some (None, st))"

partial_function (option) strp_loop ::
    "(u8 list \<Rightarrow> u8 list \<Rightarrow> tm \<Rightarrow> (u8 list option \<times> tm) option) \<Rightarrow> lookup \<Rightarrow> u8 list \<Rightarrow> u8 list \<Rightarrow> pstate \<Rightarrow> presult" where
  "strp_loop nested lk f s st =
     (case f of
        [] \<Rightarrow> Some (Some s, st)
      | c # g \<Rightarrow>
          if c = 0 then Some (Some s, st)
          else if isspace (uint c) then strp_loop nested lk g (skip_ws s) st
          else if c \<noteq> 0x25 then if cur s \<noteq> c then Some (None, st) else strp_loop nested lk g (tl s) st
          else do {
            let h = (if cur g = 0x45 \<or> cur g = 0x4f then tl g else g);
            let s = (if cur h \<noteq> 0x6e \<and> cur h \<noteq> 0x74 \<and> cur h \<noteq> 0x25 then skip_ws s else s);
            (r, st) \<leftarrow> strp_conv nested lk (cur h) s st;
            case r of None \<Rightarrow> Some (None, st) | Some s \<Rightarrow> strp_loop nested lk (tl h) s st })"

declare strp_loop.simps [code]

definition strp_end :: "pstate \<Rightarrow> tm" where
  "strp_end st =
     (let tm = ptm st;
          tm = (if pm st = 1 \<and> tm_hour tm < 12 then tm \<lparr> tm_hour := tm_hour tm + 12 \<rparr> else tm) in
      if century st \<ge> 0 then
        tm \<lparr> tm_year := century st * 100 + (if have_yy st then cmod (tm_year tm + 1900) 100 else 0) - 1900 \<rparr>
      else tm)"

definition strp_with ::
    "(u8 list \<Rightarrow> u8 list \<Rightarrow> tm \<Rightarrow> (u8 list option \<times> tm) option) \<Rightarrow> lookup \<Rightarrow> u8 list \<Rightarrow> u8 list \<Rightarrow> tm \<Rightarrow> (u8 list option \<times> tm) option" where
  "strp_with nested lk f s tm = do {
     (r, st) \<leftarrow> strp_loop nested lk f s \<lparr> ptm = tm, pm = - 1, century = - 1, have_yy = False \<rparr>;
     Some (case r of None \<Rightarrow> (None, ptm st) | Some s \<Rightarrow> (Some s, strp_end st)) }"

definition strptime :: "lookup \<Rightarrow> u8 list \<Rightarrow> u8 list \<Rightarrow> tm \<Rightarrow> (u8 list option \<times> tm) option" where
  "strptime lk s f tm = strp_with (\<lambda>f s tm. strp_with (\<lambda>f s tm. None) lk f s tm) lk f s tm"

end
