(* ===== verification/Getopt.thy ===== *)
theory Getopt
  imports CText
begin

text \<open>
  Command line options, \<^verbatim>\<open>src/getopt.c\<close>.  The global variables are a record; \<open>argv\<close> is the list of
  its \<open>argc\<close> pointers (\<open>None\<close> a null one), each string the list of its bytes, read through \<open>byte_at\<close>, so that a
  read past the terminating NUL is a fault.  A message of \<open>complain\<close> is added to \<open>errs\<close>; the pointer
  \<open>flag\<close> of a long option is an address of the store \<open>flag_at\<close>, 0 the null pointer.
\<close>

subsection \<open>Definitions\<close>

record gstate =
  optarg :: "u8 list option"
  optind :: nat
  opterr :: bool
  optopt :: int
  optpos :: nat
  flag_at :: "u64 \<Rightarrow> int"
  errs :: "(u8 list option \<times> u8 list \<times> u8 list) list"

type_synonym argv = "u8 list option list"

definition arg_of :: "argv \<Rightarrow> nat \<Rightarrow> u8 list option" where
  "arg_of argv i = (if i < length argv then argv ! i else None)"

definition complain :: "argv \<Rightarrow> u8 list \<Rightarrow> u8 list \<Rightarrow> gstate \<Rightarrow> gstate" where
  "complain argv msg opt st = (if opterr st then st \<lparr> errs := errs st @ [(arg_of argv 0, msg, opt)] \<rparr> else st)"

text \<open>\<open>strchr\<close> as the rest of the string from the byte found; the NUL is found at its end.\<close>

definition str_from :: "u8 list \<Rightarrow> u8 \<Rightarrow> u8 list option" where
  "str_from s c = (let d = dropWhile (\<lambda>x. x \<noteq> c) s in if d \<noteq> [] \<or> c = 0 then Some d else None)"

text \<open>The option string after its \<open>+\<close> or \<open>-\<close>.\<close>

definition opts_of :: "u8 list \<Rightarrow> u8 list" where
  "opts_of os = (case os of [] \<Rightarrow> [] | c # os' \<Rightarrow> if c = 0x2d \<or> c = 0x2b then os' else os)"

text \<open>The start of an argument word: the result of the call, or the state with \<open>optpos\<close> at an option.\<close>

definition getopt_word :: "u8 list \<Rightarrow> u8 list \<Rightarrow> gstate \<Rightarrow> ((int \<times> gstate) + gstate) option" where
  "getopt_word os arg st =
     (if optpos st \<noteq> 0 then Some (Inr st)
      else do {
        c0 \<leftarrow> byte_at arg 0;
        if c0 \<noteq> 0x2d then do {
          o0 \<leftarrow> byte_at os 0;
          Some (Inl (if o0 = 0x2d then (1, st \<lparr> optarg := Some arg, optind := optind st + 1 \<rparr>) else (- 1, st))) }
        else do {
          c1 \<leftarrow> byte_at arg 1;
          if c1 = 0 then Some (Inl (- 1, st))
          else do {
            last \<leftarrow> (if c1 = 0x2d then do { c2 \<leftarrow> byte_at arg 2; Some (c2 = 0) } else Some False);
            Some (if last then Inl (- 1, st \<lparr> optind := optind st + 1 \<rparr>) else Inr (st \<lparr> optpos := 1 \<rparr>)) } } })"

text \<open>The option at \<open>optpos\<close>.\<close>

definition getopt_char :: "argv \<Rightarrow> u8 list \<Rightarrow> u8 list \<Rightarrow> gstate \<Rightarrow> (int \<times> gstate) option" where
  "getopt_char argv os arg st = do {
     c \<leftarrow> byte_at arg (optpos st);
     let st = st \<lparr> optpos := optpos st + 1 \<rparr>;
     let d = (if c \<noteq> 0x3a then str_from os c else None);
     e \<leftarrow> byte_at arg (optpos st);
     let st = (if e = 0 then st \<lparr> optind := optind st + 1, optpos := 0 \<rparr> else st);
     o0 \<leftarrow> byte_at os 0;
     case d of
       None \<Rightarrow>
         let st = st \<lparr> optopt := uint c \<rparr> in
         Some (0x3f, if o0 \<noteq> 0x3a then complain argv (lit ''unrecognized option'') [c] st else st)
     | Some d \<Rightarrow> do {
         d1 \<leftarrow> byte_at d 1;
         if d1 \<noteq> 0x3a then Some (uint c, st)
         else if optpos st \<noteq> 0 then
           Some (uint c, st \<lparr> optarg := Some (drop (optpos st) arg), optind := optind st + 1, optpos := 0 \<rparr>)
         else do {
           let st = st \<lparr> optarg := None \<rparr>;
           d2 \<leftarrow> byte_at d 2;
           if d2 = 0x3a then Some (uint c, st)
           else if optind st \<ge> length argv then
             let st = st \<lparr> optopt := uint c \<rparr> in
             Some (if o0 = 0x3a then (0x3a, st)
               else (0x3f, complain argv (lit ''option requires an argument'') [c] st))
           else Some (uint c, st \<lparr> optarg := argv ! optind st, optind := optind st + 1 \<rparr>) } } }"

definition restart :: "gstate \<Rightarrow> gstate" where
  "restart st = (let st = st \<lparr> optarg := None \<rparr> in if optind st = 0 then st \<lparr> optind := 1, optpos := 0 \<rparr> else st)"

definition getopt :: "argv \<Rightarrow> u8 list \<Rightarrow> gstate \<Rightarrow> (int \<times> gstate) option" where
  "getopt argv optstring st =
     (let st = restart st in
      case arg_of argv (optind st) of
        None \<Rightarrow> Some (- 1, st)
      | Some arg \<Rightarrow> do {
          w \<leftarrow> getopt_word optstring arg st;
          case w of Inl r \<Rightarrow> Some r | Inr st \<Rightarrow> getopt_char argv (opts_of optstring) arg st })"

text \<open>\<open>for (i = src; i > dest; i--) av[i] = av[i - 1]\<close>\<close>

fun shift_up :: "argv \<Rightarrow> nat \<Rightarrow> nat \<Rightarrow> argv" where
  "shift_up av dest 0 = av"
| "shift_up av dest (Suc i) = (if Suc i > dest then shift_up (av[Suc i := av ! i]) dest i else av)"

definition permute :: "argv \<Rightarrow> nat \<Rightarrow> nat \<Rightarrow> argv option" where
  "permute av dest src =
     (if src \<ge> length av then None
      else let tmp = av ! src in Some ((shift_up av dest src)[dest := tmp]))"

record long_option =
  opt_name :: "u8 list"
  has_arg :: int
  flag :: u64
  val :: int

definition no_argument :: int where "no_argument = 0"
definition required_argument :: int where "required_argument = 1"

text \<open>
  The loop over the long options: the index of the match and the number of different ones; \<open>name\<close>
  is the name asked for, up to the \<open>=\<close>.
\<close>

fun long_match :: "long_option list \<Rightarrow> u8 list \<Rightarrow> long_option list \<Rightarrow> nat \<Rightarrow> nat option \<Rightarrow> nat \<Rightarrow> nat option \<times> nat" where
  "long_match lo name [] i match cnt = (match, cnt)"
| "long_match lo name (l # ls) i match cnt =
     (if length (opt_name l) < length name \<or> take (length name) (opt_name l) \<noteq> name then long_match lo name ls (Suc i) match cnt
      else if length (opt_name l) = length name then (Some i, 1)
      else
        let differs = (case match of None \<Rightarrow> True
              | Some m \<Rightarrow> has_arg l \<noteq> has_arg (lo ! m) \<or> flag l \<noteq> flag (lo ! m) \<or> val l \<noteq> val (lo ! m)) in
        long_match lo name ls (Suc i) (if match = None then Some i else match) (if differs then cnt + 1 else cnt))"

text \<open>The rest of \<open>long_core\<close>, once option \<open>o'\<close> is found; \<open>eqv\<close> is what follows the \<open>=\<close>, if there is one.\<close>

definition long_found ::
    "argv \<Rightarrow> bool \<Rightarrow> u8 list \<Rightarrow> nat \<Rightarrow> u8 list option \<Rightarrow> nat \<Rightarrow> long_option \<Rightarrow> gstate \<Rightarrow> (int \<times> nat option \<times> gstate) option" where
  "long_found argv colon arg eqpos eqv match o' st =
     (let st = st \<lparr> optarg := None \<rparr>;
          finish = (\<lambda>st. if flag o' \<noteq> 0
            then Some (0, Some match, st \<lparr> flag_at := (flag_at st)(flag o' := val o') \<rparr>)
            else Some (val o', Some match, st)) in
      case eqv of
        Some v \<Rightarrow>
          if has_arg o' = no_argument then
            Some (0x3f, None, complain argv (lit ''option does not take an argument'') (take eqpos arg) (st \<lparr> optopt := val o' \<rparr>))
          else finish (st \<lparr> optarg := Some v \<rparr>)
      | None \<Rightarrow>
          if has_arg o' = required_argument then
            if optind st \<ge> length argv then
              Some (if colon then 0x3a else 0x3f, None,
                complain argv (lit ''option requires an argument'') arg (st \<lparr> optopt := val o' \<rparr>))
            else finish (st \<lparr> optarg := argv ! optind st, optind := optind st + 1 \<rparr>)
          else finish st)"

definition short_call :: "argv \<Rightarrow> u8 list \<Rightarrow> gstate \<Rightarrow> (int \<times> nat option \<times> gstate) option" where
  "short_call argv optstring st = do { (r, st) \<leftarrow> getopt argv optstring st; Some (r, None, st) }"

text \<open>Whether a word is looked up among the long options, from its first three bytes.\<close>

definition long_word :: "bool \<Rightarrow> u8 list \<Rightarrow> bool option" where
  "long_word longonly arg = do {
     c0 \<leftarrow> byte_at arg 0;
     if c0 \<noteq> 0x2d then Some False
     else do {
       c1 \<leftarrow> byte_at arg 1;
       two \<leftarrow> (if c1 = 0x2d then do { c2 \<leftarrow> byte_at arg 2; Some (c2 \<noteq> 0) } else Some False);
       Some (two \<or> longonly \<and> c1 \<noteq> 0 \<and> c1 \<noteq> 0x2d) } }"

text \<open>The second component is the value stored through \<open>idx\<close>.\<close>

definition long_core ::
    "argv \<Rightarrow> u8 list \<Rightarrow> long_option list \<Rightarrow> bool \<Rightarrow> gstate \<Rightarrow> (int \<times> nat option \<times> gstate) option" where
  "long_core argv optstring lo longonly st =
     (let os = opts_of optstring in
      case arg_of argv (optind st) of
        None \<Rightarrow> short_call argv optstring st
      | Some arg \<Rightarrow>
          if optpos st \<noteq> 0 then short_call argv optstring st
          else do {
            l \<leftarrow> long_word longonly arg;
            if \<not> l then short_call argv optstring st
            else do {
              c1 \<leftarrow> byte_at arg 1;
              c2 \<leftarrow> byte_at arg 2;
              if longonly \<and> c1 \<noteq> 0x2d \<and> c2 = 0 \<and> str_from os c1 \<noteq> None then short_call argv optstring st
              else do {
                let start = (if c1 = 0x2d then 2 else 1);
                let name = takeWhile (\<lambda>c. c \<noteq> 0x3d) (drop start arg);
                let eqpos = start + length name;
                eq \<leftarrow> byte_at arg eqpos;
                n0 \<leftarrow> byte_at arg start;
                let (match, cnt) = long_match lo name lo 0 None 0;
                if longonly \<and> c1 \<noteq> 0x2d \<and> cnt = 0 \<and> str_from os n0 \<noteq> None then short_call argv optstring st
                else do {
                  o0 \<leftarrow> byte_at os 0;
                  let st = st \<lparr> optind := optind st + 1 \<rparr>;
                  case match of
                    Some m \<Rightarrow>
                      if cnt = 1 then
                        long_found argv (o0 = 0x3a) arg eqpos (if eq \<noteq> 0 then Some (drop (eqpos + 1) arg) else None) m (lo ! m) st
                      else Some (0x3f, None, complain argv (lit ''option is ambiguous'') arg (st \<lparr> optopt := 0 \<rparr>))
                  | None \<Rightarrow> Some (0x3f, None, complain argv (lit ''unrecognized option'') arg (st \<lparr> optopt := 0 \<rparr>)) } } } })"

fun next_option :: "argv \<Rightarrow> nat \<Rightarrow> nat option" where
  "next_option [] i = None"
| "next_option (None # as) i = None"
| "next_option (Some a # as) i =
     (if take 1 a = [0x2d] \<and> 1 < length a then Some i else next_option as (Suc i))"

fun permute_n :: "nat \<Rightarrow> argv \<Rightarrow> nat \<Rightarrow> nat \<Rightarrow> argv option" where
  "permute_n 0 av dest src = Some av"
| "permute_n (Suc n) av dest src = do { av \<leftarrow> permute av dest src; permute_n n av dest src }"

definition long_permute ::
    "argv \<Rightarrow> u8 list \<Rightarrow> long_option list \<Rightarrow> bool \<Rightarrow> bool \<Rightarrow> gstate \<Rightarrow> (int \<times> nat option \<times> argv \<times> gstate) option" where
  "long_permute argv optstring lo longonly posix st =
     (let st = restart st in
      if arg_of argv (optind st) = None then Some (- 1, None, argv, st)
      else
        let skipped = optind st in
        case (if optpos st = 0 \<and> take 1 optstring \<notin> {[0x2b], [0x2d]} \<and> \<not> posix
              then next_option (drop (optind st) argv) (optind st) else Some (optind st)) of
          None \<Rightarrow> Some (- 1, None, argv, st)
        | Some resumed \<Rightarrow> do {
            (r, idx, st) \<leftarrow> long_core argv optstring lo longonly (st \<lparr> optind := resumed \<rparr>);
            if resumed > skipped then do {
              let cnt = optind st - resumed;
              argv \<leftarrow> permute_n cnt argv skipped (optind st - 1);
              Some (r, idx, argv, st \<lparr> optind := skipped + cnt \<rparr>) }
            else Some (r, idx, argv, st) })"

definition getopt_long where
  "getopt_long argv optstring lo posix st = long_permute argv optstring lo False posix st"

definition getopt_long_only where
  "getopt_long_only argv optstring lo posix st = long_permute argv optstring lo True posix st"

end
