(* ===== verification/Fnmatch.thy ===== *)
theory Fnmatch
  imports Ctype
begin

unbundle bit_operations_syntax

text \<open>
  Shell patterns, \<^verbatim>\<open>src/fnmatch.c\<close>.  A pointer into the pattern is the list of the bytes from it on, a
  pointer into the string an index; \<open>at0\<close> reads the byte under a pattern pointer and \<open>at\<close> a byte of
  the string, 0 at the end.  The flag word is a record of its bits.
\<close>

subsection \<open>Definitions\<close>

record fnm_flags =
  FNM_PATHNAME :: bool
  FNM_NOESCAPE :: bool
  FNM_PERIOD :: bool
  FNM_LEADING_DIR :: bool
  FNM_CASEFOLD :: bool

definition at0 :: "u8 list \<Rightarrow> u8" where
  "at0 p = (case p of [] \<Rightarrow> 0 | c # _ \<Rightarrow> c)"

definition at1 :: "u8 list \<Rightarrow> u8" where
  "at1 p = at0 (tl p)"

definition at :: "u8 list \<Rightarrow> nat \<Rightarrow> u8" where
  "at s i = (if i < length s then s ! i else 0)"

definition fold_case :: "int \<Rightarrow> fnm_flags \<Rightarrow> int" where
  "fold_case c flags = (if FNM_CASEFOLD flags then tolower c else c)"

definition cls :: "(u8 list \<times> (int \<Rightarrow> bool)) list" where
  "cls = [(lit ''alnum'', isalnum), (lit ''alpha'', isalpha), (lit ''blank'', isblank), (lit ''cntrl'', iscntrl),
     (lit ''digit'', isdigit), (lit ''graph'', isgraph), (lit ''lower'', islower), (lit ''print'', isprint),
     (lit ''punct'', ispunct), (lit ''space'', isspace), (lit ''upper'', isupper), (lit ''xdigit'', isxdigit)]"

text \<open>\<open>None\<close> is the -1 of an unknown class.\<close>

definition in_class :: "u8 list \<Rightarrow> int \<Rightarrow> bool option" where
  "in_class name c = (case map_of cls name of None \<Rightarrow> None | Some f \<Rightarrow> Some (f c))"

text \<open>\<open>strstr\<close> with a string of two bytes: what precedes it and what follows it.\<close>

fun find2 :: "u8 \<Rightarrow> u8 \<Rightarrow> u8 list \<Rightarrow> (u8 list \<times> u8 list) option" where
  "find2 a b (x # y # s) =
     (if x = a \<and> y = b then Some ([], s)
      else case find2 a b (y # s) of None \<Rightarrow> None | Some (l, r) \<Rightarrow> Some (x # l, r))"
| "find2 a b _ = None"

text \<open>The results -1, -2 and 0 or 1 with the pattern after the bracket.\<close>

datatype bracket_result = NoClose | Malformed | Tested bool "u8 list"

text \<open>\<open>if (*p == '\\' && !(flags & FNM_NOESCAPE) && p[1]) p++\<close>\<close>

definition unescape :: "fnm_flags \<Rightarrow> u8 list \<Rightarrow> u8 list" where
  "unescape flags p = (if at0 p = 0x5c \<and> \<not> FNM_NOESCAPE flags \<and> at1 p \<noteq> 0 then tl p else p)"

definition range_hit :: "fnm_flags \<Rightarrow> int \<Rightarrow> int \<Rightarrow> int \<Rightarrow> bool" where
  "range_hit flags c lo hi \<longleftrightarrow>
     (lo \<le> c \<and> c \<le> hi) \<or>
     (FNM_CASEFOLD flags \<and> fold_case lo flags \<le> fold_case c flags \<and> fold_case c flags \<le> fold_case hi flags) \<or>
     (FNM_CASEFOLD flags \<and> lo \<le> toupper c \<and> toupper c \<le> hi)"

definition class_hit :: "fnm_flags \<Rightarrow> u8 list \<Rightarrow> int \<Rightarrow> bool option" where
  "class_hit flags name c = (case in_class name c of
     None \<Rightarrow> None
   | Some r \<Rightarrow> Some (r \<or> (FNM_CASEFOLD flags \<and> \<not> r \<and> isalpha c \<and>
       in_class name (if isupper c then tolower c else toupper c) = Some True)))"

partial_function (option) bracket_loop ::
    "fnm_flags \<Rightarrow> int \<Rightarrow> bool \<Rightarrow> bool \<Rightarrow> bool \<Rightarrow> u8 list \<Rightarrow> bracket_result option" where
  "bracket_loop flags c neg hit first p =
     (if \<not> first \<and> at0 p = 0x5d then Some (Tested (hit \<noteq> neg) (tl p))
      else if at0 p = 0 then Some NoClose
      else if at0 p = 0x5b \<and> (at1 p = 0x2e \<or> at1 p = 0x3d) then
        (case find2 (at1 p) 0x5d (drop 2 p) of
           None \<Rightarrow> Some Malformed
         | Some (l, r) \<Rightarrow>
             bracket_loop flags c neg
               (hit \<or> (length l = 1 \<and> fold_case (uint (at0 l)) flags = fold_case c flags)) False r)
      else if at0 p = 0x5b \<and> at1 p = 0x3a then
        (case find2 0x3a 0x5d (drop 2 p) of
           None \<Rightarrow> Some Malformed
         | Some (l, r) \<Rightarrow> (case class_hit flags l c of
             None \<Rightarrow> Some Malformed
           | Some h \<Rightarrow> bracket_loop flags c neg (hit \<or> h) False r))
      else
        let p = unescape flags p; lo = uint (at0 p); p = tl p in
        if at0 p = 0x2d \<and> at1 p \<noteq> 0 \<and> at1 p \<noteq> 0x5d then
          let p = unescape flags (tl p); hi = uint (at0 p) in
          bracket_loop flags c neg (hit \<or> range_hit flags c lo hi) False (tl p)
        else bracket_loop flags c neg (hit \<or> fold_case lo flags = fold_case c flags) False p)"

declare bracket_loop.simps [code]

definition bracket :: "u8 list \<Rightarrow> int \<Rightarrow> fnm_flags \<Rightarrow> bracket_result option" where
  "bracket p c flags =
     (if at0 p = 0x21 \<or> at0 p = 0x5e then bracket_loop flags c True False True (tl p)
      else bracket_loop flags c False False True p)"

definition leading_dot :: "fnm_flags \<Rightarrow> u8 list \<Rightarrow> nat \<Rightarrow> bool" where
  "leading_dot flags str x \<longleftrightarrow> FNM_PERIOD flags \<and> at str x = 0x2e \<and>
     (x = 0 \<or> FNM_PATHNAME flags \<and> at str (x - 1) = 0x2f)"

text \<open>What the switch does at \<open>p\<close> and \<open>s\<close>.\<close>

datatype fstep = Match | Fail | Backtrack | Star "u8 list" | Next "u8 list"

definition literal :: "fnm_flags \<Rightarrow> u8 list \<Rightarrow> u8 list \<Rightarrow> nat \<Rightarrow> fstep" where
  "literal flags str p s =
     (if fold_case (uint (at0 p)) flags \<noteq> fold_case (uint (at str s)) flags \<or> at str s = 0 then Backtrack
      else Next (tl p))"

definition fn_switch :: "fnm_flags \<Rightarrow> u8 list \<Rightarrow> u8 list \<Rightarrow> nat \<Rightarrow> fstep option" where
  "fn_switch flags str p s =
     (let stop = (at str s = 0 \<or> FNM_PATHNAME flags \<and> at str s = 0x2f) in
      if at0 p = 0 then
        Some (if at str s = 0 \<or> FNM_LEADING_DIR flags \<and> at str s = 0x2f then Match else Backtrack)
      else if at0 p = 0x2a then Some (Star (dropWhile (\<lambda>c. c = 0x2a) p))
      else if at0 p = 0x3f then Some (if stop then Backtrack else Next (tl p))
      else if at0 p = 0x5b then
        if stop then Some Backtrack
        else do {
          r \<leftarrow> bracket (tl p) (uint (at str s)) flags;
          Some (case r of
            Malformed \<Rightarrow> Fail
          | NoClose \<Rightarrow> literal flags str p s
          | Tested hit q \<Rightarrow> if hit then Next q else Backtrack) }
      else if at0 p = 0x5c \<and> \<not> FNM_NOESCAPE flags then
        Some (if at1 p = 0 then Fail else literal flags str (tl p) s)
      else Some (literal flags str p s))"

text \<open>One round of the loop up to the label \<open>backtrack\<close>.\<close>

definition fn_step :: "fnm_flags \<Rightarrow> u8 list \<Rightarrow> u8 list \<Rightarrow> nat \<Rightarrow> fstep option" where
  "fn_step flags str p s =
     (if leading_dot flags str s \<and> at0 p \<noteq> 0x2e \<and>
         \<not> (at0 p = 0x5c \<and> \<not> FNM_NOESCAPE flags \<and> at1 p = 0x2e) \<and> at0 p \<noteq> 0
      then Some Backtrack else fn_switch flags str p s)"

partial_function (option) fn_loop ::
    "fnm_flags \<Rightarrow> u8 list \<Rightarrow> (u8 list \<times> nat) option \<Rightarrow> u8 list \<Rightarrow> nat \<Rightarrow> bool option" where
  "fn_loop flags str star p s = do {
     r \<leftarrow> fn_step flags str p s;
     case r of
       Match \<Rightarrow> Some True
     | Fail \<Rightarrow> Some False
     | Star q \<Rightarrow> fn_loop flags str (Some (q, s)) q s
     | Next q \<Rightarrow> fn_loop flags str star q (Suc s)
     | Backtrack \<Rightarrow> (case star of
         None \<Rightarrow> Some False
       | Some (sp, ss) \<Rightarrow>
           if at str ss = 0 \<or> FNM_PATHNAME flags \<and> at str ss = 0x2f \<or> leading_dot flags str ss then Some False
           else fn_loop flags str (Some (sp, Suc ss)) sp (Suc ss)) }"

declare fn_loop.simps [code]

text \<open>\<open>True\<close> is the result 0, \<open>False\<close> is \<open>FNM_NOMATCH\<close>.\<close>

definition fnmatch :: "u8 list \<Rightarrow> u8 list \<Rightarrow> fnm_flags \<Rightarrow> bool option" where
  "fnmatch pat str flags = fn_loop flags str None pat 0"

end
