(* ===== verification/Wchar.thy ===== *)
theory Wchar
  imports Strtol
begin

text \<open>
  Wide strings, \<^verbatim>\<open>src/wchar.c\<close>, and their numeric conversions, \<^verbatim>\<open>src/wcsto.c\<close>.  A wide string is the list
  of its characters, read through \<open>wat\<close>: the terminating 0 at its end, a fault past it.  An array
  that is written is the list of its cells, written through \<open>wput\<close>, a fault outside.  \<open>wchar_t\<close> is
  a signed 32-bit integer; comparisons read it with \<open>sint\<close>.
\<close>

subsection \<open>Definitions\<close>

definition wat :: "u32 list \<Rightarrow> nat \<Rightarrow> u32 option" where
  "wat s i = (if i < length s then Some (s ! i) else if i = length s then Some 0 else None)"

text \<open>A cell of an array without terminator.\<close>

definition wcell :: "u32 list \<Rightarrow> nat \<Rightarrow> u32 option" where
  "wcell s i = (if i < length s then Some (s ! i) else None)"

definition wput :: "u32 list \<Rightarrow> nat \<Rightarrow> u32 \<Rightarrow> u32 list option" where
  "wput d i v = (if i < length d then Some (d[i := v]) else None)"

definition wcslen :: "u32 list \<Rightarrow> nat option" where
  "wcslen s = loop (\<lambda>i. do { c \<leftarrow> wat s i; Some (c \<noteq> 0) }) (\<lambda>i. Some (Suc i)) 0"

definition wcsnlen :: "u32 list \<Rightarrow> nat \<Rightarrow> nat option" where
  "wcsnlen s n = loop (\<lambda>i. if i < n then do { c \<leftarrow> wat s i; Some (c \<noteq> 0) } else Some False) (\<lambda>i. Some (Suc i)) 0"

text \<open>The destination \<open>d\<close> is the array from the pointer on; the source does not overlap it.\<close>

partial_function (option) wcscpy_from :: "u32 list \<Rightarrow> u32 list \<Rightarrow> nat \<Rightarrow> nat \<Rightarrow> u32 list option" where
  "wcscpy_from d s i j = do {
     c \<leftarrow> wat s j;
     d \<leftarrow> wput d i c;
     if c \<noteq> 0 then wcscpy_from d s (Suc i) (Suc j) else Some d }"

declare wcscpy_from.simps [code]

definition wcscpy :: "u32 list \<Rightarrow> u32 list \<Rightarrow> u32 list option" where
  "wcscpy d s = wcscpy_from d s 0 0"

definition wcsncpy :: "u32 list \<Rightarrow> u32 list \<Rightarrow> nat \<Rightarrow> u32 list option" where
  "wcsncpy d s n = do {
     (d, i, n) \<leftarrow> loop (\<lambda>(d, i, n). if n \<noteq> 0 then do { c \<leftarrow> wat s i; Some (c \<noteq> 0) } else Some False)
       (\<lambda>(d, i, n). do { c \<leftarrow> wat s i; d \<leftarrow> wput d i c; Some (d, Suc i, n - 1) }) (d, 0, n);
     (d, i, n) \<leftarrow> loop (\<lambda>(d, i, n). Some (n \<noteq> 0)) (\<lambda>(d, i, n). do { d \<leftarrow> wput d i 0; Some (d, Suc i, n - 1) }) (d, i, n);
     Some d }"

text \<open>An array read as a string: the cells before the first 0, which it must hold.\<close>

definition arr_len :: "u32 list \<Rightarrow> nat option" where
  "arr_len d = loop (\<lambda>i. do { c \<leftarrow> wcell d i; Some (c \<noteq> 0) }) (\<lambda>i. Some (Suc i)) 0"

definition wcscat :: "u32 list \<Rightarrow> u32 list \<Rightarrow> u32 list option" where
  "wcscat d s = do { n \<leftarrow> arr_len d; wcscpy_from d s n 0 }"

definition wcmp :: "u32 \<Rightarrow> u32 \<Rightarrow> int" where
  "wcmp a b = (if sint a < sint b then - 1 else if sint a > sint b then 1 else 0)"

definition wcscmp :: "u32 list \<Rightarrow> u32 list \<Rightarrow> int option" where
  "wcscmp l r = do {
     i \<leftarrow> loop (\<lambda>i. do { a \<leftarrow> wat l i; b \<leftarrow> wat r i; Some (a = b \<and> a \<noteq> 0) }) (\<lambda>i. Some (Suc i)) 0;
     a \<leftarrow> wat l i; b \<leftarrow> wat r i;
     Some (wcmp a b) }"

definition wcsncmp :: "u32 list \<Rightarrow> u32 list \<Rightarrow> nat \<Rightarrow> int option" where
  "wcsncmp l r n = do {
     i \<leftarrow> loop (\<lambda>i. if i < n then do { a \<leftarrow> wat l i; b \<leftarrow> wat r i; Some (a = b \<and> a \<noteq> 0) } else Some False)
       (\<lambda>i. Some (Suc i)) 0;
     if i < n then do { a \<leftarrow> wat l i; b \<leftarrow> wat r i; Some (wcmp a b) } else Some 0 }"

text \<open>A pointer into the string is its index, a null pointer \<open>None\<close>.\<close>

partial_function (option) wcschr_from :: "u32 list \<Rightarrow> u32 \<Rightarrow> nat \<Rightarrow> nat option option" where
  "wcschr_from s c i = do {
     x \<leftarrow> wat s i;
     if x = c then Some (Some i) else if x = 0 then Some None else wcschr_from s c (Suc i) }"

partial_function (option) wcsrchr_from :: "u32 list \<Rightarrow> u32 \<Rightarrow> nat \<Rightarrow> nat option \<Rightarrow> nat option option" where
  "wcsrchr_from s c i r = do {
     x \<leftarrow> wat s i;
     let r = (if x = c then Some i else r);
     if x = 0 then Some r else wcsrchr_from s c (Suc i) r }"

declare wcschr_from.simps [code] wcsrchr_from.simps [code]

definition wcschr :: "u32 list \<Rightarrow> u32 \<Rightarrow> nat option option" where
  "wcschr s c = wcschr_from s c 0"

definition wcsrchr :: "u32 list \<Rightarrow> u32 \<Rightarrow> nat option option" where
  "wcsrchr s c = wcsrchr_from s c 0 None"

fun wmemcpy_from :: "u32 list \<Rightarrow> u32 list \<Rightarrow> nat \<Rightarrow> nat \<Rightarrow> u32 list option" where
  "wmemcpy_from d s i 0 = Some d"
| "wmemcpy_from d s i (Suc n) = do { c \<leftarrow> wat s i; d \<leftarrow> wput d i c; wmemcpy_from d s (Suc i) n }"

text \<open>The last cell copied may be the terminator, as in \<open>wcsdup\<close> and \<open>wcsxfrm\<close>.\<close>

definition wmemcpy :: "u32 list \<Rightarrow> u32 list \<Rightarrow> nat \<Rightarrow> u32 list option" where
  "wmemcpy d s n = wmemcpy_from d s 0 n"

text \<open>\<open>fresh\<close> is the answer of \<open>reallocarray\<close>: the cells of the new array.\<close>

definition wcsdup :: "(nat \<Rightarrow> u32 list option) \<Rightarrow> u32 list \<Rightarrow> u32 list option option" where
  "wcsdup fresh s = do {
     n \<leftarrow> wcslen s;
     case fresh (n + 1) of None \<Rightarrow> Some None | Some d \<Rightarrow> do { d \<leftarrow> wmemcpy d s (n + 1); Some (Some d) } }"

fun move_up :: "u32 list \<Rightarrow> nat \<Rightarrow> nat \<Rightarrow> nat \<Rightarrow> u32 list option" where
  "move_up m d s 0 = Some m"
| "move_up m d s (Suc n) = do { c \<leftarrow> wcell m s; m \<leftarrow> wput m d c; move_up m (Suc d) (Suc s) n }"

fun move_down :: "u32 list \<Rightarrow> nat \<Rightarrow> nat \<Rightarrow> nat \<Rightarrow> u32 list option" where
  "move_down m d s 0 = Some m"
| "move_down m d s (Suc n) = do { c \<leftarrow> wcell m (s + n); m \<leftarrow> wput m (d + n) c; move_down m d s n }"

text \<open>Both pointers are cells of one array; the test compares the byte addresses.\<close>

definition wmemmove :: "u32 list \<Rightarrow> nat \<Rightarrow> nat \<Rightarrow> nat \<Rightarrow> u32 list option" where
  "wmemmove m d s n =
     (if (of_nat (4 * d) :: u64) - of_nat (4 * s) \<ge> of_nat (4 * n) then move_up m d s n else move_down m d s n)"

fun wmemset_from :: "u32 list \<Rightarrow> u32 \<Rightarrow> nat \<Rightarrow> nat \<Rightarrow> u32 list option" where
  "wmemset_from d c i 0 = Some d"
| "wmemset_from d c i (Suc n) = do { d \<leftarrow> wput d i c; wmemset_from d c (Suc i) n }"

definition wmemset :: "u32 list \<Rightarrow> u32 \<Rightarrow> nat \<Rightarrow> u32 list option" where
  "wmemset d c n = wmemset_from d c 0 n"

definition wmemcmp :: "u32 list \<Rightarrow> u32 list \<Rightarrow> nat \<Rightarrow> int option" where
  "wmemcmp l r n = do {
     i \<leftarrow> loop (\<lambda>i. if i < n then do { a \<leftarrow> wcell l i; b \<leftarrow> wcell r i; Some (a = b) } else Some False) (\<lambda>i. Some (Suc i)) 0;
     if i < n then do { a \<leftarrow> wcell l i; b \<leftarrow> wcell r i; Some (wcmp a b) } else Some 0 }"

definition wmemchr :: "u32 list \<Rightarrow> u32 \<Rightarrow> nat \<Rightarrow> nat option option" where
  "wmemchr s c n = do {
     i \<leftarrow> loop (\<lambda>i. if i < n then do { a \<leftarrow> wcell s i; Some (a \<noteq> c) } else Some False) (\<lambda>i. Some (Suc i)) 0;
     Some (if i < n then Some i else None) }"

definition wspan :: "bool \<Rightarrow> u32 list \<Rightarrow> u32 list \<Rightarrow> nat \<Rightarrow> nat option" where
  "wspan in_set s c i = do {
     j \<leftarrow> loop (\<lambda>i. do { x \<leftarrow> wat s i; if x = 0 then Some False else do { r \<leftarrow> wcschr c x; Some ((r \<noteq> None) = in_set) } })
       (\<lambda>i. Some (Suc i)) i;
     Some (j - i) }"

definition wcsspn :: "u32 list \<Rightarrow> u32 list \<Rightarrow> nat option" where
  "wcsspn s c = wspan True s c 0"

definition wcscspn :: "u32 list \<Rightarrow> u32 list \<Rightarrow> nat option" where
  "wcscspn s c = wspan False s c 0"

definition wcspbrk :: "u32 list \<Rightarrow> u32 list \<Rightarrow> nat option option" where
  "wcspbrk s c = do { i \<leftarrow> wcscspn s c; x \<leftarrow> wat s i; Some (if x \<noteq> 0 then Some i else None) }"

partial_function (option) wcsncat_loop :: "u32 list \<Rightarrow> u32 list \<Rightarrow> nat \<Rightarrow> nat \<Rightarrow> nat \<Rightarrow> (u32 list \<times> nat) option" where
  "wcsncat_loop d s i j n =
     (if n = 0 then Some (d, i)
      else do {
        c \<leftarrow> wat s j;
        if c = 0 then Some (d, i) else do { d \<leftarrow> wput d i c; wcsncat_loop d s (Suc i) (Suc j) (n - 1) } })"

declare wcsncat_loop.simps [code]

definition wcsncat :: "u32 list \<Rightarrow> u32 list \<Rightarrow> nat \<Rightarrow> u32 list option" where
  "wcsncat d s n = do { k \<leftarrow> arr_len d; (d, i) \<leftarrow> wcsncat_loop d s k 0 n; wput d i 0 }"

text \<open>The failure table, and the two searches of \<open>wcsstr\<close>.\<close>

partial_function (option) kmp_back :: "u32 list \<Rightarrow> nat list \<Rightarrow> u32 \<Rightarrow> nat \<Rightarrow> nat option" where
  "kmp_back n fail c k =
     (if k = 0 then Some 0
      else do {
        x \<leftarrow> wat n k;
        if c \<noteq> x then if k - 1 < length fail then kmp_back n fail c (fail ! (k - 1)) else None
        else Some k })"

partial_function (option) kmp_table :: "u32 list \<Rightarrow> nat \<Rightarrow> nat list \<Rightarrow> nat \<Rightarrow> nat \<Rightarrow> nat list option" where
  "kmp_table n m fail i k =
     (if i < m then do {
        c \<leftarrow> wat n i;
        k \<leftarrow> kmp_back n fail c k;
        x \<leftarrow> wat n k;
        let k = (if c = x then k + 1 else k);
        kmp_table n m (fail @ [k]) (Suc i) k }
      else Some fail)"

partial_function (option) kmp_search :: "u32 list \<Rightarrow> u32 list \<Rightarrow> nat \<Rightarrow> nat list \<Rightarrow> nat \<Rightarrow> nat \<Rightarrow> nat option option" where
  "kmp_search h n m fail i k = do {
     c \<leftarrow> wat h i;
     if c = 0 then Some None
     else do {
       k \<leftarrow> kmp_back n fail c k;
       x \<leftarrow> wat n k;
       if c = x then if k + 1 = m then Some (Some (i - (m - 1))) else kmp_search h n m fail (Suc i) (k + 1)
       else kmp_search h n m fail (Suc i) k } }"

partial_function (option) plain_search :: "u32 list \<Rightarrow> u32 list \<Rightarrow> nat \<Rightarrow> nat \<Rightarrow> nat option option" where
  "plain_search h n m i = do {
     c \<leftarrow> wat h i;
     if c = 0 then Some None
     else do { r \<leftarrow> wcsncmp (drop i h) n m; if r = 0 then Some (Some i) else plain_search h n m (Suc i) } }"

declare kmp_back.simps [code] kmp_table.simps [code] kmp_search.simps [code] plain_search.simps [code]

text \<open>\<open>mem_ok\<close> is the answer of \<open>malloc\<close> for a table of more than 64 entries.\<close>

definition wcsstr :: "bool \<Rightarrow> u32 list \<Rightarrow> u32 list \<Rightarrow> nat option option" where
  "wcsstr mem_ok h n = do {
     m \<leftarrow> wcslen n;
     if m = 0 then Some (Some 0)
     else if m > 64 \<and> \<not> mem_ok then plain_search h n m 0
     else do { fail \<leftarrow> kmp_table n m [0] 1 0; kmp_search h n m fail 0 0 } }"

definition wcscoll :: "u32 list \<Rightarrow> u32 list \<Rightarrow> int option" where
  "wcscoll l r = wcscmp l r"

definition wcsxfrm :: "u32 list \<Rightarrow> u32 list \<Rightarrow> nat \<Rightarrow> (nat \<times> u32 list) option" where
  "wcsxfrm d s n = do {
     l \<leftarrow> wcslen s;
     d \<leftarrow> (if l < n then wmemcpy d s (l + 1) else Some d);
     Some (l, d) }"

subsection \<open>Numbers\<close>

text \<open>White space, \<open>iswspace\<close> of \<^verbatim>\<open>src/wctype.c\<close>: a binary search in a table of ranges.\<close>

definition u_space :: "(u32 \<times> u32) list" where
  "u_space = [(0x9, 0xd), (0x20, 0x20), (0x1680, 0x1680), (0x2000, 0x2006),
     (0x2008, 0x200a), (0x2028, 0x2029), (0x205f, 0x205f), (0x3000, 0x3000)]"

function in_ranges :: "(u32 \<times> u32) list \<Rightarrow> u32 \<Rightarrow> nat \<Rightarrow> nat \<Rightarrow> bool option" where
  "in_ranges r c lo hi =
     (if lo < hi then
        let mid = (lo + hi) div 2 in
        if mid \<ge> length r then None
        else if c < fst (r ! mid) then in_ranges r c lo mid
        else if c > snd (r ! mid) then in_ranges r c (mid + 1) hi
        else Some True
      else Some False)"
  by auto
termination by (relation "measure (\<lambda>(r, c, lo, hi). hi - lo)") auto

declare in_ranges.simps [simp del]

definition iswspace :: "u32 \<Rightarrow> bool option" where
  "iswspace c = in_ranges u_space c 0 (length u_space)"

text \<open>\<open>mem_ok\<close> is the answer of \<open>malloc\<close> for a run of 128 characters or more.\<close>

definition narrow :: "bool \<Rightarrow> u32 list \<Rightarrow> nat \<Rightarrow> u8 list option option" where
  "narrow mem_ok s t = do {
     n \<leftarrow> loop (\<lambda>n. do { c \<leftarrow> wat s (t + n); Some (c \<noteq> 0 \<and> c < 0x80) }) (\<lambda>n. Some (Suc n)) 0;
     Some (if n < 128 \<or> mem_ok then Some (map ucast (take n (drop t s))) else None) }"

text \<open>
  The macro \<open>BODY\<close>: \<open>conv\<close> is the byte function, with the offset of its end pointer; the result is
  its value, the offset of the wide end pointer and \<open>errno\<close> as the byte function leaves it.
\<close>

definition wide_body ::
    "(u8 list \<Rightarrow> ('v :: zero \<times> nat \<times> errno option) option) \<Rightarrow> bool \<Rightarrow> u32 list \<Rightarrow> ('v \<times> nat \<times> errno option) option" where
  "wide_body conv mem_ok s = do {
     t \<leftarrow> loop (\<lambda>t. do { c \<leftarrow> wat s t; iswspace c }) (\<lambda>t. Some (Suc t)) 0;
     b \<leftarrow> narrow mem_ok s t;
     case b of
       None \<Rightarrow> Some (0, 0, Some ENOMEM)
     | Some b \<Rightarrow> do {
         (v, e, err) \<leftarrow> conv b;
         Some (v, if e = 0 then 0 else t + e, err) } }"

definition wcstol where "wcstol mem_ok s base = wide_body (\<lambda>b. strtol b base) mem_ok s"
definition wcstoul where "wcstoul mem_ok s base = wide_body (\<lambda>b. strtoul b base) mem_ok s"
definition wcstoll where "wcstoll mem_ok s base = wide_body (\<lambda>b. strtoll b base) mem_ok s"
definition wcstoull where "wcstoull mem_ok s base = wide_body (\<lambda>b. strtoull b base) mem_ok s"
definition wcstoimax where "wcstoimax mem_ok s base = wide_body (\<lambda>b. strtoimax b base) mem_ok s"
definition wcstoumax where "wcstoumax mem_ok s base = wide_body (\<lambda>b. strtoumax b base) mem_ok s"

end
