(* ===== verification/Spec2Isabelle.thy ===== *)
theory Spec2Isabelle
  imports CStringOps Strtol HSearch TSearch LSearch Qsort Uchar Environ Sha2 Arc4random Timeconv Getopt Fnmatch Wchar
begin

text \<open>
  A verification development of the C library under \<^verbatim>\<open>src/src\<close>.
\<close>

end
